(* ===== verification/Prelude.thy ===== *)
theory Prelude
  imports Main "HOL-Library.Word" "HOL-Library.Monad_Syntax"
begin

text \<open>
  Shared vocabulary of the development: the machine integer types of
  \<^verbatim>\<open>kernel/types.h\<close>, the theorem collections of the component proofs, table scans
  (the \<open>for\<close> loops over fixed-size tables that stop at the first match), byte memories and
  little-endian loads and stores.

  Code is modelled by explicit state passing in the option monad: a kernel function takes
  the state and returns \<open>Some\<close> of its result and the new state, or \<open>None\<close> when the call does
  not return (a \<open>panic\<close>, or a spin that no step of the executing hart can end).
\<close>

unbundle bit_operations_syntax

type_synonym u8 = "8 word"
type_synonym u16 = "16 word"
type_synonym u32 = "32 word"
type_synonym u64 = "64 word"

text \<open>A byte-addressed memory, and byte strings.\<close>

type_synonym memory = "u64 \<Rightarrow> u8"
type_synonym bytes = "u8 list"

named_theorems kdefs \<open>definitions of kernel constants and straight-line operations\<close>
named_theorems frame \<open>fields that an operation does not write\<close>

section \<open>Invariants of a step relation\<close>

text \<open>A transition system with an inductive invariant: it holds at every reachable state.\<close>

locale inductive_invariant =
  fixes init :: "'s \<Rightarrow> bool"
    and step :: "'s \<Rightarrow> 's \<Rightarrow> bool"
    and inv :: "'s \<Rightarrow> bool"
  assumes init_inv: "init s \<Longrightarrow> inv s"
    and step_inv: "inv s \<Longrightarrow> step s t \<Longrightarrow> inv t"
begin

lemma steps_inv: "step\<^sup>*\<^sup>* s t \<Longrightarrow> inv s \<Longrightarrow> inv t"
  by (induction rule: rtranclp_induct) (auto intro: step_inv)

lemma reachable_inv: "init s \<Longrightarrow> step\<^sup>*\<^sup>* s t \<Longrightarrow> inv t"
  using init_inv steps_inv by blast

end

section \<open>Results of calls\<close>

text \<open>\<open>post m Q\<close>: if the call returns, its result satisfies \<open>Q\<close>. The rules in \<open>vcg\<close> follow the
  shape of a function's body.\<close>

definition post :: "'r option \<Rightarrow> ('r \<Rightarrow> bool) \<Rightarrow> bool" where
  "post m Q \<longleftrightarrow> (\<forall>r. m = Some r \<longrightarrow> Q r)"

named_theorems vcg \<open>rules for the results of calls\<close>

lemma post_Some [vcg]: "Q r \<Longrightarrow> post (Some r) Q"
  by (simp add: post_def)

lemma post_None [vcg]: "post None Q"
  by (simp add: post_def)

lemma post_bind [vcg]:
  "post m P \<Longrightarrow> (\<And>r. m = Some r \<Longrightarrow> P r \<Longrightarrow> post (f r) Q) \<Longrightarrow> post (m \<bind> f) Q"
  by (auto simp: post_def bind_eq_Some_conv)

lemma post_bind_Some [vcg]: "post (f r) Q \<Longrightarrow> post (Some r \<bind> f) Q"
  by simp

lemma post_bind_if [vcg]:
  "(b \<Longrightarrow> post (m \<bind> f) Q) \<Longrightarrow> (\<not> b \<Longrightarrow> post (n \<bind> f) Q) \<Longrightarrow> post ((if b then m else n) \<bind> f) Q"
  by simp

lemma post_if [vcg]: "(b \<Longrightarrow> post m Q) \<Longrightarrow> (\<not> b \<Longrightarrow> post n Q) \<Longrightarrow> post (if b then m else n) Q"
  by simp

lemma post_prod [vcg]: "(\<And>a b. r = (a, b) \<Longrightarrow> post (f a b) Q) \<Longrightarrow> post (case r of (a, b) \<Rightarrow> f a b) Q"
  by (cases r) simp

lemma post_option [vcg]:
  "(r = None \<Longrightarrow> post m Q) \<Longrightarrow> (\<And>x. r = Some x \<Longrightarrow> post (f x) Q) \<Longrightarrow>
     post (case r of None \<Rightarrow> m | Some x \<Rightarrow> f x) Q"
  by (cases r) simp_all

lemma post_let [vcg]: "post (f a) Q \<Longrightarrow> post (let x = a in f x) Q"
  by simp

text \<open>Following a null pointer traps, and a trap in the kernel is a panic.\<close>

definition deref :: "'a option \<Rightarrow> 'a option" where
  "deref p = p"

lemma deref_simps [simp]: "deref None = None" "deref (Some x) = Some x"
  by (simp_all add: deref_def)

lemma post_deref [vcg]: "post (deref p) (\<lambda>x. p = Some x)"
  by (simp add: post_def deref_def)

lemma post_let_if [vcg]:
  "(b \<Longrightarrow> post (f x) Q) \<Longrightarrow> (\<not> b \<Longrightarrow> post (f y) Q) \<Longrightarrow> post (let r = (if b then x else y) in f r) Q"
  by simp

lemma post_bind2:
  "post m (\<lambda>(a, t). P a t) \<Longrightarrow> (\<And>a t. m = Some (a, t) \<Longrightarrow> P a t \<Longrightarrow> post (f a t) Q) \<Longrightarrow>
     post (m \<bind> (\<lambda>(a, t). f a t)) Q"
  by (auto simp: post_def bind_eq_Some_conv)

lemma post_mono: "post m P \<Longrightarrow> (\<And>r. P r \<Longrightarrow> Q r) \<Longrightarrow> post m Q"
  by (auto simp: post_def)

lemma post_mono2: "post m (\<lambda>(a, t). P a t) \<Longrightarrow> (\<And>a t. P a t \<Longrightarrow> Q (a, t)) \<Longrightarrow> post m Q"
  by (auto simp: post_def)

lemma post_bind_bind: "post (m \<bind> (\<lambda>r. f r \<bind> g)) Q \<Longrightarrow> post ((m \<bind> f) \<bind> g) Q"
  by simp

lemma post_bind_let: "post (f a \<bind> g) Q \<Longrightarrow> post ((let x = a in f x) \<bind> g) Q"
  by simp

lemma post_bind_prod:
  "(\<And>a b. r = (a, b) \<Longrightarrow> post (f a b \<bind> g) Q) \<Longrightarrow> post ((case r of (a, b) \<Rightarrow> f a b) \<bind> g) Q"
  by (cases r) simp

lemmas post_struct = post_bind_bind post_bind_let post_bind_prod post_Some post_None post_bind_Some post_bind_if post_if post_prod post_option post_let

lemma postI: "(\<And>r. m = Some r \<Longrightarrow> Q r) \<Longrightarrow> post m Q"
  by (simp add: post_def)

lemma postD: "post m Q \<Longrightarrow> m = Some r \<Longrightarrow> Q r"
  by (simp add: post_def)

section \<open>Table scans\<close>

lemma find_upt_Some:
  "List.find P [0..<n] = Some i \<longleftrightarrow> i < n \<and> P i \<and> (\<forall>j<i. \<not> P j)"
  by (auto simp: find_Some_iff nth_append)

lemma find_upt_None: "List.find P [0..<n] = None \<longleftrightarrow> (\<forall>i<n. \<not> P i)"
  by (auto simp: find_None_iff)

lemma find_SomeD: "List.find P xs = Some x \<Longrightarrow> x \<in> set xs \<and> P x"
  by (auto simp: find_Some_iff)

lemma find_cong_on: "(\<And>x. x \<in> set xs \<Longrightarrow> P x = Q x) \<Longrightarrow> List.find P xs = List.find Q xs"
  by (induction xs) auto

section \<open>Word arithmetic without wrap-around\<close>

lemma unat_bound: "unat (w :: 'a::len word) < 2 ^ LENGTH('a)"
  by (rule unsigned_less)

lemma unat_add_1: "i < n \<Longrightarrow> unat (i + 1) = Suc (unat i)" for i n :: "'a::len word"
proof -
  assume "i < n"
  then have "unat i < unat n" by (simp add: word_less_nat_alt)
  then have "unat i + 1 < 2 ^ LENGTH('a)"
    using unat_bound [of n] by linarith
  then show ?thesis by (simp add: unat_word_ariths)
qed

lemma unat_minus_one_max: "unat (- 1 :: u64) = 2 ^ 64 - 1"
  by (simp add: unsigned_minus_1_eq_mask mask_eq_exp_minus_1)

lemma unat_sub_1: "x \<noteq> 0 \<Longrightarrow> unat (x - 1) = unat x - 1" for x :: "'a::len word"
  by (metis unat_minus_one)

section \<open>Bytes of a word\<close>

text \<open>Little-endian byte image of a word, as the RISC-V lays it out in memory.\<close>

definition le_bytes :: "nat \<Rightarrow> 'a::len word \<Rightarrow> bytes" where
  "le_bytes n w = map (\<lambda>i. ucast (drop_bit (8 * i) w)) [0..<n]"

fun le_word :: "bytes \<Rightarrow> 'a::len word" where
  "le_word [] = 0"
| "le_word (b # bs) = ucast b OR push_bit 8 (le_word bs)"

lemma length_le_bytes [simp]: "length (le_bytes n w) = n"
  by (simp add: le_bytes_def)

lemma nth_le_bytes [simp]: "i < n \<Longrightarrow> le_bytes n w ! i = ucast (drop_bit (8 * i) w)"
  by (simp add: le_bytes_def)

lemma bit_le_word:
  "bit (le_word bs :: 'a::len word) k \<longleftrightarrow>
     k < LENGTH('a) \<and> k div 8 < length bs \<and> bit (bs ! (k div 8)) (k mod 8)"
proof (induction bs arbitrary: k)
  case Nil
  then show ?case by simp
next
  case (Cons b bs)
  show ?case
  proof (cases "k < 8")
    case True
    then show ?thesis
      by (auto simp: bit_or_iff bit_push_bit_iff bit_ucast_iff)
  next
    case False
    then have "\<not> bit b k"
      by (metis bit_imp_le_length len_of_numeral_defs(2) len_bit0 len_num1 linorder_not_less
          mult_2 mult.right_neutral numeral_Bit0 one_add_one)
    moreover have "k div 8 = Suc ((k - 8) div 8)" and "(k - 8) mod 8 = k mod 8"
      using False by (simp_all add: le_div_geq le_mod_geq)
    ultimately show ?thesis
      using False Cons.IH [of "k - 8"]
      by (auto simp: bit_or_iff bit_push_bit_iff bit_ucast_iff dest: bit_imp_le_length)
  qed
qed

lemma le_word_le_bytes:
  "LENGTH('a) \<le> 8 * n \<Longrightarrow> le_word (le_bytes n (w :: 'a::len word)) = w"
  by (rule bit_word_eqI) (auto simp: bit_le_word bit_ucast_iff bit_drop_bit_eq)

lemma le_bytes_le_word:
  "8 * length bs \<le> LENGTH('a) \<Longrightarrow> le_bytes (length bs) (le_word bs :: 'a::len word) = bs"
  by (rule nth_equalityI)
     (auto intro!: bit_word_eqI simp: bit_le_word bit_ucast_iff bit_drop_bit_eq)

section \<open>Loads and stores\<close>

definition load_bytes :: "memory \<Rightarrow> u64 \<Rightarrow> nat \<Rightarrow> bytes" where
  "load_bytes m a n = map (\<lambda>i. m (a + of_nat i)) [0..<n]"

definition store_bytes :: "memory \<Rightarrow> u64 \<Rightarrow> bytes \<Rightarrow> memory" where
  "store_bytes m a bs = (\<lambda>x. if unat (x - a) < length bs then bs ! unat (x - a) else m x)"

definition load16 :: "memory \<Rightarrow> u64 \<Rightarrow> u16" where
  "load16 m a = le_word (load_bytes m a 2)"

definition load32 :: "memory \<Rightarrow> u64 \<Rightarrow> u32" where
  "load32 m a = le_word (load_bytes m a 4)"

definition load64 :: "memory \<Rightarrow> u64 \<Rightarrow> u64" where
  "load64 m a = le_word (load_bytes m a 8)"

definition store32 :: "memory \<Rightarrow> u64 \<Rightarrow> u32 \<Rightarrow> memory" where
  "store32 m a v = store_bytes m a (le_bytes 4 v)"

definition store64 :: "memory \<Rightarrow> u64 \<Rightarrow> u64 \<Rightarrow> memory" where
  "store64 m a v = store_bytes m a (le_bytes 8 v)"

lemma length_load_bytes [simp]: "length (load_bytes m a n) = n"
  by (simp add: load_bytes_def)

lemma load_bytes_0 [simp]: "load_bytes m a 0 = []"
  by (simp add: load_bytes_def)

lemma nth_load_bytes [simp]: "i < n \<Longrightarrow> load_bytes m a n ! i = m (a + of_nat i)"
  by (simp add: load_bytes_def)

lemma store_bytes_Nil [simp]: "store_bytes m a [] = m"
  by (simp add: store_bytes_def)

lemma store_bytes_at:
  "i < length bs \<Longrightarrow> length bs \<le> 2 ^ 64 \<Longrightarrow> store_bytes m a bs (a + of_nat i) = bs ! i"
  by (simp add: store_bytes_def unat_of_nat take_bit_nat_eq_self)

lemma store_bytes_outside: "\<not> unat (x - a) < length bs \<Longrightarrow> store_bytes m a bs x = m x"
  by (simp add: store_bytes_def)

lemma load_store_same:
  "length bs \<le> 2 ^ 64 \<Longrightarrow> load_bytes (store_bytes m a bs) a (length bs) = bs"
  by (rule nth_equalityI) (auto simp: store_bytes_at)

lemma load_store_disjoint:
  assumes "\<And>i. i < n \<Longrightarrow> \<not> unat (b + of_nat i - a) < length bs"
  shows "load_bytes (store_bytes m a bs) b n = load_bytes m b n"
  using assms by (auto intro!: nth_equalityI simp: store_bytes_outside)

lemma load_bytes_cong:
  assumes "\<And>i. i < n \<Longrightarrow> m (a + of_nat i) = m' (a + of_nat i)"
  shows "load_bytes m a n = load_bytes m' a n"
  using assms by (auto intro!: nth_equalityI)

lemma store_load_same:
  "n \<le> 2 ^ 64 \<Longrightarrow> store_bytes m a (load_bytes m a n) = m"
  by (rule ext) (auto simp: store_bytes_def)

lemma store_bytes_fun_upd:
  assumes "length bs < 2 ^ 64"
  shows "(store_bytes m a bs)(a + of_nat (length bs) := b) = store_bytes m a (bs @ [b])"
proof
  fix x
  show "((store_bytes m a bs)(a + of_nat (length bs) := b)) x = store_bytes m a (bs @ [b]) x"
  proof (cases "x = a + of_nat (length bs)")
    case True
    then show ?thesis
      using assms by (simp add: store_bytes_def unat_of_nat take_bit_nat_eq_self nth_append)
  next
    case False
    then have "unat (x - a) \<noteq> length bs"
      by (metis add.commute diff_add_cancel of_nat_unat ucast_id)
    with False show ?thesis
      by (auto simp: store_bytes_def nth_append)
  qed
qed

lemma load_bytes_Suc: "load_bytes m a (Suc n) = m a # load_bytes m (a + 1) n"
  by (rule nth_equalityI) (auto simp: nth_Cons add.assoc split: nat.split)

lemma load_bytes_snoc: "load_bytes m a (Suc n) = load_bytes m a n @ [m (a + of_nat n)]"
  by (simp add: load_bytes_def)

lemma load_bytes_take: "k \<le> n \<Longrightarrow> take k (load_bytes m a n) = load_bytes m a k"
  by (rule nth_equalityI) auto

lemma store_bytes_Cons:
  assumes "length bs < 2 ^ 64"
  shows "store_bytes (m(a := b)) (a + 1) bs = store_bytes m a (b # bs)"
proof
  fix x
  show "store_bytes (m(a := b)) (a + 1) bs x = store_bytes m a (b # bs) x"
  proof (cases "x = a")
    case True
    have "a - (a + 1) = - 1" by simp
    then have "unat (a - (a + 1)) = 2 ^ 64 - 1" by (simp only: unat_minus_one_max)
    with True assms show ?thesis by (simp add: store_bytes_def)
  next
    case False
    have "unat (x - (a + 1)) = unat (x - a) - 1"
      using unat_sub_1 [of "x - a"] False by (simp add: diff_diff_eq)
    moreover have "0 < unat (x - a)" using False by (simp add: unat_gt_0)
    ultimately show ?thesis
      using False by (auto simp: store_bytes_def nth_Cons split: nat.split)
  qed
qed

text \<open>Two ranges of a cyclic address space are apart when each starts beyond the other.\<close>

definition apart :: "u64 \<Rightarrow> nat \<Rightarrow> u64 \<Rightarrow> nat \<Rightarrow> bool" where
  "apart a n b k \<longleftrightarrow> n \<le> unat (b - a) \<and> k \<le> unat (a - b)"

lemma apart_sym: "apart a n b k \<longleftrightarrow> apart b k a n"
  by (auto simp: apart_def)

lemma unat_less_64: "unat (a :: u64) < 2 ^ 64"
  using unat_bound [of a] by simp

lemma unat_neq: "a \<noteq> b \<Longrightarrow> unat a \<noteq> unat b" for a b :: u64
  by (simp add: word_unat_eq_iff)

lemma unat_diff_sum: "a \<noteq> b \<Longrightarrow> unat (b - a) + unat (a - b) = 2 ^ 64" for a b :: u64
proof -
  assume "a \<noteq> b"
  then have "unat a \<noteq> unat b" by (rule unat_neq)
  moreover have "unat a < 2 ^ 64" "unat b < 2 ^ 64"
    by (rule unat_less_64)+
  ultimately show ?thesis by (auto simp: unat_sub_if')
qed

lemma apart_outside:
  assumes "apart a n b k" and "i < k"
  shows "\<not> unat (b + of_nat i - a) < n"
proof (cases "n = 0")
  case False
  with assms have ne: "a \<noteq> b" by (auto simp: apart_def)
  from assms have "n \<le> unat (b - a)" and "k \<le> unat (a - b)"
    by (auto simp: apart_def)
  with unat_diff_sum [OF ne] \<open>i < k\<close>
  have lt: "unat (b - a) + i < 2 ^ 64" by linarith
  have "b + of_nat i - a = (b - a) + of_nat i" by simp
  then have "unat (b + of_nat i - a) = unat (b - a) + i"
    using lt by (simp only: unat_word_ariths) (simp add: unat_of_nat take_bit_eq_mod mod_add_right_eq)
  with \<open>n \<le> unat (b - a)\<close> show ?thesis by simp
qed simp

lemma load_store_apart:
  "apart a (length bs) b n \<Longrightarrow> load_bytes (store_bytes m a bs) b n = load_bytes m b n"
  by (rule load_store_disjoint) (simp add: apart_outside)

lemma load64_store64_same [simp]: "load64 (store64 m a v) a = v"
  using load_store_same [of "le_bytes 8 v" m a]
  by (simp add: load64_def store64_def le_word_le_bytes)

lemma load64_store64_apart: "apart a 8 b 8 \<Longrightarrow> load64 (store64 m a v) b = load64 m b"
  by (simp add: load64_def store64_def load_store_apart)

lemma load32_store32_same [simp]: "load32 (store32 m a v) a = v"
  using load_store_same [of "le_bytes 4 v" m a]
  by (simp add: load32_def store32_def le_word_le_bytes)

lemma load64_store_apart:
  "apart a (length bs) b 8 \<Longrightarrow> load64 (store_bytes m a bs) b = load64 m b"
  by (simp add: load64_def load_store_apart)

lemma apart_shift: "apart a (Suc n) b (Suc k) \<Longrightarrow> apart (a + 1) n (b + 1) k"
  by (auto simp: apart_def)

lemma apart_neq: "apart a n b k \<Longrightarrow> i < k \<Longrightarrow> j < n \<Longrightarrow> n \<le> 2 ^ 64 \<Longrightarrow> b + of_nat i \<noteq> a + of_nat j"
  using apart_outside [of a n b k i] by (auto simp: unat_of_nat take_bit_nat_eq_self)

lemma load_fun_upd_apart:
  assumes "apart a (Suc n) b k"
  shows "load_bytes (m(a := v)) b k = load_bytes m b k"
proof (rule load_bytes_cong)
  fix i assume "i < k"
  then have "b + of_nat i \<noteq> a"
    using apart_outside [OF assms, of i] by auto
  then show "(m(a := v)) (b + of_nat i) = m (b + of_nat i)" by simp
qed

text \<open>Distinct multiples of a block size are a block apart.\<close>

lemma aligned_apart:
  fixes a b :: u64
  assumes "unat a mod k = 0" and "unat b mod k = 0" and "a \<noteq> b" and "2 ^ 64 mod k = 0"
  shows "apart a k b k"
proof -
  have ne: "unat a \<noteq> unat b" using assms(3) by (rule unat_neq)
  have d: "k dvd unat a" "k dvd unat b" "k dvd 2 ^ 64"
    using assms by (auto simp: dvd_eq_mod_eq_0)
  have gap: "k \<le> unat (y - x)" if "unat x \<noteq> unat y" "k dvd unat x" "k dvd unat y" for x y :: u64
  proof -
    have "k dvd unat (y - x)"
      using that d(3) by (auto simp: unat_sub_if' dvd_diff_nat intro!: dvd_diff_nat dvd_add)
    moreover have "unat (y - x) \<noteq> 0"
      using that(1) by (metis right_minus_eq unat_eq_0)
    ultimately show ?thesis by (simp add: dvd_imp_le)
  qed
  show ?thesis
    unfolding apart_def using gap [of a b] gap [of b a] ne d by auto
qed

end
