(* ===== verification/Cstring.thy ===== *)
theory Cstring
  imports Prelude
begin

text \<open>
  Memory and string routines: \<^verbatim>\<open>kernel/string.c\<close>, over a byte memory. A pointer is a 64-bit address; \<open>char\<close> is an unsigned
  byte, as on RISC-V. Loops are recursions that carry the loop's own variables.
\<close>

section \<open>Definitions: kernel/string.c\<close>

text \<open>\<open>memset\<close>: the \<open>int\<close> counter is compared with the \<open>uint\<close> bound as unsigned, and indexes
  the destination as a signed offset.\<close>

function memset_loop :: "memory \<Rightarrow> u64 \<Rightarrow> u8 \<Rightarrow> u32 \<Rightarrow> u32 \<Rightarrow> memory" where
  "memset_loop m cdst c i n =
     (if i < n then memset_loop (m(cdst + scast i := c)) cdst c (i + 1) n else m)"
  by pat_completeness auto
termination
  by (relation "measure (\<lambda>(m, cdst, c, i, n). unat n - unat i)")
     (auto simp: unat_add_1 word_less_nat_alt)

definition memset :: "memory \<Rightarrow> u64 \<Rightarrow> u32 \<Rightarrow> u32 \<Rightarrow> memory" where
  "memset m dst c n = memset_loop m dst (ucast c) 0 n"

primrec memcmp_loop :: "nat \<Rightarrow> memory \<Rightarrow> u64 \<Rightarrow> u64 \<Rightarrow> int" where
  "memcmp_loop 0 m s1 s2 = 0"
| "memcmp_loop (Suc n) m s1 s2 =
     (if m s1 \<noteq> m s2 then uint (m s1) - uint (m s2) else memcmp_loop n m (s1 + 1) (s2 + 1))"

definition memcmp :: "memory \<Rightarrow> u64 \<Rightarrow> u64 \<Rightarrow> u32 \<Rightarrow> int" where
  "memcmp m v1 v2 n = memcmp_loop (unat n) m v1 v2"

primrec memmove_back :: "nat \<Rightarrow> memory \<Rightarrow> u64 \<Rightarrow> u64 \<Rightarrow> memory" where
  "memmove_back 0 m d s = m"
| "memmove_back (Suc n) m d s = memmove_back n (m(d - 1 := m (s - 1))) (d - 1) (s - 1)"

primrec memmove_fwd :: "nat \<Rightarrow> memory \<Rightarrow> u64 \<Rightarrow> u64 \<Rightarrow> memory" where
  "memmove_fwd 0 m d s = m"
| "memmove_fwd (Suc n) m d s = memmove_fwd n (m(d := m s)) (d + 1) (s + 1)"

definition memmove :: "memory \<Rightarrow> u64 \<Rightarrow> u64 \<Rightarrow> u32 \<Rightarrow> memory" where
  "memmove m dst src n =
     (if n = 0 then m
      else if src < dst \<and> src + ucast n > dst
      then memmove_back (unat n) m (dst + ucast n) (src + ucast n)
      else memmove_fwd (unat n) m dst src)"

definition memcpy :: "memory \<Rightarrow> u64 \<Rightarrow> u64 \<Rightarrow> u32 \<Rightarrow> memory" where
  "memcpy m dst src n = memmove m dst src n"

primrec strncmp_loop :: "nat \<Rightarrow> memory \<Rightarrow> u64 \<Rightarrow> u64 \<Rightarrow> int" where
  "strncmp_loop 0 m p q = 0"
| "strncmp_loop (Suc n) m p q =
     (if m p \<noteq> 0 \<and> m p = m q then strncmp_loop n m (p + 1) (q + 1)
      else uint (m p) - uint (m q))"

definition strncmp :: "memory \<Rightarrow> u64 \<Rightarrow> u64 \<Rightarrow> u32 \<Rightarrow> int" where
  "strncmp m p q n = strncmp_loop (unat n) m p q"

function strncpy_pad :: "memory \<Rightarrow> u64 \<Rightarrow> int \<Rightarrow> memory" where
  "strncpy_pad m s n = (if n > 0 then strncpy_pad (m(s := 0)) (s + 1) (n - 1) else m)"
  by pat_completeness auto
termination
  by (relation "measure (\<lambda>(m, s, n). nat n)") auto

function strncpy :: "memory \<Rightarrow> u64 \<Rightarrow> u64 \<Rightarrow> int \<Rightarrow> memory" where
  "strncpy m s t n =
     (if n > 0
      then if m t \<noteq> 0 then strncpy (m(s := m t)) (s + 1) (t + 1) (n - 1)
           else strncpy_pad (m(s := m t)) (s + 1) (n - 1)
      else strncpy_pad m s (n - 1))"
  by pat_completeness auto
termination
  by (relation "measure (\<lambda>(m, s, t, n). nat n)") auto

function safestrcpy_loop :: "memory \<Rightarrow> u64 \<Rightarrow> u64 \<Rightarrow> int \<Rightarrow> memory" where
  "safestrcpy_loop m s t n =
     (if n - 1 > 0
      then if m t \<noteq> 0 then safestrcpy_loop (m(s := m t)) (s + 1) (t + 1) (n - 1)
           else (m(s := m t))(s + 1 := 0)
      else m(s := 0))"
  by pat_completeness auto
termination
  by (relation "measure (\<lambda>(m, s, t, n). nat n)") auto

definition safestrcpy :: "memory \<Rightarrow> u64 \<Rightarrow> u64 \<Rightarrow> int \<Rightarrow> memory" where
  "safestrcpy m s t n = (if n \<le> 0 then m else safestrcpy_loop m s t n)"

text \<open>\<open>strlen\<close> does not return on a memory without a NUL byte.\<close>

partial_function (option) strlen_loop :: "memory \<Rightarrow> u64 \<Rightarrow> nat \<Rightarrow> nat option" where
  "strlen_loop m s n = (if m (s + of_nat n) \<noteq> 0 then strlen_loop m s (Suc n) else Some n)"

definition strlen :: "memory \<Rightarrow> u64 \<Rightarrow> nat option" where
  "strlen m s = strlen_loop m s 0"

declare memset_loop.simps [simp del] strncpy_pad.simps [simp del] strncpy.simps [simp del]
  safestrcpy_loop.simps [simp del]

section \<open>Lemmas\<close>

text \<open>A NUL-terminated string in memory.\<close>

definition cstr :: "memory \<Rightarrow> u64 \<Rightarrow> bytes \<Rightarrow> bool" where
  "cstr m a bs \<longleftrightarrow> load_bytes m a (length bs) = bs \<and> m (a + of_nat (length bs)) = 0 \<and> 0 \<notin> set bs"

lemma memmove_fwd_eq:
  assumes "n \<le> 2 ^ 64" and "\<And>i j. i < n \<Longrightarrow> j < i \<Longrightarrow> s + of_nat i \<noteq> d + of_nat j"
  shows "memmove_fwd n m d s = store_bytes m d (load_bytes m s n)"
  using assms
proof (induction n arbitrary: m d s)
  case 0
  then show ?case by simp
next
  case (Suc n)
  let ?m = "m(d := m s)"
  have sep: "(s + 1) + of_nat i \<noteq> (d + 1) + of_nat j" if "i < n" "j < i" for i j
    using Suc.prems(2) [of "Suc i" "Suc j"] that by (simp add: algebra_simps)
  have far: "s + 1 + of_nat i \<noteq> d" if "i < n" for i
    using Suc.prems(2) [of "Suc i" 0] that by (simp add: algebra_simps)
  have IH: "memmove_fwd n ?m (d + 1) (s + 1) = store_bytes ?m (d + 1) (load_bytes ?m (s + 1) n)"
    by (rule Suc.IH) (use Suc.prems(1) sep in auto)
  moreover have "load_bytes ?m (s + 1) n = load_bytes m (s + 1) n"
    by (rule load_bytes_cong) (use far in auto)
  ultimately show ?case
    using Suc.prems(1) by (simp add: load_bytes_Suc store_bytes_Cons)
qed

lemma memmove_back_eq:
  assumes "n \<le> 2 ^ 64" and "\<And>i j. j < n \<Longrightarrow> i < j \<Longrightarrow> s + of_nat i \<noteq> d + of_nat j"
  shows "memmove_back n m (d + of_nat n) (s + of_nat n) = store_bytes m d (load_bytes m s n)"
  using assms
proof (induction n arbitrary: m)
  case 0
  then show ?case by simp
next
  case (Suc n)
  let ?m = "m(d + of_nat n := m (s + of_nat n))"
  have IH: "memmove_back n ?m (d + of_nat n) (s + of_nat n) = store_bytes ?m d (load_bytes ?m s n)"
    by (rule Suc.IH) (use Suc.prems in auto)
  have same: "load_bytes ?m s n = load_bytes m s n"
    by (rule load_bytes_cong) (use Suc.prems(2) in auto)
  have step: "memmove_back (Suc n) m (d + of_nat (Suc n)) (s + of_nat (Suc n)) =
      memmove_back n ?m (d + of_nat n) (s + of_nat n)"
    by (simp add: algebra_simps)
  have swap: "store_bytes ?m d (load_bytes m s n) =
      (store_bytes m d (load_bytes m s n))(d + of_nat n := m (s + of_nat n))"
    using Suc.prems(1)
    by (auto simp: store_bytes_def fun_eq_iff unat_of_nat take_bit_nat_eq_self)
  show ?case
    using store_bytes_fun_upd [of "load_bytes m s n" m d "m (s + of_nat n)"] Suc.prems(1)
    by (simp only: step IH same swap load_bytes_snoc) simp
qed

lemma unat_plus: "unat a + n < 2 ^ 64 \<Longrightarrow> unat (a + of_nat n) = unat a + n" for a :: u64
  by (simp add: unat_word_ariths unat_of_nat take_bit_nat_eq_self)

lemma ucast_unat: "(ucast (n :: u32) :: u64) = of_nat (unat n)"
  by simp

lemma unat_less_32: "unat (n :: u32) < 2 ^ 32"
  using unat_bound [of n] by simp

theorem memmove_copies:
  assumes "unat dst + unat n < 2 ^ 64" and "unat src + unat n < 2 ^ 64"
  shows "memmove m dst src n = store_bytes m dst (load_bytes m src (unat n))"
proof -
  let ?n = "unat n"
  have le: "?n \<le> 2 ^ 64" using unat_less_32 [of n] by simp
  have at: "unat (src + of_nat i) = unat src + i" "unat (dst + of_nat i) = unat dst + i"
    if "i \<le> ?n" for i
    using that assms by (auto intro!: unat_plus)
  show ?thesis
  proof (cases "src < dst \<and> src + ucast n > dst")
    case True
    then have lt: "unat src < unat dst" by (simp add: word_less_nat_alt)
    have "memmove_back ?n m (dst + of_nat ?n) (src + of_nat ?n) =
        store_bytes m dst (load_bytes m src ?n)"
    proof (rule memmove_back_eq [OF le])
      fix i j assume ij: "j < ?n" "i < j"
      have "unat src + i \<noteq> unat dst + j" using ij lt by linarith
      then have "unat (src + of_nat i) \<noteq> unat (dst + of_nat j)"
        using at(1) [of i] at(2) [of j] ij by simp
      then show "src + of_nat i \<noteq> dst + of_nat j" by metis
    qed
    with True show ?thesis by (auto simp: memmove_def)
  next
    case False
    have "memmove_fwd ?n m dst src = store_bytes m dst (load_bytes m src ?n)"
    proof (rule memmove_fwd_eq [OF le])
      fix i j assume ij: "i < ?n" "j < i"
      have "unat dst \<le> unat src \<or> unat src + ?n \<le> unat dst"
        using False at(1) [of ?n] by (simp add: word_less_nat_alt not_less)
      then have "unat src + i \<noteq> unat dst + j" using ij by linarith
      then have "unat (src + of_nat i) \<noteq> unat (dst + of_nat j)"
        using at(1) [of i] at(2) [of j] ij by simp
      then show "src + of_nat i \<noteq> dst + of_nat j" by metis
    qed
    with False show ?thesis by (auto simp: memmove_def)
  qed
qed

lemma scast_nonneg: "unat i < 2 ^ 31 \<Longrightarrow> (scast (i :: u32) :: u64) = of_nat (unat i)"
proof -
  assume a: "unat i < 2 ^ 31"
  have u: "uint i = int (unat i)" by simp
  have "int (unat i) < int (2 ^ 31)" using a by (simp only: of_nat_less_iff)
  then have "uint i < 2 ^ 31" by simp
  then have "signed_take_bit 31 (uint i) = uint i"
    by (intro signed_take_bit_int_eq_self) (auto intro: order.trans [of _ 0])
  then have "sint i = uint i" by (simp only: sint_uint) simp
  then have "(scast i :: u64) = word_of_int (uint i)" by (metis of_int_sint)
  then show ?thesis unfolding u by simp
qed

lemma memset_loop_eq:
  assumes "unat n \<le> 2 ^ 31" and "i \<le> n"
  shows "memset_loop (store_bytes m dst (replicate (unat i) c)) dst c i n =
    store_bytes m dst (replicate (unat n) c)"
  using assms
proof (induction "unat n - unat i" arbitrary: i)
  case 0
  then have "i = n" by (simp add: word_le_nat_alt word_unat_eq_iff)
  then show ?case by (simp add: memset_loop.simps)
next
  case (Suc k)
  then have lt: "i < n" by (simp add: word_less_nat_alt)
  have i31: "unat i < 2 ^ 31" using lt Suc.prems(1) by (simp add: word_less_nat_alt)
  have "(store_bytes m dst (replicate (unat i) c))(dst + scast i := c) =
      store_bytes m dst (replicate (unat (i + 1)) c)"
    using store_bytes_fun_upd [of "replicate (unat i) c" m dst c] i31
    by (simp add: scast_nonneg [OF i31] unat_add_1 [OF lt] replicate_append_same)
  moreover have "memset_loop (store_bytes m dst (replicate (unat (i + 1)) c)) dst c (i + 1) n =
      store_bytes m dst (replicate (unat n) c)"
    by (rule Suc.hyps(1)) (use Suc lt in \<open>auto simp: unat_add_1 [OF lt] word_less_nat_alt word_le_nat_alt\<close>)
  ultimately show ?case
    using lt by (subst memset_loop.simps) simp
qed

lemma memset_eq:
  "unat n \<le> 2 ^ 31 \<Longrightarrow> memset m dst c n = store_bytes m dst (replicate (unat n) (ucast c))"
  using memset_loop_eq [of n 0 m dst "ucast c"] by (simp add: memset_def)

lemma memcmp_loop_0: "memcmp_loop n m s1 s2 = 0 \<longleftrightarrow> load_bytes m s1 n = load_bytes m s2 n"
  by (induction n arbitrary: s1 s2) (auto simp: load_bytes_Suc word_uint_eq_iff)

lemma memcmp_zero_iff:
  "memcmp m v1 v2 n = 0 \<longleftrightarrow> load_bytes m v1 (unat n) = load_bytes m v2 (unat n)"
  by (simp add: memcmp_def memcmp_loop_0)

text \<open>The bytes of a field up to its first NUL, the way directory names are compared.\<close>

definition upto_nul :: "bytes \<Rightarrow> bytes" where
  "upto_nul bs = takeWhile (\<lambda>b. b \<noteq> 0) bs"

lemma upto_nul_simps [simp]:
  "upto_nul [] = []" "upto_nul (b # bs) = (if b = 0 then [] else b # upto_nul bs)"
  by (simp_all add: upto_nul_def)

lemma length_upto_nul: "length (upto_nul bs) \<le> length bs"
  by (simp add: upto_nul_def length_takeWhile_le)

lemma upto_nul_nonzero: "0 \<notin> set (upto_nul bs)"
  by (auto simp: upto_nul_def dest: set_takeWhileD)

lemma strncmp_loop_0:
  "strncmp_loop n m p q = 0 \<longleftrightarrow> upto_nul (load_bytes m p n) = upto_nul (load_bytes m q n)"
  by (induction n arbitrary: p q) (auto simp: load_bytes_Suc word_uint_eq_iff)

theorem strncmp_zero_iff:
  "strncmp m p q n = 0 \<longleftrightarrow>
     upto_nul (load_bytes m p (unat n)) = upto_nul (load_bytes m q (unat n))"
  by (simp add: strncmp_def strncmp_loop_0)

lemma strncpy_pad_eq:
  "n < 2 ^ 63 \<Longrightarrow> strncpy_pad m s (int n) = store_bytes m s (replicate n 0)"
proof (induction n arbitrary: m s)
  case 0
  then show ?case by (simp add: strncpy_pad.simps)
next
  case (Suc n)
  then show ?case
    by (subst strncpy_pad.simps) (simp add: store_bytes_Cons)
qed

text \<open>The fixed-size field that \<open>strncpy\<close> leaves: the string, cut at the field's size, padded
  with NUL bytes.\<close>

definition padded :: "nat \<Rightarrow> bytes \<Rightarrow> bytes" where
  "padded n bs = upto_nul bs @ replicate (n - length (upto_nul bs)) 0"

lemma length_padded: "length bs \<le> n \<Longrightarrow> length (padded n bs) = n"
  using length_upto_nul [of bs] by (simp add: padded_def)

lemma strncpy_fills:
  assumes "n < 2 ^ 63" and "apart s n t n"
  shows "strncpy m s t (int n) = store_bytes m s (padded n (load_bytes m t n))"
  using assms
proof (induction n arbitrary: m s t)
  case 0
  then show ?case by (simp add: strncpy.simps strncpy_pad.simps padded_def)
next
  case (Suc n)
  let ?m = "m(s := m t)"
  have keep: "load_bytes ?m (t + 1) n = load_bytes m (t + 1) n"
    using load_fun_upd_apart [OF Suc.prems(2), of m "m t"] by (simp add: load_bytes_Suc)
  have IH: "strncpy ?m (s + 1) (t + 1) (int n) =
      store_bytes ?m (s + 1) (padded n (load_bytes ?m (t + 1) n))"
    by (rule Suc.IH) (use Suc.prems apart_shift in auto)
  have len: "length (padded n (load_bytes m (t + 1) n)) = n"
    by (rule length_padded) simp
  show ?case
  proof (cases "m t = 0")
    case True
    have "strncpy_pad ?m (s + 1) (int n) = store_bytes ?m (s + 1) (replicate n 0)"
      by (rule strncpy_pad_eq) (use Suc.prems in simp)
    with True Suc.prems show ?thesis
      by (subst strncpy.simps) (simp add: load_bytes_Suc padded_def store_bytes_Cons)
  next
    case False
    with IH keep len Suc.prems show ?thesis
      by (subst strncpy.simps) (simp add: load_bytes_Suc padded_def store_bytes_Cons)
  qed
qed

lemma safestrcpy_loop_eq:
  assumes "n < 2 ^ 63" and "apart s (Suc n) t (Suc n)"
  shows "\<exists>rest. safestrcpy_loop m s t (int (Suc n)) = store_bytes m s (upto_nul (load_bytes m t n) @ 0 # rest)
           \<and> length (upto_nul (load_bytes m t n) @ 0 # rest) \<le> Suc n"
  using assms
proof (induction n arbitrary: m s t)
  case 0
  then show ?case
    using store_bytes_Cons [of "[]" m s 0] by (auto simp: safestrcpy_loop.simps)
next
  case (Suc n)
  let ?m = "m(s := m t)"
  have keep: "load_bytes ?m (t + 1) n = load_bytes m (t + 1) n"
    using load_fun_upd_apart [of s "Suc n" t "Suc n" m "m t"] Suc.prems(2)
    by (auto simp: load_bytes_Suc apart_def)
  show ?case
  proof (cases "m t = 0")
    case True
    have "(?m)(s + 1 := 0) = store_bytes m s [0, 0]"
      using store_bytes_Cons [of "[]" ?m "s + 1" 0] store_bytes_Cons [of "[0]" m s "m t"] True
      by simp
    with True show ?thesis
      by (subst safestrcpy_loop.simps) (auto simp: load_bytes_Suc intro!: exI [of _ "[0]"])
  next
    case False
    have "\<exists>rest. safestrcpy_loop ?m (s + 1) (t + 1) (int (Suc n)) =
        store_bytes ?m (s + 1) (upto_nul (load_bytes ?m (t + 1) n) @ 0 # rest)
        \<and> length (upto_nul (load_bytes ?m (t + 1) n) @ 0 # rest) \<le> Suc n"
      by (rule Suc.IH) (use Suc.prems apart_shift in auto)
    then obtain rest where r: "safestrcpy_loop ?m (s + 1) (t + 1) (int (Suc n)) =
        store_bytes ?m (s + 1) (upto_nul (load_bytes m (t + 1) n) @ 0 # rest)"
      and l: "length (upto_nul (load_bytes m (t + 1) n) @ 0 # rest) \<le> Suc n"
      unfolding keep by blast
    have "store_bytes ?m (s + 1) (upto_nul (load_bytes m (t + 1) n) @ 0 # rest) =
        store_bytes m s (m t # upto_nul (load_bytes m (t + 1) n) @ 0 # rest)"
      by (rule store_bytes_Cons) (use l Suc.prems(1) in simp)
    with r l False show ?thesis
      by (subst safestrcpy_loop.simps) (auto simp: load_bytes_Suc intro!: exI [of _ rest])
  qed
qed

lemma store_prefix:
  "bs \<noteq> [] \<Longrightarrow> length bs \<le> 2 ^ 64 \<Longrightarrow> k \<le> length bs \<Longrightarrow>
     load_bytes (store_bytes m s bs) s k = take k bs"
  using load_store_same [of bs m s] load_bytes_take [of k "length bs" "store_bytes m s bs" s]
  by simp

lemma safestrcpy_terminated:
  assumes "0 < n" and "n < 2 ^ 63" and "apart s n t n"
  shows "cstr (safestrcpy m s t (int n)) s (upto_nul (load_bytes m t (n - 1)))"
    and "\<And>x. n \<le> unat (x - s) \<Longrightarrow> safestrcpy m s t (int n) x = m x"
proof -
  let ?w = "upto_nul (load_bytes m t (n - 1))"
  have n: "n = Suc (n - 1)" using assms(1) by simp
  obtain rest where eq: "safestrcpy_loop m s t (int n) = store_bytes m s (?w @ 0 # rest)"
    and len: "length (?w @ 0 # rest) \<le> n"
    using safestrcpy_loop_eq [of "n - 1" s t m] assms n by auto
  have small: "length (?w @ 0 # rest) \<le> 2 ^ 64" using len assms(2) by simp
  have at0: "store_bytes m s (?w @ 0 # rest) (s + of_nat (length ?w)) = 0"
    using store_bytes_at [of "length ?w" "?w @ 0 # rest" m s] small by (simp add: nth_append)
  have "load_bytes (store_bytes m s (?w @ 0 # rest)) s (length ?w) = ?w"
    using store_prefix [of "?w @ 0 # rest" "length ?w" m s] small by simp
  with at0 assms(1) show "cstr (safestrcpy m s t (int n)) s ?w"
    by (simp add: cstr_def safestrcpy_def eq upto_nul_nonzero)
  show "safestrcpy m s t (int n) x = m x" if "n \<le> unat (x - s)" for x
    using that len assms(1) by (simp add: safestrcpy_def eq store_bytes_def)
qed

lemma strlen_loop_cstr:
  "cstr m a bs \<Longrightarrow> k \<le> length bs \<Longrightarrow> strlen_loop m a k = Some (length bs)"
proof (induction "length bs - k" arbitrary: k)
  case 0
  then have "k = length bs" by simp
  with 0 show ?case by (subst strlen_loop.simps) (simp add: cstr_def)
next
  case (Suc j)
  then have lt: "k < length bs" by simp
  have "bs ! k = m (a + of_nat k)"
    using lt Suc.prems(1) by (metis cstr_def nth_load_bytes)
  then have "m (a + of_nat k) \<noteq> 0"
    using lt Suc.prems(1) by (metis cstr_def nth_mem)
  moreover have "strlen_loop m a (Suc k) = Some (length bs)"
    by (rule Suc.hyps(1)) (use Suc lt in auto)
  ultimately show ?case by (subst strlen_loop.simps) simp
qed

lemma strlen_cstr: "cstr m a bs \<Longrightarrow> strlen m a = Some (length bs)"
  by (simp add: strlen_def strlen_loop_cstr)

end
