(* ===== verification/Spinlock.thy ===== *)
theory Spinlock
  imports Prelude
begin

text \<open>
  Harts, interrupts and spin locks: \<^verbatim>\<open>kernel/spinlock.c\<close>, the per-CPU state of
  \<^verbatim>\<open>kernel/proc.h\<close> and \<open>cpuid\<close>, \<open>mycpu\<close>, \<open>myproc\<close> of \<^verbatim>\<open>kernel/proc.c\<close>.

  The first part models the functions as one hart executes them; \<open>acquire\<close> of a lock that is
  taken by another hart spins, which is \<open>None\<close> here. The second part models the same code
  at the granularity of single memory accesses, with any number of harts interleaved, and
  proves mutual exclusion.
\<close>

section \<open>Definitions\<close>

text \<open>Which lock: the address of a \<open>struct spinlock\<close> is the name of the object that holds it.
  A sleep lock is a buffer's or an inode's.\<close>

datatype sleeplock_id = BufLock nat | InodeLock nat

datatype lockid = PidLock | WaitLock | ProcLock nat | TicksLock | KmemLock | BcacheLock
  | LogLock | ItableLock | FtableLock | PipeLock u64 | ConsLock | PrLock | TxLock | VdiskLock
  | SleepLk sleeplock_id

record spinlock =
  locked :: bool
  lname :: string
  lcpu :: "nat option"

text \<open>\<open>struct cpu\<close>, with the hart's \<open>sstatus.SIE\<close> bit beside it. A process is its index in
  the process table.\<close>

record cpu =
  cproc :: "nat option"
  noff :: int
  intena :: bool
  sie :: bool

record machine =
  hart :: nat
  cpus :: "nat \<Rightarrow> cpu"
  locks :: "lockid \<Rightarrow> spinlock"
  mem :: memory

definition cpuid :: "'a machine_scheme \<Rightarrow> nat" where
  "cpuid s = hart s"

definition mycpu :: "'a machine_scheme \<Rightarrow> cpu" where
  "mycpu s = cpus s (cpuid s)"

definition upd_mycpu :: "(cpu \<Rightarrow> cpu) \<Rightarrow> 'a machine_scheme \<Rightarrow> 'a machine_scheme" where
  "upd_mycpu f s = s\<lparr>cpus := (cpus s)(cpuid s := f (mycpu s))\<rparr>"

definition intr_get :: "'a machine_scheme \<Rightarrow> bool" where
  "intr_get s = sie (mycpu s)"

definition intr_off :: "'a machine_scheme \<Rightarrow> 'a machine_scheme" where
  "intr_off s = upd_mycpu (\<lambda>c. c\<lparr>sie := False\<rparr>) s"

definition intr_on :: "'a machine_scheme \<Rightarrow> 'a machine_scheme" where
  "intr_on s = upd_mycpu (\<lambda>c. c\<lparr>sie := True\<rparr>) s"

definition push_off :: "'a machine_scheme \<Rightarrow> 'a machine_scheme" where
  "push_off s =
     (let old = intr_get s;
          s = intr_off s;
          s = (if noff (mycpu s) = 0 then upd_mycpu (\<lambda>c. c\<lparr>intena := old\<rparr>) s else s)
      in upd_mycpu (\<lambda>c. c\<lparr>noff := noff c + 1\<rparr>) s)"

definition pop_off :: "'a machine_scheme \<Rightarrow> 'a machine_scheme option" where
  "pop_off s =
     (if intr_get s then None
      else if noff (mycpu s) < 1 then None
      else let s = upd_mycpu (\<lambda>c. c\<lparr>noff := noff c - 1\<rparr>) s
           in Some (if noff (mycpu s) = 0 \<and> intena (mycpu s) then intr_on s else s))"

definition initlock :: "lockid \<Rightarrow> string \<Rightarrow> 'a machine_scheme \<Rightarrow> 'a machine_scheme" where
  "initlock lk name s = s\<lparr>locks := (locks s)(lk := \<lparr>locked = False, lname = name, lcpu = None\<rparr>)\<rparr>"

definition holding :: "lockid \<Rightarrow> 'a machine_scheme \<Rightarrow> bool" where
  "holding lk s \<longleftrightarrow> locked (locks s lk) \<and> lcpu (locks s lk) = Some (cpuid s)"

definition acquire :: "lockid \<Rightarrow> 'a machine_scheme \<Rightarrow> 'a machine_scheme option" where
  "acquire lk s =
     (let s = push_off s
      in if holding lk s then None
         else if locked (locks s lk) then None
         else let s = s\<lparr>locks := (locks s)(lk := (locks s lk)\<lparr>locked := True\<rparr>)\<rparr>
              in Some (s\<lparr>locks := (locks s)(lk := (locks s lk)\<lparr>lcpu := Some (cpuid s)\<rparr>)\<rparr>))"

definition release :: "lockid \<Rightarrow> 'a machine_scheme \<Rightarrow> 'a machine_scheme option" where
  "release lk s =
     (if \<not> holding lk s then None
      else let s = s\<lparr>locks := (locks s)(lk := (locks s lk)\<lparr>lcpu := None\<rparr>)\<rparr>;
               s = s\<lparr>locks := (locks s)(lk := (locks s lk)\<lparr>locked := False\<rparr>)\<rparr>
           in pop_off s)"

definition myproc :: "'a machine_scheme \<Rightarrow> (nat option \<times> 'a machine_scheme) option" where
  "myproc s =
     (let s = push_off s; p = cproc (mycpu s)
      in do { s \<leftarrow> pop_off s; Some (p, s) })"

section \<open>One hart\<close>

lemma upd_order_machine [simp]:
  fixes s :: "'a machine_scheme"
  shows "s\<lparr>locks := l, cpus := c\<rparr> = s\<lparr>cpus := c, locks := l\<rparr>"
    and "s\<lparr>mem := m, cpus := c\<rparr> = s\<lparr>cpus := c, mem := m\<rparr>"
    and "s\<lparr>mem := m, locks := l\<rparr> = s\<lparr>locks := l, mem := m\<rparr>"
  by (cases s, simp)+

lemmas cpu_defs = cpuid_def mycpu_def upd_mycpu_def intr_get_def intr_off_def intr_on_def

text \<open>Interrupts are off while a lock is held; the nesting depth is never negative.\<close>

definition cpu_ok :: "cpu \<Rightarrow> bool" where
  "cpu_ok c \<longleftrightarrow> 0 \<le> noff c \<and> (0 < noff c \<longrightarrow> \<not> sie c)"

abbreviation intr_ok :: "'a machine_scheme \<Rightarrow> bool" where
  "intr_ok s \<equiv> cpu_ok (cpus s (hart s))"

definition free_lock :: "spinlock \<Rightarrow> bool" where
  "free_lock l \<longleftrightarrow> \<not> locked l \<and> lcpu l = None"

text \<open>What a matched pair of \<open>push_off\<close> and \<open>pop_off\<close> leaves behind: at depth 0 the hart's
  \<open>intena\<close> records the interrupt flag, and nothing else changes.\<close>

definition settle :: "nat \<Rightarrow> (nat \<Rightarrow> cpu) \<Rightarrow> nat \<Rightarrow> cpu" where
  "settle h cs = (if noff (cs h) = 0 then cs(h := (cs h)\<lparr>intena := sie (cs h)\<rparr>) else cs)"

text \<open>The CPUs after \<open>push_off\<close>, and the lock table after \<open>acquire\<close>.\<close>

definition pushed :: "nat \<Rightarrow> (nat \<Rightarrow> cpu) \<Rightarrow> nat \<Rightarrow> cpu" where
  "pushed h cs = cs(h := (cs h)\<lparr>noff := noff (cs h) + 1,
     intena := (if noff (cs h) = 0 then sie (cs h) else intena (cs h)), sie := False\<rparr>)"

definition taken :: "nat \<Rightarrow> lockid \<Rightarrow> (lockid \<Rightarrow> spinlock) \<Rightarrow> lockid \<Rightarrow> spinlock" where
  "taken h lk ls = ls(lk := (ls lk)\<lparr>locked := True, lcpu := Some h\<rparr>)"

abbreviation settled :: "'a machine_scheme \<Rightarrow> nat \<Rightarrow> cpu" where
  "settled s \<equiv> settle (hart s) (cpus s)"

lemma push_off_eq: "push_off s = s\<lparr>cpus := pushed (hart s) (cpus s)\<rparr>"
  by (cases s) (auto simp: push_off_def pushed_def cpu_defs Let_def intro!: ext split: if_splits)

lemma push_pop: "intr_ok s \<Longrightarrow> pop_off (push_off s) = Some (s\<lparr>cpus := settled s\<rparr>)"
  by (cases s) (auto simp: push_off_def pop_off_def cpu_ok_def settle_def cpu_defs Let_def
      intro!: ext split: if_splits)

lemma pushed_fields [simp]:
  "noff (pushed h cs h) = noff (cs h) + 1"
  "sie (pushed h cs h) = False"
  "cproc (pushed h cs i) = cproc (cs i)"
  by (simp_all add: pushed_def)

lemma pushed_other [simp]: "i \<noteq> h \<Longrightarrow> pushed h cs i = cs i"
  by (simp add: pushed_def)

lemma settle_other [simp]: "i \<noteq> h \<Longrightarrow> settle h cs i = cs i"
  by (simp add: settle_def)

lemma pushed_settle [simp]: "pushed h (settle h cs) = pushed h cs"
  by (simp add: pushed_def settle_def)

lemma settle_fields [simp]:
  "cproc (settle h cs i) = cproc (cs i)"
  "noff (settle h cs i) = noff (cs i)"
  "sie (settle h cs i) = sie (cs i)"
  by (simp_all add: settle_def)

lemma settle_settle [simp]: "settle h (settle h cs) = settle h cs"
  by (simp add: settle_def)

lemma cpu_ok_settle [simp]: "cpu_ok (settle h cs i) = cpu_ok (cs i)"
  by (simp add: cpu_ok_def)

lemma cpu_ok_pushed [simp]: "cpu_ok (cs h) \<Longrightarrow> cpu_ok (pushed h cs h)"
  by (simp add: cpu_ok_def)

lemma settle_deep [simp]: "noff (cs h) \<noteq> 0 \<Longrightarrow> settle h cs = cs"
  by (simp add: settle_def)

lemma settle_pushed [simp]: "cpu_ok (cs h) \<Longrightarrow> settle h (pushed h cs) = pushed h cs"
  by (rule settle_deep) (simp add: cpu_ok_def)

lemma taken_other [simp]: "l \<noteq> lk \<Longrightarrow> taken h lk ls l = ls l"
  by (simp add: taken_def)

lemma taken_self [simp]:
  "locked (taken h lk ls lk) = True" "lcpu (taken h lk ls lk) = Some h"
  by (simp_all add: taken_def)

lemma acquire_free:
  "\<not> locked (locks s lk) \<Longrightarrow>
     acquire lk s = Some (s\<lparr>cpus := pushed (hart s) (cpus s), locks := taken (hart s) lk (locks s)\<rparr>)"
  by (cases s) (simp add: acquire_def push_off_eq holding_def taken_def cpuid_def Let_def)

lemma acquire_held: "holding lk s \<Longrightarrow> acquire lk s = None"
  by (simp add: acquire_def push_off_eq holding_def cpuid_def Let_def)

lemma acquire_None_iff: "acquire lk s = None \<longleftrightarrow> locked (locks s lk)"
  by (auto simp: acquire_def push_off_eq holding_def cpuid_def Let_def)

text \<open>A critical section that keeps the CPUs and the locks restores both.\<close>

lemma release_acquired:
  assumes "cpus t = pushed (hart t) cs" and "locks t = taken (hart t) lk ls"
    and "cpu_ok (cs (hart t))" and "free_lock (ls lk)"
  shows "release lk t = Some (t\<lparr>cpus := settle (hart t) cs, locks := ls\<rparr>)"
proof -
  have held: "holding lk t"
    using assms by (simp add: holding_def taken_def cpuid_def)
  have locks: "(locks t)(lk := (locks t lk)\<lparr>lcpu := None, locked := False\<rparr>) = ls"
    using assms(2,4) by (auto simp: taken_def free_lock_def fun_eq_iff)
  have "pop_off (t\<lparr>locks := ls\<rparr>) = Some (t\<lparr>cpus := settle (hart t) cs, locks := ls\<rparr>)"
    using assms(1,3)
    by (cases t) (auto simp: pop_off_def cpu_ok_def settle_def pushed_def cpu_defs Let_def
        intro!: ext split: if_splits)
  with held locks show ?thesis
    by (simp add: release_def Let_def)
qed

text \<open>\<open>release\<close> of a lock held at depth 1 or more.\<close>

definition popped :: "cpu \<Rightarrow> cpu" where
  "popped c = c\<lparr>noff := noff c - 1, sie := (noff c = 1 \<and> intena c)\<rparr>"

definition dropped :: "lockid \<Rightarrow> (lockid \<Rightarrow> spinlock) \<Rightarrow> lockid \<Rightarrow> spinlock" where
  "dropped lk ls = ls(lk := (ls lk)\<lparr>lcpu := None, locked := False\<rparr>)"

lemma release_held:
  assumes "locked (locks s lk)" and "lcpu (locks s lk) = Some (hart s)"
    and "1 \<le> noff (cpus s (hart s))" and "\<not> sie (cpus s (hart s))"
  shows "release lk s = Some (s\<lparr>cpus := (cpus s)(hart s := popped (cpus s (hart s))), locks := dropped lk (locks s)\<rparr>)"
  using assms
  by (cases s) (auto simp: release_def holding_def pop_off_def popped_def dropped_def cpu_defs Let_def
      intro!: ext split: if_splits)

lemma taken_commute: "l \<noteq> l' \<Longrightarrow> taken h l (taken h l' ls) = taken h l' (taken h l ls)"
  by (simp add: taken_def fun_upd_twist)

lemma release_not_held: "\<not> holding lk s \<Longrightarrow> release lk s = None"
  by (simp add: release_def)

lemma myproc_eq: "intr_ok s \<Longrightarrow> myproc s = Some (cproc (cpus s (hart s)), s\<lparr>cpus := settled s\<rparr>)"
  using push_pop [of s] by (simp add: myproc_def push_off_eq mycpu_def cpuid_def)

section \<open>Lock discipline\<close>

text \<open>A lock that is not taken has no owner: \<open>release\<close> clears the owner first.\<close>

definition lock_wf :: "'a machine_scheme \<Rightarrow> bool" where
  "lock_wf s \<longleftrightarrow> (\<forall>l. \<not> locked (locks s l) \<longrightarrow> lcpu (locks s l) = None)"

definition takes :: "nat \<Rightarrow> lockid set \<Rightarrow> (lockid \<Rightarrow> spinlock) \<Rightarrow> lockid \<Rightarrow> spinlock" where
  "takes h A ls = (\<lambda>l. if l \<in> A then (ls l)\<lparr>locked := True, lcpu := Some h\<rparr> else ls l)"

text \<open>\<open>bal s0 A s\<close>: since state \<open>s0\<close> this hart has taken exactly the locks \<open>A\<close>, each of them free
  in \<open>s0\<close>, and its nesting depth has grown by their number. With \<open>A\<close> empty, the locks are those
  of \<open>s0\<close> again.\<close>

definition bal :: "'a machine_scheme \<Rightarrow> lockid set \<Rightarrow> 'a machine_scheme \<Rightarrow> bool" where
  "bal s0 A s \<longleftrightarrow> lock_wf s0 \<and> intr_ok s0 \<and> hart s = hart s0 \<and> finite A \<and>
     (\<forall>l\<in>A. free_lock (locks s0 l)) \<and> locks s = takes (hart s0) A (locks s0) \<and>
     (if A = {} then cpus s = cpus s0 \<or> cpus s = settled s0
      else cpus s = (pushed (hart s0) ^^ card A) (cpus s0))"

lemma bal_start: "lock_wf s \<Longrightarrow> intr_ok s \<Longrightarrow> bal s {} s"
  by (simp add: bal_def takes_def)

lemma cpu_ok_pushes: "cpu_ok (cs h) \<Longrightarrow> cpu_ok ((pushed h ^^ n) cs h)"
  by (induction n) auto

lemma pushes_settle: "n \<noteq> 0 \<Longrightarrow> (pushed h ^^ n) (settle h cs) = (pushed h ^^ n) cs"
  by (cases n) (simp_all add: funpow_Suc_right del: funpow.simps(2))

lemma noff_pushes [simp]: "noff ((pushed h ^^ n) cs h) = noff (cs h) + int n"
  by (induction n) auto

lemma cproc_pushes [simp]: "cproc ((pushed h ^^ n) cs i) = cproc (cs i)"
  by (induction n) auto

lemma pushes_other [simp]: "i \<noteq> h \<Longrightarrow> (pushed h ^^ n) cs i = cs i"
  by (induction n) auto

lemma bal_intr_ok: "bal s0 A s \<Longrightarrow> intr_ok s"
  by (auto simp: bal_def cpu_ok_pushes split: if_splits)

lemma bal_pushed: "bal s0 A s \<Longrightarrow> pushed (hart s0) (cpus s) = (pushed (hart s0) ^^ Suc (card A)) (cpus s0)"
  by (auto simp: bal_def split: if_splits)

lemma bal_cproc: "bal s0 A s \<Longrightarrow> cproc (cpus s i) = cproc (cpus s0 i)"
  by (auto simp: bal_def split: if_splits)

lemma bal_cpu_other: "bal s0 A s \<Longrightarrow> i \<noteq> hart s0 \<Longrightarrow> cpus s i = cpus s0 i"
  by (auto simp: bal_def split: if_splits)

lemma bal_settled: "bal s0 A s \<Longrightarrow> bal s0 A (s\<lparr>cpus := settled s\<rparr>)"
proof -
  assume b: "bal s0 A s"
  have "settle (hart s0) ((pushed (hart s0) ^^ card A) (cpus s0)) = (pushed (hart s0) ^^ card A) (cpus s0)"
    if "A \<noteq> {}"
  proof (rule settle_deep)
    have "card A \<noteq> 0" using that b by (simp add: bal_def)
    moreover have "0 \<le> noff (cpus s0 (hart s0))" using b by (simp add: bal_def cpu_ok_def)
    ultimately show "noff ((pushed (hart s0) ^^ card A) (cpus s0) (hart s0)) \<noteq> 0" by simp
  qed
  with b show ?thesis by (auto simp: bal_def split: if_splits)
qed

lemma bal_acquire:
  assumes "bal s0 A s"
  shows "post (acquire l s) (\<lambda>t. bal s0 (insert l A) t \<and> l \<notin> A \<and> (\<exists>c l'. t = s\<lparr>cpus := c, locks := l'\<rparr>))"
proof (cases "locked (locks s l)")
  case True
  then show ?thesis using acquire_None_iff [of l s] by (simp add: post_def)
next
  case False
  then have l: "l \<notin> A" and nl: "\<not> locked (locks s0 l)"
    using assms by (auto simp: bal_def takes_def split: if_splits)
  then have f: "free_lock (locks s0 l)"
    using assms by (simp add: bal_def lock_wf_def free_lock_def)
  have "acquire l s = Some (s\<lparr>cpus := pushed (hart s) (cpus s), locks := taken (hart s) l (locks s)\<rparr>)"
    using acquire_free [OF False] .
  moreover have "taken (hart s) l (locks s) = takes (hart s0) (insert l A) (locks s0)"
    using assms l by (auto simp: bal_def takes_def taken_def)
  moreover have "pushed (hart s) (cpus s) = (pushed (hart s0) ^^ card (insert l A)) (cpus s0)"
    using bal_pushed [OF assms] assms l by (simp add: bal_def)
  ultimately show ?thesis
    using assms f l by (auto simp: post_def bal_def)
qed

lemma bal_release:
  assumes "bal s0 A s" and "l \<in> A"
  shows "post (release l s) (\<lambda>t. bal s0 (A - {l}) t \<and> (\<exists>c l'. t = s\<lparr>cpus := c, locks := l'\<rparr>))"
proof -
  let ?cs = "(pushed (hart s0) ^^ (card A - 1)) (cpus s0)" and ?ls = "takes (hart s0) (A - {l}) (locks s0)"
  have fin: "finite A" and h: "hart s = hart s0" and ok0: "intr_ok s0"
    using assms(1) by (simp_all add: bal_def)
  have c: "card A = Suc (card A - 1)" "card (A - {l}) = card A - 1"
    using card_Suc_Diff1 [OF fin assms(2)] by simp_all
  have "release l s = Some (s\<lparr>cpus := settle (hart s) ?cs, locks := ?ls\<rparr>)"
  proof (rule release_acquired)
    have "A \<noteq> {}" using assms(2) by auto
    then have "cpus s = (pushed (hart s0) ^^ card A) (cpus s0)" using assms(1) by (simp add: bal_def)
    also have "\<dots> = pushed (hart s0) ?cs" by (subst c(1)) simp
    finally show "cpus s = pushed (hart s) ?cs" using h by simp
    show "locks s = taken (hart s) l ?ls"
      using assms h by (auto simp: bal_def takes_def taken_def)
    show "cpu_ok (?cs (hart s))" using h ok0 by (simp add: cpu_ok_pushes)
    show "free_lock (?ls l)" using assms by (simp add: bal_def takes_def)
  qed
  moreover have "bal s0 (A - {l}) (s\<lparr>cpus := ?cs, locks := ?ls\<rparr>)"
  proof (cases "A - {l} = {}")
    case True
    then have "card A - 1 = 0" using c(2) by (metis card.empty)
    with True assms(1) show ?thesis unfolding bal_def by auto
  next
    case False
    with assms(1) c(2) show ?thesis unfolding bal_def by auto
  qed
  from bal_settled [OF this] have "bal s0 (A - {l}) (s\<lparr>cpus := settle (hart s) ?cs, locks := ?ls\<rparr>)"
    by simp
  ultimately show ?thesis by (auto simp: post_def)
qed

lemma bal_myproc:
  assumes "bal s0 A s"
  shows "post (myproc s) (\<lambda>(p, t). bal s0 A t \<and> p = cproc (cpus s0 (hart s0)) \<and> (\<exists>c. t = s\<lparr>cpus := c\<rparr>))"
proof -
  have "myproc s = Some (cproc (cpus s (hart s)), s\<lparr>cpus := settled s\<rparr>)"
    using bal_intr_ok [OF assms] by (rule myproc_eq)
  moreover have "hart s = hart s0" using assms by (simp add: bal_def)
  ultimately show ?thesis
    using bal_settled [OF assms] bal_cproc [OF assms] by (auto simp: post_def)
qed

text \<open>The condition does not depend on the rest of the state.\<close>

lemma bal_cong:
  "bal s0 A s \<Longrightarrow> hart t = hart s \<Longrightarrow> cpus t = cpus s \<Longrightarrow> locks t = locks s \<Longrightarrow> bal s0 A t"
  by (simp add: bal_def)

section \<open>Many harts: mutual exclusion\<close>

text \<open>
  The steps of \<open>acquire\<close> and \<open>release\<close> on one lock, one memory access each, for any set of
  harts. \<open>Trying\<close> is the spin on the atomic swap; \<open>Swapped\<close> is after the swap that read 0
  and before \<open>lk->cpu\<close> is set; \<open>Cleared\<close> is after \<open>lk->cpu = 0\<close> in \<open>release\<close>.
\<close>

datatype lock_pc = Outside | Trying | Swapped | Inside | Cleared

record lock_sys =
  pcs :: "nat \<Rightarrow> lock_pc"
  slk :: spinlock

inductive lock_step :: "lock_sys \<Rightarrow> lock_sys \<Rightarrow> bool" where
  enter: "pcs s i = Outside \<Longrightarrow> \<not> (locked (slk s) \<and> lcpu (slk s) = Some i) \<Longrightarrow>
    lock_step s (s\<lparr>pcs := (pcs s)(i := Trying)\<rparr>)"
| spin: "pcs s i = Trying \<Longrightarrow> locked (slk s) \<Longrightarrow>
    lock_step s (s\<lparr>slk := (slk s)\<lparr>locked := True\<rparr>\<rparr>)"
| swap: "pcs s i = Trying \<Longrightarrow> \<not> locked (slk s) \<Longrightarrow>
    lock_step s (s\<lparr>pcs := (pcs s)(i := Swapped), slk := (slk s)\<lparr>locked := True\<rparr>\<rparr>)"
| own: "pcs s i = Swapped \<Longrightarrow>
    lock_step s (s\<lparr>pcs := (pcs s)(i := Inside), slk := (slk s)\<lparr>lcpu := Some i\<rparr>\<rparr>)"
| clear: "pcs s i = Inside \<Longrightarrow> locked (slk s) \<Longrightarrow> lcpu (slk s) = Some i \<Longrightarrow>
    lock_step s (s\<lparr>pcs := (pcs s)(i := Cleared), slk := (slk s)\<lparr>lcpu := None\<rparr>\<rparr>)"
| unlock: "pcs s i = Cleared \<Longrightarrow>
    lock_step s (s\<lparr>pcs := (pcs s)(i := Outside), slk := (slk s)\<lparr>locked := False\<rparr>\<rparr>)"

definition lock_init :: "lock_sys \<Rightarrow> bool" where
  "lock_init s \<longleftrightarrow> (\<forall>i. pcs s i = Outside) \<and> free_lock (slk s)"

definition in_section :: "lock_sys \<Rightarrow> nat \<Rightarrow> bool" where
  "in_section s i \<longleftrightarrow> pcs s i \<in> {Swapped, Inside, Cleared}"

definition lock_inv :: "lock_sys \<Rightarrow> bool" where
  "lock_inv s \<longleftrightarrow>
     (if locked (slk s)
      then \<exists>i. in_section s i \<and> (\<forall>j. in_section s j \<longrightarrow> j = i) \<and>
             lcpu (slk s) = (if pcs s i = Inside then Some i else None)
      else lcpu (slk s) = None \<and> (\<forall>i. \<not> in_section s i))"

lemma lock_inv_holder:
  "lock_inv s \<Longrightarrow> in_section s i \<Longrightarrow>
     locked (slk s) \<and> (\<forall>j. in_section s j \<longrightarrow> j = i) \<and>
     lcpu (slk s) = (if pcs s i = Inside then Some i else None)"
  by (auto simp: lock_inv_def split: if_splits)

lemma lock_invI:
  "locked (slk s) \<Longrightarrow> in_section s i \<Longrightarrow> (\<And>j. in_section s j \<Longrightarrow> j = i) \<Longrightarrow>
     lcpu (slk s) = (if pcs s i = Inside then Some i else None) \<Longrightarrow> lock_inv s"
  unfolding lock_inv_def by metis

lemma in_section_upd:
  "in_section (s\<lparr>pcs := (pcs s)(i := x), slk := l\<rparr>) j \<longleftrightarrow>
     (if j = i then x \<in> {Swapped, Inside, Cleared} else in_section s j)"
  by (simp add: in_section_def)

lemma lock_step_inv: "lock_step s t \<Longrightarrow> lock_inv s \<Longrightarrow> lock_inv t"
proof (induction rule: lock_step.induct)
  case (enter s i)
  have same: "in_section (s\<lparr>pcs := (pcs s)(i := Trying)\<rparr>) j \<longleftrightarrow> in_section s j" for j
    using enter by (simp add: in_section_def)
  have ins: "((pcs s)(i := Trying)) j = Inside \<longleftrightarrow> pcs s j = Inside" for j
    using enter by simp
  from enter.prems show ?case
    unfolding lock_inv_def by (simp add: same ins del: fun_upd_apply)
next
  case (spin s i)
  then have "(slk s)\<lparr>locked := True\<rparr> = slk s" by simp
  then have "s\<lparr>slk := (slk s)\<lparr>locked := True\<rparr>\<rparr> = s" by (simp only:) simp
  with spin.prems show ?case by (simp only:)
next
  case (swap s i)
  then have "\<not> in_section s j" "lcpu (slk s) = None" for j by (simp_all add: lock_inv_def)
  then show ?case by (intro lock_invI [of _ i]) (auto simp: in_section_def split: if_splits)
next
  case (own s i)
  then have "in_section s i" by (simp add: in_section_def)
  from lock_inv_holder [OF own.prems this] show ?case
    by (intro lock_invI [of _ i]) (simp_all add: in_section_upd split: if_splits)
next
  case (clear s i)
  then have "in_section s i" by (simp add: in_section_def)
  from lock_inv_holder [OF clear.prems this] show ?case
    by (intro lock_invI [of _ i]) (simp_all add: in_section_upd split: if_splits)
next
  case (unlock s i)
  then have "in_section s i" by (simp add: in_section_def)
  from lock_inv_holder [OF unlock.prems this] unlock.hyps show ?case
    by (auto simp: lock_inv_def in_section_upd)
qed

lemma lock_init_inv: "lock_init s \<Longrightarrow> lock_inv s"
  by (simp add: lock_init_def lock_inv_def in_section_def free_lock_def)

interpretation spin: inductive_invariant lock_init lock_step lock_inv
  by unfold_locales (fact lock_init_inv, blast intro: lock_step_inv)

text \<open>The functions of the first part are runs of the second.\<close>

lemma acquire_runs:
  assumes "acquire l s = Some t" and "p (hart s) = Outside"
  shows "lock_step\<^sup>*\<^sup>* \<lparr>pcs = p, slk = locks s l\<rparr> \<lparr>pcs = p(hart s := Inside), slk = locks t l\<rparr>"
proof -
  let ?h = "hart s" and ?l = "locks s l"
  have nl: "\<not> locked ?l" and t: "locks t l = ?l\<lparr>locked := True, lcpu := Some ?h\<rparr>"
    using assms(1) acquire_None_iff [of l s] acquire_free [of s l]
    by (auto simp: taken_def)
  have 1: "lock_step \<lparr>pcs = p, slk = ?l\<rparr> \<lparr>pcs = p(?h := Trying), slk = ?l\<rparr>"
    using lock_step.enter [of "\<lparr>pcs = p, slk = ?l\<rparr>" ?h] assms(2) nl by simp
  have 2: "lock_step \<lparr>pcs = p(?h := Trying), slk = ?l\<rparr> \<lparr>pcs = p(?h := Swapped), slk = ?l\<lparr>locked := True\<rparr>\<rparr>"
    using lock_step.swap [of "\<lparr>pcs = p(?h := Trying), slk = ?l\<rparr>" ?h] nl by simp
  have 3: "lock_step \<lparr>pcs = p(?h := Swapped), slk = ?l\<lparr>locked := True\<rparr>\<rparr> \<lparr>pcs = p(?h := Inside), slk = locks t l\<rparr>"
    using lock_step.own [of "\<lparr>pcs = p(?h := Swapped), slk = ?l\<lparr>locked := True\<rparr>\<rparr>" ?h] t by simp
  from 1 2 3 show ?thesis
    by (meson converse_rtranclp_into_rtranclp rtranclp.rtrancl_refl)
qed

lemma release_runs:
  assumes "release l s = Some t" and "p (hart s) = Inside"
  shows "lock_step\<^sup>*\<^sup>* \<lparr>pcs = p, slk = locks s l\<rparr> \<lparr>pcs = p(hart s := Outside), slk = locks t l\<rparr>"
proof -
  let ?h = "hart s" and ?l = "locks s l"
  have held: "locked ?l" "lcpu ?l = Some ?h" and t: "locks t l = ?l\<lparr>lcpu := None, locked := False\<rparr>"
    using assms(1)
    by (auto simp: release_def holding_def pop_off_def cpu_defs Let_def split: if_splits)
  have 1: "lock_step \<lparr>pcs = p, slk = ?l\<rparr> \<lparr>pcs = p(?h := Cleared), slk = ?l\<lparr>lcpu := None\<rparr>\<rparr>"
    using lock_step.clear [of "\<lparr>pcs = p, slk = ?l\<rparr>" ?h] assms(2) held by simp
  have 2: "lock_step \<lparr>pcs = p(?h := Cleared), slk = ?l\<lparr>lcpu := None\<rparr>\<rparr> \<lparr>pcs = p(?h := Outside), slk = locks t l\<rparr>"
    using lock_step.unlock [of "\<lparr>pcs = p(?h := Cleared), slk = ?l\<lparr>lcpu := None\<rparr>\<rparr>" ?h] t by simp
  from 1 2 show ?thesis
    by (meson converse_rtranclp_into_rtranclp rtranclp.rtrancl_refl)
qed

section \<open>Properties\<close>

text \<open>C6. Mutual exclusion. Any number of harts may run \<open>acquire\<close> and \<open>release\<close> on one lock, their
  memory accesses interleaved in any order: at most one of them is between the successful swap and
  the clearing of the lock word, and while one is there the word is set.\<close>

theorem spinlock_exclusive:
  assumes "lock_init s" and "lock_step\<^sup>*\<^sup>* s t" and "in_section t i" and "in_section t j"
  shows "i = j \<and> locked (slk t)"
  using lock_inv_holder [OF spin.reachable_inv [OF assms(1,2)]] assms(3,4) by blast

definition free_sys :: lock_sys where
  "free_sys = \<lparr>pcs = (\<lambda>_. Outside), slk = \<lparr>locked = False, lname = [], lcpu = None\<rparr>\<rparr>"

theorem spinlock_exclusive_witness:
  "\<exists>t. lock_step\<^sup>*\<^sup>* free_sys t \<and> in_section t 3 \<and> (\<forall>j. in_section t j \<longrightarrow> j = 3)"
proof -
  let ?a = "free_sys\<lparr>pcs := (pcs free_sys)(3 := Trying)\<rparr>"
  let ?b = "?a\<lparr>pcs := (pcs ?a)(3 := Swapped), slk := (slk ?a)\<lparr>locked := True\<rparr>\<rparr>"
  have "lock_step free_sys ?a" by (rule lock_step.enter) (simp_all add: free_sys_def)
  moreover have "lock_step ?a ?b" by (rule lock_step.swap) (simp_all add: free_sys_def)
  ultimately have r: "lock_step\<^sup>*\<^sup>* free_sys ?b" by (meson r_into_rtranclp rtranclp_trans)
  have i: "lock_init free_sys" by (simp add: lock_init_def free_sys_def free_lock_def)
  have "in_section ?b 3" by (simp add: in_section_def)
  with spinlock_exclusive [OF i r] r show ?thesis by (intro exI [of _ ?b]) blast
qed

end
