(* ===== verification/Kalloc.thy ===== *)
theory Kalloc
  imports Cstring Spinlock "HOL-Library.Multiset"
begin

text \<open>
  The physical page allocator, \<^verbatim>\<open>kernel/kalloc.c\<close>, with the layout constants of
  \<^verbatim>\<open>kernel/memlayout.h\<close> and \<^verbatim>\<open>kernel/riscv.h\<close>. The free list is threaded through the
  free pages themselves: \<open>r->next\<close> is the 64-bit word at the start of page \<open>r\<close>. The lemmas
  relate it to a list of page addresses, and a locale states what the users of the allocator
  rely on.
\<close>

section \<open>Definitions\<close>

definition PGSIZE :: u64 where
  "PGSIZE = 4096"

definition KERNBASE :: u64 where
  "KERNBASE = 0x80000000"

definition PHYSTOP :: u64 where
  "PHYSTOP = KERNBASE + 128 * 1024 * 1024"

definition PGROUNDUP :: "u64 \<Rightarrow> u64" where
  "PGROUNDUP sz = (sz + PGSIZE - 1) AND NOT (PGSIZE - 1)"

definition PGROUNDDOWN :: "u64 \<Rightarrow> u64" where
  "PGROUNDDOWN a = a AND NOT (PGSIZE - 1)"

text \<open>\<open>kend\<close> is the linker symbol \<open>end\<close>, the first address after the kernel.\<close>

record kmem = machine +
  kend :: u64
  freelist :: u64

definition kfree :: "u64 \<Rightarrow> 'a kmem_scheme \<Rightarrow> 'a kmem_scheme option" where
  "kfree pa s =
     (if pa mod PGSIZE \<noteq> 0 \<or> pa < kend s \<or> pa \<ge> PHYSTOP then None
      else do {
        let s = s\<lparr>mem := memset (mem s) pa 1 (ucast PGSIZE)\<rparr>;
        let r = pa;
        s \<leftarrow> acquire KmemLock s;
        let s = s\<lparr>mem := store64 (mem s) r (freelist s)\<rparr>;
        let s = s\<lparr>freelist := r\<rparr>;
        release KmemLock s
      })"

definition kalloc :: "'a kmem_scheme \<Rightarrow> (u64 \<times> 'a kmem_scheme) option" where
  "kalloc s = do {
     s \<leftarrow> acquire KmemLock s;
     let r = freelist s;
     let s = (if r \<noteq> 0 then s\<lparr>freelist := load64 (mem s) r\<rparr> else s);
     s \<leftarrow> release KmemLock s;
     let s = (if r \<noteq> 0 then s\<lparr>mem := memset (mem s) r 5 (ucast PGSIZE)\<rparr> else s);
     Some (r, s)
   }"

lemma kfree_below: "kfree p s = Some t \<Longrightarrow> p < PHYSTOP"
  by (auto simp: kfree_def split: if_splits)

function freerange_loop :: "u64 \<Rightarrow> u64 \<Rightarrow> 'a kmem_scheme \<Rightarrow> 'a kmem_scheme option" where
  "freerange_loop p pa_end s =
     (if p + PGSIZE \<le> pa_end
      then do { s \<leftarrow> kfree p s; freerange_loop (p + PGSIZE) pa_end s }
      else Some s)"
  by pat_completeness auto
termination
proof (relation "measure (\<lambda>(p, e, s). unat PHYSTOP - unat p)", goal_cases)
  case 1
  then show ?case by simp
next
  case (2 p e s t)
  from kfree_below [OF this(2)] have "unat p < unat PHYSTOP" by (simp add: word_less_nat_alt)
  then show ?case
    by (simp add: PGSIZE_def PHYSTOP_def KERNBASE_def unat_word_ariths)
qed

declare freerange_loop.simps [simp del]

definition freerange :: "u64 \<Rightarrow> u64 \<Rightarrow> 'a kmem_scheme \<Rightarrow> 'a kmem_scheme option" where
  "freerange pa_start pa_end s = freerange_loop (PGROUNDUP pa_start) pa_end s"

definition kinit :: "'a kmem_scheme \<Rightarrow> 'a kmem_scheme option" where
  "kinit s = freerange (kend s) PHYSTOP (initlock KmemLock ''kmem'' s)"

section \<open>The free list\<close>

lemmas page_defs [kdefs] = PGSIZE_def KERNBASE_def PHYSTOP_def

text \<open>A page the allocator may hand out.\<close>

definition valid_page :: "'a kmem_scheme \<Rightarrow> u64 \<Rightarrow> bool" where
  "valid_page s pa \<longleftrightarrow> pa mod PGSIZE = 0 \<and> kend s \<le> pa \<and> pa < PHYSTOP"

primrec flist :: "memory \<Rightarrow> u64 \<Rightarrow> u64 list \<Rightarrow> bool" where
  "flist m p [] \<longleftrightarrow> p = 0"
| "flist m p (a # as) \<longleftrightarrow> p = a \<and> a \<noteq> 0 \<and> flist m (load64 m a) as"

text \<open>The allocator's state holds the free pages \<open>ps\<close>, in the order they will be handed out;
  its lock is free.\<close>

definition kmem_inv :: "'a kmem_scheme \<Rightarrow> u64 list \<Rightarrow> bool" where
  "kmem_inv s ps \<longleftrightarrow> flist (mem s) (freelist s) ps \<and> distinct ps \<and>
     (\<forall>p\<in>set ps. valid_page s p) \<and> 0 < kend s \<and> free_lock (locks s KmemLock) \<and> intr_ok s"

lemma page_mod: "pa mod PGSIZE = 0 \<longleftrightarrow> unat pa mod 4096 = 0"
  by (simp add: PGSIZE_def word_unat_eq_iff unat_mod)

lemma valid_page_aligned: "valid_page s p \<Longrightarrow> unat p mod 4096 = 0"
  by (simp add: valid_page_def page_mod)

lemma pages_apart:
  "unat p mod 4096 = 0 \<Longrightarrow> unat q mod 4096 = 0 \<Longrightarrow> p \<noteq> q \<Longrightarrow> apart p 4096 q 4096"
  by (rule aligned_apart) simp_all

lemma valid_pages_apart:
  "valid_page s p \<Longrightarrow> valid_page s q \<Longrightarrow> p \<noteq> q \<Longrightarrow> k \<le> 4096 \<Longrightarrow> apart p 4096 q k"
  using pages_apart [of p q] valid_page_aligned [of s] by (auto simp: apart_def)

lemma apart_mono: "apart a n b k \<Longrightarrow> n' \<le> n \<Longrightarrow> k' \<le> k \<Longrightarrow> apart a n' b k'"
  by (auto simp: apart_def)

text \<open>Writing inside a page that is not on the list keeps the list.\<close>

lemma flist_store:
  assumes "flist m p ps" and "\<And>q. q \<in> set ps \<Longrightarrow> apart a (length bs) q 8"
  shows "flist (store_bytes m a bs) p ps"
  using assms by (induction ps arbitrary: p) (auto simp: load64_store_apart)

text \<open>A page filled with one byte value.\<close>

definition page_fill :: "u8 \<Rightarrow> bytes" where
  "page_fill c = replicate 4096 c"

lemma length_page_fill [simp]: "length (page_fill c) = 4096"
  by (simp add: page_fill_def)

lemma nth_page_fill [simp]: "i < 4096 \<Longrightarrow> page_fill c ! i = c"
  by (simp add: page_fill_def)

lemma memset_page: "memset m pa c (ucast PGSIZE) = store_bytes m pa (page_fill (ucast c))"
  by (simp add: memset_eq PGSIZE_def page_fill_def)

definition after_kfree :: "u64 \<Rightarrow> 'a kmem_scheme \<Rightarrow> 'a kmem_scheme" where
  "after_kfree pa s = s\<lparr>cpus := settled s,
     mem := store64 (store_bytes (mem s) pa (page_fill 1)) pa (freelist s), freelist := pa\<rparr>"

definition after_kalloc :: "u64 \<Rightarrow> 'a kmem_scheme \<Rightarrow> 'a kmem_scheme" where
  "after_kalloc p s = s\<lparr>cpus := settled s, freelist := load64 (mem s) p,
     mem := store_bytes (mem s) p (page_fill 5)\<rparr>"

lemma kfree_eq:
  assumes "valid_page s pa" and "free_lock (locks s KmemLock)" and "intr_ok s"
  shows "kfree pa s = Some (after_kfree pa s)"
proof -
  have chk: "\<not> (pa mod PGSIZE \<noteq> 0 \<or> pa < kend s \<or> pa \<ge> PHYSTOP)"
    using assms(1) unfolding valid_page_def by (metis linorder_not_le)
  have nl: "\<not> locked (locks s KmemLock)" using assms(2) by (simp add: free_lock_def)
  show ?thesis
    unfolding kfree_def if_not_P [OF chk]
    using assms(2,3) nl
    by (simp add: acquire_free release_acquired memset_page after_kfree_def)
qed

lemma kfree_None:
  assumes "\<not> valid_page s pa"
  shows "kfree pa s = None"
proof -
  have "pa mod PGSIZE \<noteq> 0 \<or> pa < kend s \<or> pa \<ge> PHYSTOP"
    using assms unfolding valid_page_def by (metis linorder_not_le)
  then show ?thesis by (simp only: kfree_def if_True)
qed

lemma kalloc_eq:
  assumes "free_lock (locks s KmemLock)" and "intr_ok s"
  shows "kalloc s = Some (freelist s,
    if freelist s = 0 then s\<lparr>cpus := settled s\<rparr> else after_kalloc (freelist s) s)"
proof -
  have nl: "\<not> locked (locks s KmemLock)" using assms(1) by (simp add: free_lock_def)
  show ?thesis
    using assms nl
    by (simp add: kalloc_def acquire_free release_acquired memset_page after_kalloc_def Let_def)
qed

lemma settled_after [simp]:
  "settled (after_kfree pa s) = settled s" "settled (after_kalloc pa s) = settled s"
  by (simp_all add: after_kfree_def after_kalloc_def)

lemma kmem_inv_kalloc:
  assumes inv: "kmem_inv s (p # ps)"
  shows "kalloc s = Some (p, after_kalloc p s)" and "kmem_inv (after_kalloc p s) ps"
    and "valid_page s p" and "p \<noteq> 0"
proof -
  from inv have p: "freelist s = p" "p \<noteq> 0" and fl: "flist (mem s) (load64 (mem s) p) ps"
    and d: "distinct (p # ps)" and v: "\<forall>q\<in>set (p # ps). valid_page s q"
    and rest: "0 < kend s" "free_lock (locks s KmemLock)" "intr_ok s"
    by (auto simp: kmem_inv_def)
  show "kalloc s = Some (p, after_kalloc p s)"
    using kalloc_eq [of s] rest p by simp
  have "apart p (length (page_fill 5)) q 8" if "q \<in> set ps" for q
    using valid_pages_apart [of s p q 8] v d that by auto
  then have "flist (store_bytes (mem s) p (page_fill 5)) (load64 (mem s) p) ps"
    by (rule flist_store [OF fl])
  then show "kmem_inv (after_kalloc p s) ps"
    using d v rest by (simp add: kmem_inv_def after_kalloc_def valid_page_def)
  show "valid_page s p" "p \<noteq> 0" using v p by simp_all
qed

lemma kmem_inv_kalloc_none:
  "kmem_inv s [] \<Longrightarrow> kalloc s = Some (0, s\<lparr>cpus := settled s\<rparr>) \<and> kmem_inv (s\<lparr>cpus := settled s\<rparr>) []"
  using kalloc_eq [of s] by (simp add: kmem_inv_def valid_page_def)

lemma kmem_inv_kfree:
  assumes inv: "kmem_inv s ps" and pa: "valid_page s pa" "pa \<notin> set ps"
  shows "kfree pa s = Some (after_kfree pa s)" and "kmem_inv (after_kfree pa s) (pa # ps)"
proof -
  from inv have fl: "flist (mem s) (freelist s) ps"
    and d: "distinct ps" and v: "\<forall>q\<in>set ps. valid_page s q"
    and rest: "0 < kend s" "free_lock (locks s KmemLock)" "intr_ok s"
    by (auto simp: kmem_inv_def)
  show "kfree pa s = Some (after_kfree pa s)"
    by (rule kfree_eq) (use rest pa in auto)
  have far: "apart pa 4096 q 8" if "q \<in> set ps" for q
    using valid_pages_apart [of s pa q 8] v pa that by auto
  have "flist (store_bytes (mem s) pa (page_fill 1)) (freelist s) ps"
    by (rule flist_store [OF fl]) (use far in simp)
  then have "flist (store64 (store_bytes (mem s) pa (page_fill 1)) pa (freelist s)) (freelist s) ps"
    unfolding store64_def
    by (rule flist_store) (use far in \<open>simp add: apart_mono [of pa 4096 _ 8]\<close>)
  moreover have "pa \<noteq> 0" using pa(1) rest(1) by (auto simp: valid_page_def)
  ultimately show "kmem_inv (after_kfree pa s) (pa # ps)"
    using d v rest pa by (simp add: kmem_inv_def after_kfree_def valid_page_def)
qed

section \<open>The interface of the allocator\<close>

text \<open>What the users of \<open>kalloc\<close> and \<open>kfree\<close> rely on. \<open>pool s ps\<close> says that \<open>ps\<close> are the free
  pages.\<close>

locale page_allocator =
  fixes alloc :: "'s \<Rightarrow> (u64 \<times> 's) option"
    and free :: "u64 \<Rightarrow> 's \<Rightarrow> 's option"
    and pool :: "'s \<Rightarrow> u64 list \<Rightarrow> bool"
    and valid :: "'s \<Rightarrow> u64 \<Rightarrow> bool"
  assumes alloc_some: "pool s (p # ps) \<Longrightarrow>
      \<exists>t. alloc s = Some (p, t) \<and> pool t ps \<and> valid s p \<and> p \<noteq> 0 \<and> valid t = valid s"
    and alloc_none: "pool s [] \<Longrightarrow> \<exists>t. alloc s = Some (0, t) \<and> pool t [] \<and> valid t = valid s"
    and free_ok: "pool s ps \<Longrightarrow> valid s p \<Longrightarrow> p \<notin> set ps \<Longrightarrow>
      \<exists>t. free p s = Some t \<and> pool t (p # ps) \<and> valid t = valid s"
    and pool_distinct: "pool s ps \<Longrightarrow> distinct ps"

text \<open>A client makes a sequence of requests and keeps the list of pages it owns; it frees pages
  by their position in that list.\<close>

datatype page_op = Alloc | Free nat

fun run_pages :: "('s \<Rightarrow> (u64 \<times> 's) option) \<Rightarrow> (u64 \<Rightarrow> 's \<Rightarrow> 's option) \<Rightarrow> page_op list \<Rightarrow>
    u64 list \<times> 's \<Rightarrow> (u64 list \<times> 's) option" where
  "run_pages al fr [] (own, s) = Some (own, s)"
| "run_pages al fr (Alloc # ops) (own, s) =
     do { (p, s) \<leftarrow> al s; run_pages al fr ops (if p = 0 then own else p # own, s) }"
| "run_pages al fr (Free i # ops) (own, s) =
     (if i < length own
      then do { s \<leftarrow> fr (own ! i) s; run_pages al fr ops (take i own @ drop (Suc i) own, s) }
      else run_pages al fr ops (own, s))"

lemma mset_remove_nth:
  "i < length xs \<Longrightarrow> add_mset (xs ! i) (mset (take i xs @ drop (Suc i) xs)) = mset xs"
proof -
  assume "i < length xs"
  then have "xs = take i xs @ xs ! i # drop (Suc i) xs" by (simp add: id_take_nth_drop)
  then show ?thesis
    by (metis mset_append mset.simps(2) union_mset_add_mset_right)
qed

context page_allocator
begin

lemma run_conserves:
  assumes "pool s ps" and "distinct (own @ ps)" and "\<forall>p\<in>set own. valid s p"
  shows "\<exists>own' t qs. run_pages alloc free ops (own, s) = Some (own', t) \<and> pool t qs \<and>
    distinct (own' @ qs) \<and> mset own' + mset qs = mset own + mset ps"
  using assms
proof (induction ops arbitrary: own s ps)
  case Nil
  then show ?case by auto
next
  case (Cons op ops)
  show ?case
  proof (cases op)
    case Alloc
    show ?thesis
    proof (cases ps)
      case Nil
      with Cons.prems alloc_none [of s] obtain t
        where t: "alloc s = Some (0, t)" "pool t []" "valid t = valid s" by auto
      from Cons.IH [OF t(2), of own] Cons.prems Nil t show ?thesis by (simp add: Alloc)
    next
      case (Cons p ps')
      with Cons.prems alloc_some [of s p ps'] obtain t
        where t: "alloc s = Some (p, t)" "pool t ps'" "valid s p" "p \<noteq> 0" "valid t = valid s" by auto
      from Cons.IH [OF t(2), of "p # own"] Cons.prems Cons t show ?thesis by (simp add: Alloc)
    qed
  next
    case (Free i)
    show ?thesis
    proof (cases "i < length own")
      case True
      let ?own = "take i own @ drop (Suc i) own"
      have split: "own = take i own @ own ! i # drop (Suc i) own"
        using True by (simp add: id_take_nth_drop)
      have d: "distinct ((take i own @ own ! i # drop (Suc i) own) @ ps)"
        using Cons.prems(2) split by simp
      have "own ! i \<notin> set ps" "valid s (own ! i)"
        using d Cons.prems(3) True by auto
      with free_ok [OF Cons.prems(1)] obtain t
        where t: "free (own ! i) s = Some t" "pool t (own ! i # ps)" "valid t = valid s" by blast
      have v: "\<forall>p\<in>set ?own. valid t p"
        using Cons.prems(3) t(3) by (auto dest: in_set_takeD in_set_dropD)
      have d': "distinct (?own @ own ! i # ps)"
        using d by auto
      have m: "mset ?own + mset (own ! i # ps) = mset own + mset ps"
        using mset_remove_nth [OF True] by simp
      from Cons.IH [OF t(2) d' v] show ?thesis
        unfolding m using t True by (simp add: Free)
    next
      case False
      with Cons show ?thesis by (simp add: Free)
    qed
  qed
qed

end

lemma valid_page_after [simp]:
  "valid_page (after_kalloc p s) = valid_page s" "valid_page (after_kfree p s) = valid_page s"
  by (simp_all add: valid_page_def after_kalloc_def after_kfree_def fun_eq_iff)

lemma valid_page_cpus [simp]: "valid_page (s\<lparr>cpus := c\<rparr>) = valid_page s"
  by (simp add: valid_page_def fun_eq_iff)

interpretation pages: page_allocator kalloc kfree kmem_inv valid_page
proof unfold_locales
  fix s :: "'a kmem_scheme" and p ps
  assume "kmem_inv s (p # ps)"
  from kmem_inv_kalloc [OF this]
  show "\<exists>t. kalloc s = Some (p, t) \<and> kmem_inv t ps \<and> valid_page s p \<and> p \<noteq> 0 \<and> valid_page t = valid_page s"
    by simp
next
  fix s :: "'a kmem_scheme"
  assume "kmem_inv s []"
  from kmem_inv_kalloc_none [OF this]
  show "\<exists>t. kalloc s = Some (0, t) \<and> kmem_inv t [] \<and> valid_page t = valid_page s" by simp
next
  fix s :: "'a kmem_scheme" and ps p
  assume "kmem_inv s ps" "valid_page s p" "p \<notin> set ps"
  from kmem_inv_kfree [OF this]
  show "\<exists>t. kfree p s = Some t \<and> kmem_inv t (p # ps) \<and> valid_page t = valid_page s" by simp
next
  fix s :: "'a kmem_scheme" and ps
  assume "kmem_inv s ps"
  then show "distinct ps" by (simp add: kmem_inv_def)
qed

section \<open>Initialisation\<close>

text \<open>The pages between two addresses.\<close>

definition pages_between :: "u64 \<Rightarrow> u64 \<Rightarrow> u64 list" where
  "pages_between p e = map (\<lambda>i. p + of_nat i * PGSIZE) [0..<(unat e - unat p) div 4096]"

lemma pages_between_step:
  assumes "unat p + 4096 \<le> unat e"
  shows "pages_between p e = p # pages_between (p + PGSIZE) e"
proof -
  have u: "unat (p + PGSIZE) = unat p + 4096"
    using assms unat_bound [of e] by (simp add: PGSIZE_def unat_word_ariths)
  have n: "(unat e - unat p) div 4096 = Suc ((unat e - unat (p + PGSIZE)) div 4096)"
    using assms u by (simp add: le_div_geq)
  show ?thesis
    unfolding pages_between_def n
    by (subst upt_conv_Cons, simp, subst map_Suc_upt [symmetric]) (simp add: algebra_simps)
qed

lemma pages_between_none: "unat e < unat p + 4096 \<Longrightarrow> pages_between p e = []"
  by (simp add: pages_between_def)

lemma unat_PHYSTOP: "unat PHYSTOP = 2281701376"
  by (simp add: page_defs)

lemma kend_after_kfree [simp]: "kend (after_kfree p s) = kend s"
  by (simp add: after_kfree_def)

lemma freerange_loop_ok:
  assumes "kmem_inv s ps" and "unat p mod 4096 = 0" and "kend s \<le> p" and "p \<le> PHYSTOP"
    and "\<forall>q\<in>set ps. q < p"
  shows "\<exists>t. freerange_loop p PHYSTOP s = Some t \<and> kend t = kend s \<and>
    kmem_inv t (rev (pages_between p PHYSTOP) @ ps)"
  using assms
proof (induction "unat PHYSTOP - unat p" arbitrary: p s ps rule: less_induct)
  case less
  have ple: "unat p \<le> unat PHYSTOP" using less.prems(4) by (simp add: word_le_nat_alt)
  have u: "unat (p + PGSIZE) = unat p + 4096"
    using ple by (simp add: PGSIZE_def unat_word_ariths unat_PHYSTOP)
  show ?case
  proof (cases "p + PGSIZE \<le> PHYSTOP")
    case True
    then have fits: "unat p + 4096 \<le> unat PHYSTOP" using u by (simp add: word_le_nat_alt)
    then have v: "valid_page s p"
      using less.prems(2,3) by (simp add: valid_page_def page_mod word_less_nat_alt)
    have "p \<notin> set ps" using less.prems(5) by auto
    note k = kmem_inv_kfree [OF less.prems(1) v this]
    have "\<exists>t. freerange_loop (p + PGSIZE) PHYSTOP (after_kfree p s) = Some t \<and>
        kend t = kend (after_kfree p s) \<and>
        kmem_inv t (rev (pages_between (p + PGSIZE) PHYSTOP) @ p # ps)"
    proof (rule less.hyps)
      show "unat PHYSTOP - unat (p + PGSIZE) < unat PHYSTOP - unat p" using u fits by simp
      show "kmem_inv (after_kfree p s) (p # ps)" by (fact k)
      show "unat (p + PGSIZE) mod 4096 = 0" using u less.prems(2) by simp
      show "kend (after_kfree p s) \<le> p + PGSIZE"
        using less.prems(3) u by (simp add: word_le_nat_alt)
      show "p + PGSIZE \<le> PHYSTOP" by (fact True)
      show "\<forall>q\<in>set (p # ps). q < p + PGSIZE"
        using less.prems(5) u by (auto simp: word_less_nat_alt)
    qed
    then show ?thesis
      using k(1) True pages_between_step [OF fits] by (subst freerange_loop.simps) simp
  next
    case False
    then have "unat PHYSTOP < unat p + 4096" using u by (simp add: word_le_nat_alt)
    with less.prems False show ?thesis
      by (subst freerange_loop.simps) (simp add: pages_between_none)
  qed
qed

lemma page_mask: "x AND NOT (PGSIZE - 1) = x - take_bit 12 x" for x :: u64
proof -
  have "PGSIZE - 1 = mask 12" by (simp add: PGSIZE_def mask_eq_exp_minus_1)
  moreover have "x AND NOT (mask 12) = x AND NOT (take_bit 12 x)"
    by (rule bit_eqI) (auto simp: bit_simps)
  moreover have "x - take_bit 12 x = x AND NOT (take_bit 12 x)"
    by (rule disjunctive_diff) (simp add: bit_take_bit_iff)
  ultimately show ?thesis by (simp only:)
qed

lemma unat_page_mask: "unat (x AND NOT (PGSIZE - 1)) = unat x div 4096 * 4096" for x :: u64
proof -
  have t: "unat (take_bit 12 x) = unat x mod 4096"
    by (simp add: take_bit_eq_mod unat_mod)
  then have "take_bit 12 x \<le> x" by (simp add: word_le_nat_alt)
  then show ?thesis
    by (simp add: page_mask unat_sub t minus_mod_eq_div_mult)
qed

lemma unat_PGROUNDDOWN: "unat (PGROUNDDOWN a) = unat a div 4096 * 4096"
  by (simp add: PGROUNDDOWN_def unat_page_mask)

lemma unat_PGROUNDUP:
  assumes "unat a + 4095 < 2 ^ 64"
  shows "unat (PGROUNDUP a) = (unat a + 4095) div 4096 * 4096"
proof -
  have "unat (a + PGSIZE - 1) = unat a + 4095"
    using assms by (simp add: PGSIZE_def unat_word_ariths add_diff_eq [symmetric])
  then show ?thesis by (simp add: PGROUNDUP_def unat_page_mask)
qed

lemma PGROUNDUP_bounds:
  assumes "a \<le> PHYSTOP"
  shows "a \<le> PGROUNDUP a" and "PGROUNDUP a \<le> PHYSTOP" and "unat (PGROUNDUP a) mod 4096 = 0"
proof -
  have a: "unat a \<le> 2281701376" using assms by (simp add: word_le_nat_alt unat_PHYSTOP)
  then have u: "unat (PGROUNDUP a) = (unat a + 4095) div 4096 * 4096"
    by (intro unat_PGROUNDUP) simp
  have q: "(unat a + 4095) div 4096 * 4096 + (unat a + 4095) mod 4096 = unat a + 4095"
    and r: "(unat a + 4095) mod 4096 < 4096" by simp_all
  show "a \<le> PGROUNDUP a" unfolding word_le_nat_alt u using q r by linarith
  have "(unat a + 4095) div 4096 \<le> (2281701376 + 4095) div 4096"
    by (rule div_le_mono) (use a in simp)
  then show "PGROUNDUP a \<le> PHYSTOP" unfolding word_le_nat_alt u unat_PHYSTOP by simp
  show "unat (PGROUNDUP a) mod 4096 = 0" unfolding u by simp
qed

lemma kinit_ok:
  assumes "0 < kend s" and "kend s \<le> PHYSTOP" and "freelist s = 0" and "intr_ok s"
  shows "\<exists>t. kinit s = Some t \<and> kmem_inv t (rev (pages_between (PGROUNDUP (kend s)) PHYSTOP))"
proof -
  let ?s = "initlock KmemLock ''kmem'' s"
  have "kmem_inv ?s []"
    using assms by (simp add: kmem_inv_def initlock_def free_lock_def)
  moreover have "kend ?s = kend s" by (simp add: initlock_def)
  ultimately show ?thesis
    using freerange_loop_ok [of ?s "[]" "PGROUNDUP (kend s)"] PGROUNDUP_bounds [OF assms(2)]
    by (auto simp: kinit_def freerange_def)
qed

section \<open>Properties\<close>

text \<open>C7. Page conservation. After \<open>kinit\<close> has freed the memory above the kernel, any sequence of
  \<open>kalloc\<close> and \<open>kfree\<close> calls returns, no page is handed out twice, and the pages owned together
  with those on the free list are exactly the pages of memory.\<close>

theorem pages_conserved:
  assumes "0 < kend s" and "kend s \<le> PHYSTOP" and "freelist s = 0" and "intr_ok s"
  shows "\<exists>t own u free. kinit s = Some t \<and> run_pages kalloc kfree reqs ([], t) = Some (own, u) \<and>
    flist (mem u) (freelist u) free \<and> distinct (own @ free) \<and>
    mset own + mset free = mset (pages_between (PGROUNDUP (kend s)) PHYSTOP)"
proof -
  obtain t where t: "kinit s = Some t" "kmem_inv t (rev (pages_between (PGROUNDUP (kend s)) PHYSTOP))"
    using kinit_ok [OF assms] by blast
  then obtain own u free where "run_pages kalloc kfree reqs ([], t) = Some (own, u)" "kmem_inv u free"
    "distinct (own @ free)" "mset own + mset free = mset (pages_between (PGROUNDUP (kend s)) PHYSTOP)"
    using pages.run_conserves [OF t(2), of "[]" reqs] by (auto simp: kmem_inv_def)
  with t(1) show ?thesis by (auto simp: kmem_inv_def)
qed

definition small_ram :: kmem where
  "small_ram = \<lparr>hart = 0, cpus = (\<lambda>_. \<lparr>cproc = None, noff = 0, intena = False, sie = False\<rparr>),
     locks = (\<lambda>_. \<lparr>locked = False, lname = [], lcpu = None\<rparr>), mem = (\<lambda>_. 0), kend = PHYSTOP - 65536, freelist = 0\<rparr>"

theorem pages_conserved_witness:
  "\<exists>t own u. kinit small_ram = Some t \<and>
     run_pages kalloc kfree [Alloc, Alloc, Free 0, Alloc] ([], t) = Some (own, u) \<and> distinct own"
proof -
  have "0 < kend small_ram" "kend small_ram \<le> PHYSTOP" "freelist small_ram = 0" "intr_ok small_ram"
    by (simp_all add: small_ram_def page_defs cpu_ok_def)
  from pages_conserved [OF this, of "[Alloc, Alloc, Free 0, Alloc]"] show ?thesis by auto
qed

end
