(* ===== verification/Procdef.thy ===== *)
theory Procdef
  imports Kalloc
begin

text \<open>
  The data of \<^verbatim>\<open>kernel/proc.h\<close> and the globals of \<^verbatim>\<open>kernel/proc.c\<close> and
  \<^verbatim>\<open>kernel/vm.c\<close>: the process table, the MLFQ fields of a process, the trap frame's layout,
  and the link symbols the kernel's address space is built from. The operations are in the
  theories that import this one.
\<close>

section \<open>Parameters\<close>

definition NPROC :: nat where
  "NPROC = 64"

definition NCPU :: nat where
  "NCPU = 8"

definition NOFILE :: nat where
  "NOFILE = 16"

definition MLFQ_HIGH :: int where
  "MLFQ_HIGH = 0"

definition MLFQ_MEDIUM :: int where
  "MLFQ_MEDIUM = 1"

definition MLFQ_LOW :: int where
  "MLFQ_LOW = 2"

definition TIMESLICE_HIGH :: int where
  "TIMESLICE_HIGH = 4"

definition TIMESLICE_MEDIUM :: int where
  "TIMESLICE_MEDIUM = 8"

definition TIMESLICE_LOW :: int where
  "TIMESLICE_LOW = 16"

lemmas mlfq_defs [kdefs] = MLFQ_HIGH_def MLFQ_MEDIUM_def MLFQ_LOW_def
  TIMESLICE_HIGH_def TIMESLICE_MEDIUM_def TIMESLICE_LOW_def

section \<open>Processes\<close>

datatype procstate = UNUSED | USED | SLEEPING | RUNNABLE | RUNNING | ZOMBIE

text \<open>The channels the kernel sleeps on, named by the object whose address is the channel.\<close>

datatype chan = ChanTicks | ChanProc nat | ChanLog | ChanPipeRead u64 | ChanPipeWrite u64
  | ChanSleepLock sleeplock_id | ChanCons | ChanTx | ChanBuf nat | ChanDisk

text \<open>\<open>struct context\<close>: the callee-saved registers \<open>s0\<close> to \<open>s11\<close> are \<open>ctx_s 0\<close> to \<open>ctx_s 11\<close>.\<close>

record ctxt =
  ctx_ra :: u64
  ctx_sp :: u64
  ctx_s :: "nat \<Rightarrow> u64"

text \<open>\<open>struct proc\<close>. A process is its index in the table, an open file its index in the file
  table, \<open>cwd\<close> an index in the inode table; a null pointer is \<open>None\<close>, for the addresses
  \<open>pagetable\<close> and \<open>trapframe\<close> it is 0.\<close>

record proc =
  pstate :: procstate
  pchan :: "chan option"
  pkilled :: bool
  xstate :: int
  pid :: int
  parent :: "nat option"
  kstack :: u64
  psz :: u64
  pagetable :: u64
  trapframe :: u64
  pcontext :: ctxt
  ofile :: "nat \<Rightarrow> nat option"
  cwd :: "nat option"
  pname :: bytes
  priority :: int
  timeslice :: int
  timeslice_used :: int
  cpu_ticks :: int
  sched_count :: int
  yielded_io :: bool
  start_time :: u64
  end_time :: u64
  first_run :: u64
  total_wait :: u64
  last_scheduled :: u64

text \<open>\<open>struct trapframe\<close> is a page of physical memory; these are the offsets of its words. The
  registers \<open>t0\<close> to \<open>t2\<close> and \<open>t3\<close> to \<open>t6\<close>, \<open>s0\<close>, \<open>s1\<close> and \<open>s2\<close> to \<open>s11\<close> are two runs each.\<close>

datatype tfreg = Kernel_satp | Kernel_sp | Kernel_trap | Epc | Kernel_hartid
  | Ra | Sp | Gp | Tp | Treg nat | Sreg nat | Areg nat

fun tf_off :: "tfreg \<Rightarrow> u64" where
  "tf_off Kernel_satp = 0"
| "tf_off Kernel_sp = 8"
| "tf_off Kernel_trap = 16"
| "tf_off Epc = 24"
| "tf_off Kernel_hartid = 32"
| "tf_off Ra = 40"
| "tf_off Sp = 48"
| "tf_off Gp = 56"
| "tf_off Tp = 64"
| "tf_off (Treg n) = (if n < 3 then 72 + 8 * of_nat n else 256 + 8 * of_nat (n - 3))"
| "tf_off (Sreg n) = (if n < 2 then 96 + 8 * of_nat n else 176 + 8 * of_nat (n - 2))"
| "tf_off (Areg n) = 112 + 8 * of_nat n"

definition tf_size :: nat where
  "tf_size = 288"

section \<open>The kernel's state\<close>

text \<open>\<open>etext\<close>, \<open>trampoline\<close>, \<open>uservec\<close>, \<open>userret\<close>, \<open>forkret_addr\<close>, \<open>usertrap_addr\<close> and \<open>kernelvec\<close>
  are addresses fixed by the linker; \<open>satp\<close> and \<open>stvec\<close>, \<open>sepc\<close>, \<open>scause\<close>, \<open>stval\<close> are registers of
  each hart.\<close>

record kvm = kmem +
  etext :: u64
  trampoline :: u64
  uservec :: u64
  userret :: u64
  forkret_addr :: u64
  usertrap_addr :: u64
  kernelvec :: u64
  kernel_pagetable :: u64
  satp :: "nat \<Rightarrow> u64"

record ptable = kvm +
  procs :: "nat \<Rightarrow> proc"
  nextpid :: int
  initproc :: "nat option"
  ticks :: u32
  starvation_counter :: int

definition upd_proc :: "nat \<Rightarrow> (proc \<Rightarrow> proc) \<Rightarrow> 'a ptable_scheme \<Rightarrow> 'a ptable_scheme" where
  "upd_proc i f s = s\<lparr>procs := (procs s)(i := f (procs s i))\<rparr>"

text \<open>Reading and writing a word of a process's trap frame.\<close>

definition tf_get :: "nat \<Rightarrow> tfreg \<Rightarrow> 'a ptable_scheme \<Rightarrow> u64" where
  "tf_get i r s = load64 (mem s) (trapframe (procs s i) + tf_off r)"

definition tf_set :: "nat \<Rightarrow> tfreg \<Rightarrow> u64 \<Rightarrow> 'a ptable_scheme \<Rightarrow> 'a ptable_scheme" where
  "tf_set i r v s = s\<lparr>mem := store64 (mem s) (trapframe (procs s i) + tf_off r) v\<rparr>"

lemma upd_proc_sel [simp]:
  "procs (upd_proc i f s) = (procs s)(i := f (procs s i))"
  "hart (upd_proc i f s) = hart s" "cpus (upd_proc i f s) = cpus s"
  "locks (upd_proc i f s) = locks s" "mem (upd_proc i f s) = mem s"
  "kend (upd_proc i f s) = kend s" "freelist (upd_proc i f s) = freelist s"
  "nextpid (upd_proc i f s) = nextpid s" "initproc (upd_proc i f s) = initproc s"
  "ticks (upd_proc i f s) = ticks s" "starvation_counter (upd_proc i f s) = starvation_counter s"
  by (simp_all add: upd_proc_def)

text \<open>Updates of fields of different layers of the state commute; the simplifier puts the lower
  layer first.\<close>

lemma upd_order_kmem [simp]:
  fixes s :: "'a kmem_scheme"
  shows
  "s\<lparr>freelist := xfreelist, hart := yhart\<rparr> = s\<lparr>hart := yhart, freelist := xfreelist\<rparr>"
  "s\<lparr>freelist := xfreelist, cpus := ycpus\<rparr> = s\<lparr>cpus := ycpus, freelist := xfreelist\<rparr>"
  "s\<lparr>freelist := xfreelist, locks := ylocks\<rparr> = s\<lparr>locks := ylocks, freelist := xfreelist\<rparr>"
  "s\<lparr>freelist := xfreelist, mem := ymem\<rparr> = s\<lparr>mem := ymem, freelist := xfreelist\<rparr>"
  by (cases s, simp)+

lemma upd_order_ptable [simp]:
  fixes s :: "'a ptable_scheme"
  shows
  "s\<lparr>procs := xprocs, hart := yhart\<rparr> = s\<lparr>hart := yhart, procs := xprocs\<rparr>"
  "s\<lparr>nextpid := xnextpid, hart := yhart\<rparr> = s\<lparr>hart := yhart, nextpid := xnextpid\<rparr>"
  "s\<lparr>initproc := xinitproc, hart := yhart\<rparr> = s\<lparr>hart := yhart, initproc := xinitproc\<rparr>"
  "s\<lparr>ticks := xticks, hart := yhart\<rparr> = s\<lparr>hart := yhart, ticks := xticks\<rparr>"
  "s\<lparr>starvation_counter := xstarvation_counter, hart := yhart\<rparr> = s\<lparr>hart := yhart, starvation_counter := xstarvation_counter\<rparr>"
  "s\<lparr>procs := xprocs, cpus := ycpus\<rparr> = s\<lparr>cpus := ycpus, procs := xprocs\<rparr>"
  "s\<lparr>nextpid := xnextpid, cpus := ycpus\<rparr> = s\<lparr>cpus := ycpus, nextpid := xnextpid\<rparr>"
  "s\<lparr>initproc := xinitproc, cpus := ycpus\<rparr> = s\<lparr>cpus := ycpus, initproc := xinitproc\<rparr>"
  "s\<lparr>ticks := xticks, cpus := ycpus\<rparr> = s\<lparr>cpus := ycpus, ticks := xticks\<rparr>"
  "s\<lparr>starvation_counter := xstarvation_counter, cpus := ycpus\<rparr> = s\<lparr>cpus := ycpus, starvation_counter := xstarvation_counter\<rparr>"
  "s\<lparr>procs := xprocs, locks := ylocks\<rparr> = s\<lparr>locks := ylocks, procs := xprocs\<rparr>"
  "s\<lparr>nextpid := xnextpid, locks := ylocks\<rparr> = s\<lparr>locks := ylocks, nextpid := xnextpid\<rparr>"
  "s\<lparr>initproc := xinitproc, locks := ylocks\<rparr> = s\<lparr>locks := ylocks, initproc := xinitproc\<rparr>"
  "s\<lparr>ticks := xticks, locks := ylocks\<rparr> = s\<lparr>locks := ylocks, ticks := xticks\<rparr>"
  "s\<lparr>starvation_counter := xstarvation_counter, locks := ylocks\<rparr> = s\<lparr>locks := ylocks, starvation_counter := xstarvation_counter\<rparr>"
  "s\<lparr>procs := xprocs, mem := ymem\<rparr> = s\<lparr>mem := ymem, procs := xprocs\<rparr>"
  "s\<lparr>nextpid := xnextpid, mem := ymem\<rparr> = s\<lparr>mem := ymem, nextpid := xnextpid\<rparr>"
  "s\<lparr>initproc := xinitproc, mem := ymem\<rparr> = s\<lparr>mem := ymem, initproc := xinitproc\<rparr>"
  "s\<lparr>ticks := xticks, mem := ymem\<rparr> = s\<lparr>mem := ymem, ticks := xticks\<rparr>"
  "s\<lparr>starvation_counter := xstarvation_counter, mem := ymem\<rparr> = s\<lparr>mem := ymem, starvation_counter := xstarvation_counter\<rparr>"
  "s\<lparr>procs := xprocs, freelist := yfreelist\<rparr> = s\<lparr>freelist := yfreelist, procs := xprocs\<rparr>"
  "s\<lparr>nextpid := xnextpid, freelist := yfreelist\<rparr> = s\<lparr>freelist := yfreelist, nextpid := xnextpid\<rparr>"
  "s\<lparr>initproc := xinitproc, freelist := yfreelist\<rparr> = s\<lparr>freelist := yfreelist, initproc := xinitproc\<rparr>"
  "s\<lparr>ticks := xticks, freelist := yfreelist\<rparr> = s\<lparr>freelist := yfreelist, ticks := xticks\<rparr>"
  "s\<lparr>starvation_counter := xstarvation_counter, freelist := yfreelist\<rparr> = s\<lparr>freelist := yfreelist, starvation_counter := xstarvation_counter\<rparr>"
  by (cases s, simp)+

text \<open>A state of a machine at rest, for the examples: every lock free, no process, harts in the
  scheduler, and the sixteen pages below \<open>PHYSTOP\<close> as the memory above the kernel.\<close>

definition no_proc :: proc where
  "no_proc = \<lparr>pstate = UNUSED, pchan = None, pkilled = False, xstate = 0, pid = 0, parent = None,
     kstack = 0, psz = 0, pagetable = 0, trapframe = 0,
     pcontext = \<lparr>ctx_ra = 0, ctx_sp = 0, ctx_s = (\<lambda>_. 0)\<rparr>, ofile = (\<lambda>_. None), cwd = None,
     pname = replicate 16 0, priority = 0, timeslice = 0, timeslice_used = 0, cpu_ticks = 0,
     sched_count = 0, yielded_io = False, start_time = 0, end_time = 0, first_run = 0,
     total_wait = 0, last_scheduled = 0\<rparr>"

definition at_rest :: ptable where
  "at_rest = \<lparr>hart = 0, cpus = (\<lambda>_. \<lparr>cproc = None, noff = 0, intena = False, sie = False\<rparr>),
     locks = (\<lambda>_. \<lparr>locked = False, lname = [], lcpu = None\<rparr>), mem = (\<lambda>_. 0),
     kend = PHYSTOP - 65536, freelist = 0,
     etext = KERNBASE + 32768, trampoline = KERNBASE + 28672, uservec = KERNBASE + 28672,
     userret = KERNBASE + 28828, forkret_addr = KERNBASE + 8192, usertrap_addr = KERNBASE + 12288,
     kernelvec = KERNBASE + 16384, kernel_pagetable = 0, satp = (\<lambda>_. 0),
     procs = (\<lambda>_. no_proc), nextpid = 1, initproc = None, ticks = 0, starvation_counter = 0\<rparr>"

lemma at_rest_sel [simp]:
  "hart at_rest = 0" "cpus at_rest h = \<lparr>cproc = None, noff = 0, intena = False, sie = False\<rparr>"
  "locks at_rest l = \<lparr>locked = False, lname = [], lcpu = None\<rparr>" "procs at_rest p = no_proc"
  "kend at_rest = PHYSTOP - 65536" "freelist at_rest = 0" "ticks at_rest = 0"
  "starvation_counter at_rest = 0" "nextpid at_rest = 1" "initproc at_rest = None"
  by (simp_all add: at_rest_def)

end
