(* ===== verification/Vm.thy ===== *)
theory Vm
  imports Procdef
begin

text \<open>
  Virtual memory, \<^verbatim>\<open>kernel/vm.c\<close>: Sv39 page tables in physical memory. A page table is the
  address of its root page, a PTE the 64-bit word at its address; the model reads and writes
  them in the same byte memory the allocator threads its list through.
\<close>

section \<open>Definitions\<close>

definition PTE_V :: u64 where "PTE_V = 1"
definition PTE_R :: u64 where "PTE_R = 2"
definition PTE_W :: u64 where "PTE_W = 4"
definition PTE_X :: u64 where "PTE_X = 8"
definition PTE_U :: u64 where "PTE_U = 16"

definition PA2PTE :: "u64 \<Rightarrow> u64" where
  "PA2PTE pa = push_bit 10 (drop_bit 12 pa)"

definition PTE2PA :: "u64 \<Rightarrow> u64" where
  "PTE2PA pte = push_bit 12 (drop_bit 10 pte)"

definition PTE_FLAGS :: "u64 \<Rightarrow> u64" where
  "PTE_FLAGS pte = pte AND 0x3FF"

definition PX :: "nat \<Rightarrow> u64 \<Rightarrow> u64" where
  "PX level va = drop_bit (12 + 9 * level) va AND 0x1FF"

definition MAXVA :: u64 where
  "MAXVA = push_bit (9 + 9 + 9 + 12 - 1) 1"

definition TRAMPOLINE :: u64 where
  "TRAMPOLINE = MAXVA - PGSIZE"

definition TRAPFRAME :: u64 where
  "TRAPFRAME = TRAMPOLINE - PGSIZE"

definition KSTACK :: "nat \<Rightarrow> u64" where
  "KSTACK p = TRAMPOLINE - (of_nat p + 1) * 2 * PGSIZE"

definition MAKE_SATP :: "u64 \<Rightarrow> u64" where
  "MAKE_SATP pt = push_bit 60 8 OR drop_bit 12 pt"

text \<open>\<open>&pagetable[i]\<close>.\<close>

definition pte_addr :: "u64 \<Rightarrow> u64 \<Rightarrow> u64" where
  "pte_addr pt i = pt + 8 * i"

text \<open>The loop of \<open>walk\<close> over the levels; a returned address of 0 is the null pointer.\<close>

primrec walk_loop :: "nat \<Rightarrow> u64 \<Rightarrow> u64 \<Rightarrow> bool \<Rightarrow> 'a kmem_scheme \<Rightarrow> (u64 \<times> 'a kmem_scheme) option" where
  "walk_loop 0 pt va alloc s = Some (pte_addr pt (PX 0 va), s)"
| "walk_loop (Suc l) pt va alloc s =
     (let pte = pte_addr pt (PX (Suc l) va); v = load64 (mem s) pte
      in if v AND PTE_V \<noteq> 0 then walk_loop l (PTE2PA v) va alloc s
         else if \<not> alloc then Some (0, s)
         else do {
           (pt', s) \<leftarrow> kalloc s;
           if pt' = 0 then Some (0, s)
           else do {
             let s = s\<lparr>mem := memset (mem s) pt' 0 (ucast PGSIZE)\<rparr>;
             let s = s\<lparr>mem := store64 (mem s) pte (PA2PTE pt' OR PTE_V)\<rparr>;
             walk_loop l pt' va alloc s
           }
         })"

definition walk :: "u64 \<Rightarrow> u64 \<Rightarrow> bool \<Rightarrow> 'a kmem_scheme \<Rightarrow> (u64 \<times> 'a kmem_scheme) option" where
  "walk pt va alloc s = (if va \<ge> MAXVA then None else walk_loop 2 pt va alloc s)"

definition walkaddr :: "u64 \<Rightarrow> u64 \<Rightarrow> 'a kmem_scheme \<Rightarrow> (u64 \<times> 'a kmem_scheme) option" where
  "walkaddr pt va s =
     (if va \<ge> MAXVA then Some (0, s)
      else do {
        (pte, s) \<leftarrow> walk pt va False s;
        if pte = 0 then Some (0, s)
        else if load64 (mem s) pte AND PTE_V = 0 then Some (0, s)
        else if load64 (mem s) pte AND PTE_U = 0 then Some (0, s)
        else Some (PTE2PA (load64 (mem s) pte), s)
      })"

lemma walk_below: "walk pt va alloc s = Some r \<Longrightarrow> va < MAXVA"
  by (auto simp: walk_def split: if_splits)

lemma MAXVA_step: "a < MAXVA \<Longrightarrow> unat MAXVA - unat (a + PGSIZE) < unat MAXVA - unat a"
proof -
  assume "a < MAXVA"
  moreover have m: "MAXVA = 274877906944" by (simp add: MAXVA_def)
  ultimately have "unat a < 274877906944" unfolding m by (simp add: word_less_nat_alt)
  then show ?thesis unfolding m by (simp add: PGSIZE_def unat_word_ariths)
qed

function mappages_loop :: "u64 \<Rightarrow> u64 \<Rightarrow> u64 \<Rightarrow> u64 \<Rightarrow> u64 \<Rightarrow> 'a kmem_scheme \<Rightarrow>
    (int \<times> 'a kmem_scheme) option" where
  "mappages_loop pt a lst pa perm s = do {
     (pte, s) \<leftarrow> walk pt a True s;
     if pte = 0 then Some (-1, s)
     else if load64 (mem s) pte AND PTE_V \<noteq> 0 then None
     else do {
       let s = s\<lparr>mem := store64 (mem s) pte (PA2PTE pa OR perm OR PTE_V)\<rparr>;
       if a = lst then Some (0, s)
       else mappages_loop pt (a + PGSIZE) lst (pa + PGSIZE) perm s
     }
   }"
  by pat_completeness auto
termination
  by (relation "measure (\<lambda>(pt, a, _). unat MAXVA - unat a)")
    (auto intro: MAXVA_step dest: walk_below)

declare mappages_loop.simps [simp del]

definition mappages :: "u64 \<Rightarrow> u64 \<Rightarrow> u64 \<Rightarrow> u64 \<Rightarrow> u64 \<Rightarrow> 'a kmem_scheme \<Rightarrow>
    (int \<times> 'a kmem_scheme) option" where
  "mappages pt va sz pa perm s =
     (if va mod PGSIZE \<noteq> 0 then None
      else if sz mod PGSIZE \<noteq> 0 then None
      else if sz = 0 then None
      else mappages_loop pt va (va + sz - PGSIZE) pa perm s)"

definition uvmcreate :: "'a kmem_scheme \<Rightarrow> (u64 \<times> 'a kmem_scheme) option" where
  "uvmcreate s = do {
     (pt, s) \<leftarrow> kalloc s;
     if pt = 0 then Some (0, s)
     else Some (pt, s\<lparr>mem := memset (mem s) pt 0 (ucast PGSIZE)\<rparr>)
   }"

function uvmunmap_loop :: "u64 \<Rightarrow> u64 \<Rightarrow> u64 \<Rightarrow> bool \<Rightarrow> 'a kmem_scheme \<Rightarrow> 'a kmem_scheme option" where
  "uvmunmap_loop pt a fin do_free s =
     (if a < fin then do {
        (pte, s) \<leftarrow> walk pt a False s;
        if pte = 0 then uvmunmap_loop pt (a + PGSIZE) fin do_free s
        else if load64 (mem s) pte AND PTE_V = 0 then uvmunmap_loop pt (a + PGSIZE) fin do_free s
        else do {
          s \<leftarrow> (if do_free then kfree (PTE2PA (load64 (mem s) pte)) s else Some s);
          let s = s\<lparr>mem := store64 (mem s) pte 0\<rparr>;
          uvmunmap_loop pt (a + PGSIZE) fin do_free s
        }
      } else Some s)"
  by pat_completeness auto
termination
  by (relation "measure (\<lambda>(pt, a, _). unat MAXVA - unat a)")
    (auto intro: MAXVA_step dest: walk_below)

declare uvmunmap_loop.simps [simp del]

definition uvmunmap :: "u64 \<Rightarrow> u64 \<Rightarrow> u64 \<Rightarrow> bool \<Rightarrow> 'a kmem_scheme \<Rightarrow> 'a kmem_scheme option" where
  "uvmunmap pt va npages do_free s =
     (if va mod PGSIZE \<noteq> 0 then None
      else uvmunmap_loop pt va (va + npages * PGSIZE) do_free s)"

definition uvmdealloc :: "u64 \<Rightarrow> u64 \<Rightarrow> u64 \<Rightarrow> 'a kmem_scheme \<Rightarrow> (u64 \<times> 'a kmem_scheme) option" where
  "uvmdealloc pt oldsz newsz s =
     (if newsz \<ge> oldsz then Some (oldsz, s)
      else do {
        s \<leftarrow> (if PGROUNDUP newsz < PGROUNDUP oldsz
              then let npages = (ucast ((PGROUNDUP oldsz - PGROUNDUP newsz) div PGSIZE) :: u32)
                   in uvmunmap pt (PGROUNDUP newsz) (scast npages) True s
              else Some s);
        Some (newsz, s)
      })"

lemma mappages_below: "mappages pt va sz pa perm s = Some r \<Longrightarrow> va < MAXVA"
  by (auto simp: mappages_def mappages_loop.simps dest: walk_below split: if_splits bind_splits)

lemma mappages_above: "\<not> va < MAXVA \<Longrightarrow> mappages pt va sz pa perm s = None"
  using mappages_below [of pt va sz pa perm s] by (cases "mappages pt va sz pa perm s") auto

function uvmalloc_loop :: "u64 \<Rightarrow> u64 \<Rightarrow> u64 \<Rightarrow> u64 \<Rightarrow> u64 \<Rightarrow> 'a kmem_scheme \<Rightarrow>
    (u64 \<times> 'a kmem_scheme) option" where
  "uvmalloc_loop pt a oldsz newsz xperm s =
     (if a < newsz then do {
        (m, s) \<leftarrow> kalloc s;
        if m = 0 then do { (_, s) \<leftarrow> uvmdealloc pt a oldsz s; Some (0, s) }
        else do {
          let s = s\<lparr>mem := memset (mem s) m 0 (ucast PGSIZE)\<rparr>;
          (r, s) \<leftarrow> mappages pt a PGSIZE m (PTE_R OR PTE_U OR xperm) s;
          if r \<noteq> 0 then do {
            s \<leftarrow> kfree m s;
            (_, s) \<leftarrow> uvmdealloc pt a oldsz s;
            Some (0, s)
          } else uvmalloc_loop pt (a + PGSIZE) oldsz newsz xperm s
        }
      } else Some (newsz, s))"
  by pat_completeness auto
termination
  by (relation "measure (\<lambda>(pt, a, _). unat MAXVA - unat a)")
    (auto intro: MAXVA_step dest: mappages_below)

declare uvmalloc_loop.simps [simp del]

definition uvmalloc :: "u64 \<Rightarrow> u64 \<Rightarrow> u64 \<Rightarrow> u64 \<Rightarrow> 'a kmem_scheme \<Rightarrow> (u64 \<times> 'a kmem_scheme) option" where
  "uvmalloc pt oldsz newsz xperm s =
     (if newsz < oldsz then Some (oldsz, s)
      else uvmalloc_loop pt (PGROUNDUP oldsz) (PGROUNDUP oldsz) newsz xperm s)"

text \<open>\<open>freewalk\<close> follows the pointers it finds; a page table with a cycle would keep it going
  for ever, which is the value \<open>None\<close> here. The second argument is the loop's \<open>i\<close>.\<close>

partial_function (option) freewalk_at :: "u64 \<Rightarrow> nat \<Rightarrow> 'a kmem_scheme \<Rightarrow> 'a kmem_scheme option" where
  "freewalk_at pt i s =
     (if i < 512 then
        let a = pte_addr pt (of_nat i); pte = load64 (mem s) a
        in if pte AND PTE_V \<noteq> 0 \<and> pte AND (PTE_R OR PTE_W OR PTE_X) = 0 then do {
             s \<leftarrow> freewalk_at (PTE2PA pte) 0 s;
             freewalk_at pt (i + 1) (s\<lparr>mem := store64 (mem s) a 0\<rparr>)
           }
           else if pte AND PTE_V \<noteq> 0 then None
           else freewalk_at pt (i + 1) s
      else kfree pt s)"

definition freewalk :: "u64 \<Rightarrow> 'a kmem_scheme \<Rightarrow> 'a kmem_scheme option" where
  "freewalk pt s = freewalk_at pt 0 s"

definition uvmfree :: "u64 \<Rightarrow> u64 \<Rightarrow> 'a kmem_scheme \<Rightarrow> 'a kmem_scheme option" where
  "uvmfree pt sz s = do {
     s \<leftarrow> (if sz > 0 then uvmunmap pt 0 (PGROUNDUP sz div PGSIZE) True s else Some s);
     freewalk pt s
   }"

function uvmcopy_loop :: "u64 \<Rightarrow> u64 \<Rightarrow> u64 \<Rightarrow> u64 \<Rightarrow> 'a kmem_scheme \<Rightarrow> (int \<times> 'a kmem_scheme) option" where
  "uvmcopy_loop old new i sz s =
     (if i < sz then do {
        (pte, s) \<leftarrow> walk old i False s;
        if pte = 0 then uvmcopy_loop old new (i + PGSIZE) sz s
        else if load64 (mem s) pte AND PTE_V = 0 then uvmcopy_loop old new (i + PGSIZE) sz s
        else do {
          let pa = PTE2PA (load64 (mem s) pte);
          let flags = PTE_FLAGS (load64 (mem s) pte);
          (m, s) \<leftarrow> kalloc s;
          if m = 0 then do { s \<leftarrow> uvmunmap new 0 (i div PGSIZE) True s; Some (-1, s) }
          else do {
            let s = s\<lparr>mem := memmove (mem s) m pa (ucast PGSIZE)\<rparr>;
            (r, s) \<leftarrow> mappages new i PGSIZE m flags s;
            if r \<noteq> 0 then do {
              s \<leftarrow> kfree m s;
              s \<leftarrow> uvmunmap new 0 (i div PGSIZE) True s;
              Some (-1, s)
            } else uvmcopy_loop old new (i + PGSIZE) sz s
          }
        }
      } else Some (0, s))"
  by pat_completeness auto
termination
  by (relation "measure (\<lambda>(old, new, i, _). unat MAXVA - unat i)")
    (auto intro: MAXVA_step dest: walk_below)

declare uvmcopy_loop.simps [simp del]

definition uvmcopy :: "u64 \<Rightarrow> u64 \<Rightarrow> u64 \<Rightarrow> 'a kmem_scheme \<Rightarrow> (int \<times> 'a kmem_scheme) option" where
  "uvmcopy old new sz s = uvmcopy_loop old new 0 sz s"

definition uvmclear :: "u64 \<Rightarrow> u64 \<Rightarrow> 'a kmem_scheme \<Rightarrow> 'a kmem_scheme option" where
  "uvmclear pt va s = do {
     (pte, s) \<leftarrow> walk pt va False s;
     if pte = 0 then None
     else Some (s\<lparr>mem := store64 (mem s) pte (load64 (mem s) pte AND NOT PTE_U)\<rparr>)
   }"

definition ismapped :: "u64 \<Rightarrow> u64 \<Rightarrow> 'a kmem_scheme \<Rightarrow> (bool \<times> 'a kmem_scheme) option" where
  "ismapped pt va s = do {
     (pte, s) \<leftarrow> walk pt va False s;
     if pte = 0 then Some (False, s)
     else if load64 (mem s) pte AND PTE_V \<noteq> 0 then Some (True, s)
     else Some (False, s)
   }"

text \<open>A hart that runs no process has no \<open>p->sz\<close>: following the null pointer traps.\<close>

definition vmfault :: "u64 \<Rightarrow> u64 \<Rightarrow> bool \<Rightarrow> 'a ptable_scheme \<Rightarrow> (u64 \<times> 'a ptable_scheme) option" where
  "vmfault pt va rd s = do {
     (p, s) \<leftarrow> myproc s;
     p \<leftarrow> deref p;
     if va \<ge> psz (procs s p) then Some (0, s)
     else do {
       let va = PGROUNDDOWN va;
       (b, s) \<leftarrow> ismapped pt va s;
       if b then Some (0, s)
       else do {
         (m, s) \<leftarrow> kalloc s;
         if m = 0 then Some (0, s)
         else do {
           let s = s\<lparr>mem := memset (mem s) m 0 (ucast PGSIZE)\<rparr>;
           (r, s) \<leftarrow> mappages (pagetable (procs s p)) va PGSIZE m (PTE_W OR PTE_U OR PTE_R) s;
           if r \<noteq> 0 then do { s \<leftarrow> kfree m s; Some (0, s) }
           else Some (m, s)
         }
       }
     }
   }"

text \<open>The kernel object that is copied out is the list of its bytes; \<open>len\<close> is its length.\<close>

lemma page_rest_pos: "unat (PGSIZE - (va - PGROUNDDOWN va)) \<noteq> 0"
proof -
  have d: "va - PGROUNDDOWN va = take_bit 12 va"
    by (simp add: PGROUNDDOWN_def page_mask)
  have "unat (take_bit 12 va) < 4096"
    by (simp add: take_bit_eq_mod unat_mod)
  then have "take_bit 12 va < PGSIZE"
    by (simp add: word_less_nat_alt PGSIZE_def del: take_bit_eq_mod)
  then show ?thesis unfolding d by (simp add: unat_eq_0)
qed

lemma page_rest_step:
  "0 < len \<Longrightarrow> len - min (unat (PGSIZE - (va - PGROUNDDOWN va))) len < len"
proof -
  assume "0 < len"
  moreover have "0 < unat (PGSIZE - (va - PGROUNDDOWN va))" using page_rest_pos [of va] by linarith
  ultimately show ?thesis by linarith
qed

function copyout :: "u64 \<Rightarrow> u64 \<Rightarrow> bytes \<Rightarrow> 'a ptable_scheme \<Rightarrow> (int \<times> 'a ptable_scheme) option" where
  "copyout pt dstva src s =
     (if 0 < length src then
        let va0 = PGROUNDDOWN dstva
        in if va0 \<ge> MAXVA then Some (-1, s)
           else do {
             (pa0, s) \<leftarrow> walkaddr pt va0 s;
             (pa0, s) \<leftarrow> (if pa0 = 0 then vmfault pt va0 False s else Some (pa0, s));
             if pa0 = 0 then Some (-1, s)
             else do {
               (pte, s) \<leftarrow> walk pt va0 False s;
               if pte = 0 then None
               else if load64 (mem s) pte AND PTE_W = 0 then Some (-1, s)
               else do {
                 let n = min (unat (PGSIZE - (dstva - va0))) (length src);
                 let s = s\<lparr>mem := store_bytes (mem s) (pa0 + (dstva - va0)) (take n src)\<rparr>;
                 copyout pt (va0 + PGSIZE) (drop n src) s
               }
             }
           }
      else Some (0, s))"
  by pat_completeness auto
termination
  by (relation "measure (\<lambda>(pt, a, src, _). length src)")
    (auto intro: page_rest_step)

declare copyout.simps [simp del]

text \<open>\<open>copyin\<close> returns the bytes it moves to its destination; \<open>acc\<close> are those copied so far.\<close>

function copyin_loop :: "u64 \<Rightarrow> bytes \<Rightarrow> u64 \<Rightarrow> nat \<Rightarrow> 'a ptable_scheme \<Rightarrow>
    (int \<times> bytes \<times> 'a ptable_scheme) option" where
  "copyin_loop pt acc srcva len s =
     (if 0 < len then do {
        let va0 = PGROUNDDOWN srcva;
        (pa0, s) \<leftarrow> walkaddr pt va0 s;
        (pa0, s) \<leftarrow> (if pa0 = 0 then vmfault pt va0 False s else Some (pa0, s));
        if pa0 = 0 then Some (-1, acc, s)
        else do {
          let n = min (unat (PGSIZE - (srcva - va0))) len;
          copyin_loop pt (acc @ load_bytes (mem s) (pa0 + (srcva - va0)) n) (va0 + PGSIZE) (len - n) s
        }
      } else Some (0, acc, s))"
  by pat_completeness auto
termination
  by (relation "measure (\<lambda>(pt, acc, a, len, _). len)")
    (auto intro: page_rest_step)

declare copyin_loop.simps [simp del]

definition copyin :: "u64 \<Rightarrow> u64 \<Rightarrow> nat \<Rightarrow> 'a ptable_scheme \<Rightarrow> (int \<times> bytes \<times> 'a ptable_scheme) option" where
  "copyin pt srcva len s = copyin_loop pt [] srcva len s"

text \<open>The inner loop of \<open>copyinstr\<close>: the bytes at \<open>p\<close> up to \<open>n\<close>, and whether a nul ended it.\<close>

primrec copyinstr_page :: "memory \<Rightarrow> u64 \<Rightarrow> nat \<Rightarrow> bytes \<Rightarrow> bytes \<times> bool" where
  "copyinstr_page m p 0 acc = (acc, False)"
| "copyinstr_page m p (Suc n) acc =
     (if m p = 0 then (acc @ [0], True) else copyinstr_page m (p + 1) n (acc @ [m p]))"

function copyinstr_loop :: "u64 \<Rightarrow> bytes \<Rightarrow> u64 \<Rightarrow> nat \<Rightarrow> 'a ptable_scheme \<Rightarrow>
    (int \<times> bytes \<times> 'a ptable_scheme) option" where
  "copyinstr_loop pt acc srcva mx s =
     (if 0 < mx then do {
        let va0 = PGROUNDDOWN srcva;
        (pa0, s) \<leftarrow> walkaddr pt va0 s;
        if pa0 = 0 then Some (-1, acc, s)
        else do {
          let n = min (unat (PGSIZE - (srcva - va0))) mx;
          let (acc, got_null) = copyinstr_page (mem s) (pa0 + (srcva - va0)) n acc;
          if got_null then Some (0, acc, s)
          else copyinstr_loop pt acc (va0 + PGSIZE) (mx - n) s
        }
      } else Some (-1, acc, s))"
  by pat_completeness auto
termination
  by (relation "measure (\<lambda>(pt, acc, a, mx, _). mx)")
    (auto intro: page_rest_step)

declare copyinstr_loop.simps [simp del]

definition copyinstr :: "u64 \<Rightarrow> u64 \<Rightarrow> nat \<Rightarrow> 'a ptable_scheme \<Rightarrow> (int \<times> bytes \<times> 'a ptable_scheme) option" where
  "copyinstr pt srcva mx s = copyinstr_loop pt [] srcva mx s"

text \<open>The kernel's own page table. \<open>kvmmap\<close> panics when \<open>mappages\<close> fails.\<close>

definition UART0 :: u64 where "UART0 = 0x10000000"
definition VIRTIO0 :: u64 where "VIRTIO0 = 0x10001000"
definition PLIC :: u64 where "PLIC = 0x0c000000"

definition kvmmap :: "u64 \<Rightarrow> u64 \<Rightarrow> u64 \<Rightarrow> u64 \<Rightarrow> u64 \<Rightarrow> 'a kmem_scheme \<Rightarrow> 'a kmem_scheme option" where
  "kvmmap kpgtbl va pa sz perm s = do {
     (r, s) \<leftarrow> mappages kpgtbl va sz pa perm s;
     if r \<noteq> 0 then None else Some s
   }"

primrec proc_mapstacks_loop :: "nat list \<Rightarrow> u64 \<Rightarrow> 'a kmem_scheme \<Rightarrow> 'a kmem_scheme option" where
  "proc_mapstacks_loop [] kpgtbl s = Some s"
| "proc_mapstacks_loop (p # ps) kpgtbl s = do {
     (pa, s) \<leftarrow> kalloc s;
     if pa = 0 then None
     else do {
       s \<leftarrow> kvmmap kpgtbl (KSTACK p) pa PGSIZE (PTE_R OR PTE_W) s;
       proc_mapstacks_loop ps kpgtbl s
     }
   }"

definition proc_mapstacks :: "u64 \<Rightarrow> 'a kmem_scheme \<Rightarrow> 'a kmem_scheme option" where
  "proc_mapstacks kpgtbl s = proc_mapstacks_loop [0..<NPROC] kpgtbl s"

definition kvmmake :: "'a kvm_scheme \<Rightarrow> (u64 \<times> 'a kvm_scheme) option" where
  "kvmmake s = do {
     (kpgtbl, s) \<leftarrow> kalloc s;
     let s = s\<lparr>mem := memset (mem s) kpgtbl 0 (ucast PGSIZE)\<rparr>;
     s \<leftarrow> kvmmap kpgtbl UART0 UART0 PGSIZE (PTE_R OR PTE_W) s;
     s \<leftarrow> kvmmap kpgtbl VIRTIO0 VIRTIO0 PGSIZE (PTE_R OR PTE_W) s;
     s \<leftarrow> kvmmap kpgtbl PLIC PLIC 0x4000000 (PTE_R OR PTE_W) s;
     s \<leftarrow> kvmmap kpgtbl KERNBASE KERNBASE (etext s - KERNBASE) (PTE_R OR PTE_X) s;
     s \<leftarrow> kvmmap kpgtbl (etext s) (etext s) (PHYSTOP - etext s) (PTE_R OR PTE_W) s;
     s \<leftarrow> kvmmap kpgtbl TRAMPOLINE (trampoline s) PGSIZE (PTE_R OR PTE_X) s;
     s \<leftarrow> proc_mapstacks kpgtbl s;
     Some (kpgtbl, s)
   }"

definition kvminit :: "'a kvm_scheme \<Rightarrow> 'a kvm_scheme option" where
  "kvminit s = do { (pt, s) \<leftarrow> kvmmake s; Some (s\<lparr>kernel_pagetable := pt\<rparr>) }"

definition kvminithart :: "'a kvm_scheme \<Rightarrow> 'a kvm_scheme" where
  "kvminithart s = s\<lparr>satp := (satp s)(hart s := MAKE_SATP (kernel_pagetable s))\<rparr>"

lemmas pte_defs [kdefs] = PTE_V_def PTE_R_def PTE_W_def PTE_X_def PTE_U_def

section \<open>What the memory operations leave alone\<close>

named_theorems kf \<open>frames of calls\<close>

text \<open>Allocation and page-table code changes memory and the free list only: it takes the \<open>kmem\<close>
  lock and gives it back, and leaves the rest of the kernel's state alone.\<close>

definition kframe :: "'a kmem_scheme \<Rightarrow> 'a kmem_scheme \<Rightarrow> bool" where
  "kframe s t \<longleftrightarrow> hart t = hart s \<and> kend t = kend s \<and> kmem.more t = kmem.more s \<and>
     (\<forall>h. cproc (cpus t h) = cproc (cpus s h)) \<and>
     (free_lock (locks s KmemLock) \<and> intr_ok s \<longrightarrow>
        locks t = locks s \<and> (cpus t = cpus s \<or> cpus t = settled s))"

lemma kframe_refl [simp]: "kframe s s"
  by (simp add: kframe_def)

lemma kframe_trans [trans]: "kframe s t \<Longrightarrow> kframe t u \<Longrightarrow> kframe s u"
  by (auto simp: kframe_def)

lemma kframe_mem [simp]: "kframe s (t\<lparr>mem := m\<rparr>) = kframe s t" "kframe (s\<lparr>mem := m\<rparr>) t = kframe s t"
  by (simp_all add: kframe_def)

lemma kframe_kalloc: "kalloc s = Some (p, t) \<Longrightarrow> kframe s t"
proof -
  assume k: "kalloc s = Some (p, t)"
  have "locks t = locks s \<and> (cpus t = cpus s \<or> cpus t = settled s)"
    if "free_lock (locks s KmemLock)" "intr_ok s"
    using kalloc_eq [OF that] k by (auto simp: after_kalloc_def split: if_splits)
  with k show ?thesis
    by (auto simp: kalloc_def acquire_def release_def push_off_eq pop_off_def holding_def cpu_defs
        kframe_def Let_def split: if_splits)
qed

lemma kframe_kfree: "kfree p s = Some t \<Longrightarrow> kframe s t"
proof -
  assume k: "kfree p s = Some t"
  have "valid_page s p" using kfree_None [of s p] k by auto
  then have "locks t = locks s \<and> (cpus t = cpus s \<or> cpus t = settled s)"
    if "free_lock (locks s KmemLock)" "intr_ok s"
    using kfree_eq [OF _ that, of p] k by (auto simp: after_kfree_def)
  with k show ?thesis
    by (auto simp: kfree_def acquire_def release_def push_off_eq pop_off_def holding_def cpu_defs
        kframe_def Let_def split: if_splits)
qed

lemma kframe_myproc: "myproc s = Some (p, t) \<Longrightarrow> kframe s t \<and> p = cproc (cpus s (hart s))"
proof -
  assume k: "myproc s = Some (p, t)"
  have "locks t = locks s \<and> (cpus t = cpus s \<or> cpus t = settled s)" if "intr_ok s"
    using myproc_eq [OF that] k by auto
  with k show ?thesis
    by (auto simp: myproc_def push_off_eq pop_off_def cpu_defs kframe_def Let_def split: if_splits)
qed

text \<open>The rules below add the frame of one more call to that of the calls before it.\<close>

lemma kf_kalloc [kf]: "kframe s0 s \<Longrightarrow> post (kalloc s) (\<lambda>(p, t). kframe s0 t)"
  by (auto simp: post_def intro: kframe_trans kframe_kalloc)

lemma kf_kfree [kf]: "kframe s0 s \<Longrightarrow> post (kfree p s) (\<lambda>t. kframe s0 t)"
  by (auto simp: post_def intro: kframe_trans kframe_kfree)

lemma kf_myproc [kf]:
  "kframe s0 s \<Longrightarrow> post (myproc s) (\<lambda>(p, t). kframe s0 t \<and> p = cproc (cpus s0 (hart s0)))"
proof -
  assume f: "kframe s0 s"
  then have c: "cproc (cpus s (hart s)) = cproc (cpus s0 (hart s0))" by (simp add: kframe_def)
  show ?thesis
  proof (rule postI)
    fix r assume "myproc s = Some r"
    with kframe_myproc [of s "fst r" "snd r"] have "kframe s (snd r)" "fst r = cproc (cpus s (hart s))"
      by auto
    with f c show "case r of (p, t) \<Rightarrow> kframe s0 t \<and> p = cproc (cpus s0 (hart s0))"
      by (auto simp: case_prod_beta intro: kframe_trans)
  qed
qed

lemma kf_walk_loop [kf]: "kframe s0 s \<Longrightarrow> post (walk_loop l pt va al s) (\<lambda>(a, t). kframe s0 t)"
proof (induction l arbitrary: pt s)
  case 0
  then show ?case by (auto intro!: vcg)
next
  case (Suc l)
  then show ?case unfolding walk_loop.simps by (auto intro!: vcg kf Suc.IH)
qed

lemma kf_walk [kf]: "kframe s0 s \<Longrightarrow> post (walk pt va al s) (\<lambda>(a, t). kframe s0 t)"
  unfolding walk_def by (auto intro!: vcg kf)

lemma kf_walkaddr [kf]: "kframe s0 s \<Longrightarrow> post (walkaddr pt va s) (\<lambda>(a, t). kframe s0 t)"
  unfolding walkaddr_def by (auto intro!: vcg kf)

lemma kf_ismapped [kf]: "kframe s0 s \<Longrightarrow> post (ismapped pt va s) (\<lambda>(a, t). kframe s0 t)"
  unfolding ismapped_def by (auto intro!: vcg kf)

lemma kf_mappages_loop [kf]: "kframe s0 s \<Longrightarrow> post (mappages_loop pt a l pa perm s) (\<lambda>(r, t). kframe s0 t)"
proof (induction pt a l pa perm s rule: mappages_loop.induct)
  case (1 pt a l pa perm s)
  from "1.prems" show ?case
    by (subst mappages_loop.simps) (auto intro!: vcg kf intro: "1.IH")
qed

lemma kf_mappages [kf]: "kframe s0 s \<Longrightarrow> post (mappages pt va sz pa perm s) (\<lambda>(r, t). kframe s0 t)"
  unfolding mappages_def by (auto intro!: vcg kf)

lemma kf_uvmcreate [kf]: "kframe s0 s \<Longrightarrow> post (uvmcreate s) (\<lambda>(r, t). kframe s0 t)"
  unfolding uvmcreate_def by (auto intro!: vcg kf)

lemma kf_uvmunmap_loop [kf]: "kframe s0 s \<Longrightarrow> post (uvmunmap_loop pt a e f s) (\<lambda>t. kframe s0 t)"
proof (induction "unat MAXVA - unat a" arbitrary: a s rule: less_induct)
  case less
  show ?case
  proof (cases "a < MAXVA")
    case True
    have ih: "kframe s0 s' \<Longrightarrow> post (uvmunmap_loop pt (a + PGSIZE) e f s') (\<lambda>t. kframe s0 t)" for s'
      using less.hyps MAXVA_step [OF True] by blast
    show ?thesis
      using less.prems by (subst uvmunmap_loop.simps) (auto intro!: vcg kf ih)
  next
    case False
    then show ?thesis
      using less.prems by (subst uvmunmap_loop.simps) (auto simp: walk_def mappages_above intro!: vcg kf)
  qed
qed

lemma kf_uvmunmap [kf]: "kframe s0 s \<Longrightarrow> post (uvmunmap pt va n f s) (\<lambda>t. kframe s0 t)"
  unfolding uvmunmap_def by (auto intro!: vcg kf)

lemma kf_uvmdealloc [kf]: "kframe s0 s \<Longrightarrow> post (uvmdealloc pt a b s) (\<lambda>(r, t). kframe s0 t)"
  unfolding uvmdealloc_def by (auto intro!: vcg kf)

lemma kf_uvmalloc_loop [kf]: "kframe s0 s \<Longrightarrow> post (uvmalloc_loop pt a b c x s) (\<lambda>(r, t). kframe s0 t)"
proof (induction pt a b c x s rule: uvmalloc_loop.induct)
  case (1 pt a b c x s)
  from "1.prems" show ?case
    by (subst uvmalloc_loop.simps) (auto intro!: vcg kf intro: "1.IH")
qed

lemma kf_uvmalloc [kf]: "kframe s0 s \<Longrightarrow> post (uvmalloc pt a b x s) (\<lambda>(r, t). kframe s0 t)"
  unfolding uvmalloc_def by (auto intro!: vcg kf)

lemma kframe_freewalk_at:
  fixes s t :: "'a kmem_scheme"
  assumes "freewalk_at pt i s = Some t"
  shows "kframe s t"
proof (rule freewalk_at.raw_induct [of "\<lambda>pt i s t. kframe s t", OF _ assms])
  fix fw :: "u64 \<Rightarrow> nat \<Rightarrow> 'a kmem_scheme \<Rightarrow> 'a kmem_scheme option"
  fix pt i and s t :: "'a kmem_scheme"
  assume fw: "\<And>pt i s t. fw pt i s = Some t \<Longrightarrow> kframe s t"
  have ih: "kframe s0 s \<Longrightarrow> post (fw pt i s) (\<lambda>t. kframe s0 t)" for s0 s :: "'a kmem_scheme" and pt i
    by (rule postI) (blast intro: kframe_trans fw)
  assume body: "(if i < 512 then
        let a = pte_addr pt (of_nat i); pte = load64 (mem s) a
        in if pte AND PTE_V \<noteq> 0 \<and> pte AND (PTE_R OR PTE_W OR PTE_X) = 0
           then fw (PTE2PA pte) 0 s \<bind> (\<lambda>s. fw pt (i + 1) (s\<lparr>mem := store64 (mem s) a 0\<rparr>))
           else if pte AND PTE_V \<noteq> 0 then None else fw pt (i + 1) s
      else kfree pt s) = Some t"
  have "kframe s0 s \<Longrightarrow> kframe s0 t" for s0
    by (rule postD [OF _ body]) (auto intro!: vcg kf ih)
  then show "kframe s t" by simp
qed

lemma kf_freewalk [kf]: "kframe s0 s \<Longrightarrow> post (freewalk pt s) (\<lambda>t. kframe s0 t)"
  by (auto simp: freewalk_def post_def intro: kframe_trans kframe_freewalk_at)

lemma kf_uvmfree [kf]: "kframe s0 s \<Longrightarrow> post (uvmfree pt sz s) (\<lambda>t. kframe s0 t)"
  unfolding uvmfree_def by (auto intro!: vcg kf)

lemma kf_uvmcopy_loop [kf]: "kframe s0 s \<Longrightarrow> post (uvmcopy_loop old new i sz s) (\<lambda>(r, t). kframe s0 t)"
proof (induction "unat MAXVA - unat i" arbitrary: i s rule: less_induct)
  case less
  show ?case
  proof (cases "i < MAXVA")
    case True
    have ih: "kframe s0 s' \<Longrightarrow> post (uvmcopy_loop old new (i + PGSIZE) sz s') (\<lambda>(r, t). kframe s0 t)" for s'
      using less.hyps MAXVA_step [OF True] by blast
    show ?thesis
      using less.prems by (subst uvmcopy_loop.simps) (auto intro!: vcg kf ih)
  next
    case False
    then show ?thesis
      using less.prems by (subst uvmcopy_loop.simps) (auto simp: walk_def mappages_above intro!: vcg kf)
  qed
qed

lemma kf_uvmcopy [kf]: "kframe s0 s \<Longrightarrow> post (uvmcopy old new sz s) (\<lambda>(r, t). kframe s0 t)"
  unfolding uvmcopy_def by (auto intro!: vcg kf)

lemma kf_uvmclear [kf]: "kframe s0 s \<Longrightarrow> post (uvmclear pt va s) (\<lambda>t. kframe s0 t)"
  unfolding uvmclear_def by (auto intro!: vcg kf)

lemma kf_vmfault [kf]: "kframe s0 s \<Longrightarrow> post (vmfault pt va rd s) (\<lambda>(r, t). kframe s0 t)"
  unfolding vmfault_def by (auto intro!: vcg kf)

lemma kf_copyout [kf]: "kframe s0 s \<Longrightarrow> post (copyout pt a src s) (\<lambda>(r, t). kframe s0 t)"
proof (induction "length src" arbitrary: a src s rule: less_induct)
  case less
  have ih: "src \<noteq> [] \<Longrightarrow> kframe s0 s' \<Longrightarrow> post (copyout pt (PGROUNDDOWN a + PGSIZE) (drop (min (unat (PGSIZE - (a - PGROUNDDOWN a))) (length src)) src) s') (\<lambda>(r, t). kframe s0 t)" for s'
    by (rule less.hyps) (use page_rest_step [of "length src" a] in simp_all)
  show ?case
    using less.prems by (subst copyout.simps) (auto intro!: vcg kf ih)
qed

lemma kf_copyin_loop [kf]: "kframe s0 s \<Longrightarrow> post (copyin_loop pt acc a n s) (\<lambda>(r, bs, t). kframe s0 t)"
proof (induction n arbitrary: acc a s rule: less_induct)
  case (less n)
  have ih: "0 < n \<Longrightarrow> kframe s0 s' \<Longrightarrow> post (copyin_loop pt acc' (PGROUNDDOWN a + PGSIZE) (n - min (unat (PGSIZE - (a - PGROUNDDOWN a))) n) s') (\<lambda>(r, bs, t). kframe s0 t)" for s' acc'
    by (rule less.IH) (use page_rest_step [of "n" a] in simp_all)
  show ?case
    using less.prems by (subst copyin_loop.simps) (auto intro!: vcg kf ih)
qed

lemma kf_copyin [kf]: "kframe s0 s \<Longrightarrow> post (copyin pt a n s) (\<lambda>(r, bs, t). kframe s0 t)"
  unfolding copyin_def by (auto intro!: vcg kf)

lemma kf_copyinstr_loop [kf]: "kframe s0 s \<Longrightarrow> post (copyinstr_loop pt acc a n s) (\<lambda>(r, bs, t). kframe s0 t)"
proof (induction n arbitrary: acc a s rule: less_induct)
  case (less n)
  have ih: "0 < n \<Longrightarrow> kframe s0 s' \<Longrightarrow> post (copyinstr_loop pt acc' (PGROUNDDOWN a + PGSIZE) (n - min (unat (PGSIZE - (a - PGROUNDDOWN a))) n) s') (\<lambda>(r, bs, t). kframe s0 t)" for s' acc'
    by (rule less.IH) (use page_rest_step [of "n" a] in simp_all)
  show ?case
    using less.prems by (subst copyinstr_loop.simps) (auto intro!: vcg kf ih)
qed

lemma kf_copyinstr [kf]: "kframe s0 s \<Longrightarrow> post (copyinstr pt a n s) (\<lambda>(r, bs, t). kframe s0 t)"
  unfolding copyinstr_def by (auto intro!: vcg kf)

lemma kframe_ptable:
  fixes s t :: "'a ptable_scheme"
  assumes "kframe s t"
  shows "procs t = procs s" "nextpid t = nextpid s" "initproc t = initproc s" "ticks t = ticks s"
    "starvation_counter t = starvation_counter s" "ptable.more t = ptable.more s"
    "kernel_pagetable t = kernel_pagetable s" "trampoline t = trampoline s"
  using assms by (cases s, cases t, simp add: kframe_def)+

lemma bal_kframe:
  assumes "bal s0 A s" and "kframe s t" and "KmemLock \<notin> A" and "free_lock (locks s0 KmemLock)"
  shows "bal s0 A t"
proof -
  have "intr_ok s" by (rule bal_intr_ok [OF assms(1)])
  moreover have "free_lock (locks s KmemLock)"
    using assms(1,3,4) by (simp add: bal_def takes_def)
  ultimately have t: "hart t = hart s" "locks t = locks s" "cpus t = cpus s \<or> cpus t = settled s"
    using assms(2) by (auto simp: kframe_def)
  from t(3) show ?thesis
  proof
    assume "cpus t = cpus s"
    with bal_cong [OF assms(1)] t show ?thesis by simp
  next
    assume "cpus t = settled s"
    with bal_cong [OF bal_settled [OF assms(1)], of t] t show ?thesis by simp
  qed
qed

end
