(* ===== verification/Proc.thy ===== *)
theory Proc
  imports Vm
begin

text \<open>
  Processes and the MLFQ scheduler, \<^verbatim>\<open>kernel/proc.c\<close>. The functions that touch the file
  system (\<open>kfork\<close>, \<open>kexit\<close>, \<open>userinit\<close>, \<open>forkret\<close>) are in a later theory.

  \<open>swtch\<close> hands the hart to another thread, so each function that calls it is two functions
  here: what it does before the switch (its name with \<open>_enter\<close>), and what it does when the
  thread is resumed (\<open>_exit\<close>), which gets the local variables of the first part as arguments.
  The scheduler thread is cut at the same place.
\<close>

section \<open>MLFQ helpers\<close>

definition get_timeslice :: "int \<Rightarrow> int" where
  "get_timeslice pr =
     (if pr = MLFQ_HIGH then TIMESLICE_HIGH
      else if pr = MLFQ_MEDIUM then TIMESLICE_MEDIUM
      else if pr = MLFQ_LOW then TIMESLICE_LOW
      else TIMESLICE_LOW)"

definition init_mlfq_proc :: "nat \<Rightarrow> 'a ptable_scheme \<Rightarrow> 'a ptable_scheme" where
  "init_mlfq_proc p s = upd_proc p (\<lambda>q. q\<lparr>
     priority := MLFQ_HIGH,
     timeslice := get_timeslice MLFQ_HIGH,
     timeslice_used := 0,
     cpu_ticks := 0,
     sched_count := 0,
     yielded_io := False,
     start_time := ucast (ticks s),
     end_time := 0,
     first_run := 0,
     total_wait := 0,
     last_scheduled := ucast (ticks s)\<rparr>) s"

definition boost_proc :: "proc \<Rightarrow> proc" where
  "boost_proc q =
     (if pstate q = RUNNABLE \<or> pstate q = RUNNING
      then q\<lparr>priority := MLFQ_HIGH, timeslice := get_timeslice MLFQ_HIGH, timeslice_used := 0\<rparr>
      else q)"

primrec boost_loop :: "nat list \<Rightarrow> 'a ptable_scheme \<Rightarrow> 'a ptable_scheme" where
  "boost_loop [] s = s"
| "boost_loop (p # ps) s = boost_loop ps (upd_proc p boost_proc s)"

definition boost_all_priorities :: "'a ptable_scheme \<Rightarrow> 'a ptable_scheme" where
  "boost_all_priorities s = boost_loop [0..<NPROC] s"

section \<open>The process table\<close>

primrec procinit_loop :: "nat list \<Rightarrow> 'a ptable_scheme \<Rightarrow> 'a ptable_scheme" where
  "procinit_loop [] s = s"
| "procinit_loop (p # ps) s =
     (let s = initlock (ProcLock p) ''proc'' s
      in procinit_loop ps (upd_proc p (\<lambda>q. q\<lparr>pstate := UNUSED, kstack := KSTACK p\<rparr>) s))"

definition procinit :: "'a ptable_scheme \<Rightarrow> 'a ptable_scheme" where
  "procinit s =
     (let s = initlock PidLock ''nextpid'' s;
          s = initlock WaitLock ''wait_lock'' s
      in procinit_loop [0..<NPROC] s)"

definition allocpid :: "'a ptable_scheme \<Rightarrow> (int \<times> 'a ptable_scheme) option" where
  "allocpid s = do {
     s \<leftarrow> acquire PidLock s;
     let pd = nextpid s;
     let s = s\<lparr>nextpid := nextpid s + 1\<rparr>;
     s \<leftarrow> release PidLock s;
     Some (pd, s)
   }"

definition proc_pagetable :: "nat \<Rightarrow> 'a ptable_scheme \<Rightarrow> (u64 \<times> 'a ptable_scheme) option" where
  "proc_pagetable p s = do {
     (pt, s) \<leftarrow> uvmcreate s;
     if pt = 0 then Some (0, s)
     else do {
       (r, s) \<leftarrow> mappages pt TRAMPOLINE PGSIZE (trampoline s) (PTE_R OR PTE_X) s;
       if r < 0 then do { s \<leftarrow> uvmfree pt 0 s; Some (0, s) }
       else do {
         (r, s) \<leftarrow> mappages pt TRAPFRAME PGSIZE (trapframe (procs s p)) (PTE_R OR PTE_W) s;
         if r < 0 then do {
           s \<leftarrow> uvmunmap pt TRAMPOLINE 1 False s;
           s \<leftarrow> uvmfree pt 0 s;
           Some (0, s)
         } else Some (pt, s)
       }
     }
   }"

definition proc_freepagetable :: "u64 \<Rightarrow> u64 \<Rightarrow> 'a kmem_scheme \<Rightarrow> 'a kmem_scheme option" where
  "proc_freepagetable pt sz s = do {
     s \<leftarrow> uvmunmap pt TRAMPOLINE 1 False s;
     s \<leftarrow> uvmunmap pt TRAPFRAME 1 False s;
     uvmfree pt sz s
   }"

definition freeproc :: "nat \<Rightarrow> 'a ptable_scheme \<Rightarrow> 'a ptable_scheme option" where
  "freeproc p s = do {
     s \<leftarrow> (if trapframe (procs s p) \<noteq> 0 then kfree (trapframe (procs s p)) s else Some s);
     let s = upd_proc p (\<lambda>q. q\<lparr>trapframe := 0\<rparr>) s;
     s \<leftarrow> (if pagetable (procs s p) \<noteq> 0
           then proc_freepagetable (pagetable (procs s p)) (psz (procs s p)) s else Some s);
     Some (upd_proc p (\<lambda>q. q\<lparr>pagetable := 0, psz := 0, pid := 0, parent := None,
       pname := (pname q)[0 := 0], pchan := None, pkilled := False, xstate := 0,
       pstate := UNUSED\<rparr>) s)
   }"

primrec allocproc_scan :: "nat list \<Rightarrow> 'a ptable_scheme \<Rightarrow> (nat option \<times> 'a ptable_scheme) option" where
  "allocproc_scan [] s = Some (None, s)"
| "allocproc_scan (p # ps) s = do {
     s \<leftarrow> acquire (ProcLock p) s;
     if pstate (procs s p) = UNUSED then Some (Some p, s)
     else do { s \<leftarrow> release (ProcLock p) s; allocproc_scan ps s }
   }"

text \<open>The code after the label \<open>found\<close>.\<close>

definition allocproc_found :: "nat \<Rightarrow> 'a ptable_scheme \<Rightarrow> (nat option \<times> 'a ptable_scheme) option" where
  "allocproc_found p s = do {
     (pd, s) \<leftarrow> allocpid s;
     let s = upd_proc p (\<lambda>q. q\<lparr>pid := pd, pstate := USED\<rparr>) s;
     let s = init_mlfq_proc p s;
     (tf, s) \<leftarrow> kalloc s;
     let s = upd_proc p (\<lambda>q. q\<lparr>trapframe := tf\<rparr>) s;
     if tf = 0 then do {
       s \<leftarrow> freeproc p s;
       s \<leftarrow> release (ProcLock p) s;
       Some (None, s)
     } else do {
       (pt, s) \<leftarrow> proc_pagetable p s;
       let s = upd_proc p (\<lambda>q. q\<lparr>pagetable := pt\<rparr>) s;
       if pt = 0 then do {
         s \<leftarrow> freeproc p s;
         s \<leftarrow> release (ProcLock p) s;
         Some (None, s)
       } else
         Some (Some p, upd_proc p (\<lambda>q. q\<lparr>pcontext :=
           \<lparr>ctx_ra = forkret_addr s, ctx_sp = kstack q + PGSIZE, ctx_s = (\<lambda>_. 0)\<rparr>\<rparr>) s)
     }
   }"

definition allocproc :: "'a ptable_scheme \<Rightarrow> (nat option \<times> 'a ptable_scheme) option" where
  "allocproc s = do {
     (p, s) \<leftarrow> allocproc_scan [0..<NPROC] s;
     case p of None \<Rightarrow> Some (None, s) | Some p \<Rightarrow> allocproc_found p s
   }"

text \<open>\<open>n\<close> is an \<open>int\<close>; in \<open>sz + n\<close> it is sign-extended.\<close>

definition growproc :: "int \<Rightarrow> 'a ptable_scheme \<Rightarrow> (int \<times> 'a ptable_scheme) option" where
  "growproc n s = do {
     (p, s) \<leftarrow> myproc s;
     p \<leftarrow> deref p;
     let sz = psz (procs s p);
     if n > 0 then
       if sz + word_of_int n > TRAPFRAME then Some (-1, s)
       else do {
         (sz, s) \<leftarrow> uvmalloc (pagetable (procs s p)) sz (sz + word_of_int n) PTE_W s;
         if sz = 0 then Some (-1, s)
         else Some (0, upd_proc p (\<lambda>q. q\<lparr>psz := sz\<rparr>) s)
       }
     else if n < 0 then do {
       (sz, s) \<leftarrow> uvmdealloc (pagetable (procs s p)) sz (sz + word_of_int n) s;
       Some (0, upd_proc p (\<lambda>q. q\<lparr>psz := sz\<rparr>) s)
     }
     else Some (0, upd_proc p (\<lambda>q. q\<lparr>psz := sz\<rparr>) s)
   }"

section \<open>Scheduling\<close>

text \<open>The body of the scheduler's two loops at a process whose lock it has just taken and that it
  has chosen, up to \<open>swtch\<close>.\<close>

definition dispatch :: "nat \<Rightarrow> 'a ptable_scheme \<Rightarrow> 'a ptable_scheme" where
  "dispatch p s =
     (let s = upd_proc p (\<lambda>q. q\<lparr>pstate := RUNNING\<rparr>) s;
          s = upd_mycpu (\<lambda>c. c\<lparr>cproc := Some p\<rparr>) s;
          s = upd_proc p (\<lambda>q. q\<lparr>sched_count := sched_count q + 1\<rparr>) s;
          s = upd_proc p (\<lambda>q. if first_run q = 0 then q\<lparr>first_run := ucast (ticks s)\<rparr> else q) s
      in upd_proc p (\<lambda>q. q\<lparr>total_wait := total_wait q + (ucast (ticks s) - last_scheduled q)\<rparr>) s)"

text \<open>The inner loop, over the processes; the outer loop, over the priorities. They end with the
  chosen process and its lock held, or with no process when nothing is runnable.\<close>

definition scan_one :: "int \<Rightarrow> nat \<Rightarrow> 'a ptable_scheme \<Rightarrow> (bool \<times> 'a ptable_scheme) option" where
  "scan_one pr p s = do {
     s \<leftarrow> acquire (ProcLock p) s;
     if pstate (procs s p) = RUNNABLE \<and> priority (procs s p) = pr then Some (True, dispatch p s)
     else do { s \<leftarrow> release (ProcLock p) s; Some (False, s) }
   }"

primrec scan_procs :: "int \<Rightarrow> nat list \<Rightarrow> 'a ptable_scheme \<Rightarrow> (nat option \<times> 'a ptable_scheme) option" where
  "scan_procs pr [] s = Some (None, s)"
| "scan_procs pr (p # ps) s = do {
     (found, s) \<leftarrow> scan_one pr p s;
     if found then Some (Some p, s) else scan_procs pr ps s
   }"

primrec scan_levels :: "int list \<Rightarrow> 'a ptable_scheme \<Rightarrow> (nat option \<times> 'a ptable_scheme) option" where
  "scan_levels [] s = Some (None, s)"
| "scan_levels (pr # prs) s = do {
     (r, s) \<leftarrow> scan_procs pr [0..<NPROC] s;
     case r of Some p \<Rightarrow> Some (Some p, s) | None \<Rightarrow> scan_levels prs s
   }"

definition scheduler_enter :: "'a ptable_scheme \<Rightarrow> (nat option \<times> 'a ptable_scheme) option" where
  "scheduler_enter s =
     (let s = intr_on s; s = intr_off s
      in scan_levels [MLFQ_HIGH..MLFQ_LOW] s)"

text \<open>The rest of the loop body, after the process has switched back.\<close>

definition scheduler_exit :: "nat \<Rightarrow> 'a ptable_scheme \<Rightarrow> 'a ptable_scheme option" where
  "scheduler_exit p s =
     (let s = upd_proc p (\<lambda>q. q\<lparr>last_scheduled := ucast (ticks s)\<rparr>) s;
          s = upd_mycpu (\<lambda>c. c\<lparr>cproc := None\<rparr>) s
      in release (ProcLock p) s)"

definition sched_enter :: "'a ptable_scheme \<Rightarrow> (bool \<times> 'a ptable_scheme) option" where
  "sched_enter s = do {
     (p, s) \<leftarrow> myproc s;
     p \<leftarrow> deref p;
     if \<not> holding (ProcLock p) s then None
     else if noff (mycpu s) \<noteq> 1 then None
     else if pstate (procs s p) = RUNNING then None
     else if intr_get s then None
     else Some (intena (mycpu s), s)
   }"

definition sched_exit :: "bool \<Rightarrow> 'a machine_scheme \<Rightarrow> 'a machine_scheme" where
  "sched_exit ie s = upd_mycpu (\<lambda>c. c\<lparr>intena := ie\<rparr>) s"

definition yield_enter :: "'a ptable_scheme \<Rightarrow> ((nat \<times> bool) \<times> 'a ptable_scheme) option" where
  "yield_enter s = do {
     (p, s) \<leftarrow> myproc s;
     p \<leftarrow> deref p;
     s \<leftarrow> acquire (ProcLock p) s;
     let s = upd_proc p (\<lambda>q. if pstate q = RUNNING then q\<lparr>yielded_io := True\<rparr> else q) s;
     let s = upd_proc p (\<lambda>q. q\<lparr>pstate := RUNNABLE\<rparr>) s;
     (ie, s) \<leftarrow> sched_enter s;
     Some ((p, ie), s)
   }"

definition yield_exit :: "nat \<times> bool \<Rightarrow> 'a machine_scheme \<Rightarrow> 'a machine_scheme option" where
  "yield_exit l s = (case l of (p, ie) \<Rightarrow> release (ProcLock p) (sched_exit ie s))"

definition STARVATION_THRESHOLD :: int where
  "STARVATION_THRESHOLD = 200"

text \<open>What a timer tick does to the fields of the running process.\<close>

definition tick_proc :: "proc \<Rightarrow> proc" where
  "tick_proc q =
     (let q = q\<lparr>cpu_ticks := cpu_ticks q + 1\<rparr>;
          q = q\<lparr>timeslice_used := timeslice_used q + 1\<rparr>
      in if timeslice_used q \<ge> timeslice q
         then let q = (if priority q < MLFQ_LOW
                       then let q = q\<lparr>priority := priority q + 1\<rparr>
                            in q\<lparr>timeslice := get_timeslice (priority q)\<rparr>
                       else q);
                  q = q\<lparr>yielded_io := False\<rparr>;
                  q = q\<lparr>timeslice_used := 0\<rparr>
              in q\<lparr>pstate := RUNNABLE\<rparr>
         else q)"

definition mlfq_tick :: "'a ptable_scheme \<Rightarrow> 'a ptable_scheme option" where
  "mlfq_tick s = do {
     (p, s) \<leftarrow> myproc s;
     let s = s\<lparr>starvation_counter := starvation_counter s + 1\<rparr>;
     let s = (if starvation_counter s \<ge> STARVATION_THRESHOLD
              then (boost_all_priorities s)\<lparr>starvation_counter := 0\<rparr> else s);
     case p of
       None \<Rightarrow> Some s
     | Some p \<Rightarrow> Some (if pstate (procs s p) = RUNNING then upd_proc p tick_proc s else s)
   }"

section \<open>Sleep and wakeup\<close>

definition sleep_enter :: "chan \<Rightarrow> lockid \<Rightarrow> 'a ptable_scheme \<Rightarrow>
    ((nat \<times> bool) \<times> 'a ptable_scheme) option" where
  "sleep_enter ch lk s = do {
     (p, s) \<leftarrow> myproc s;
     p \<leftarrow> deref p;
     s \<leftarrow> acquire (ProcLock p) s;
     s \<leftarrow> release lk s;
     let s = upd_proc p (\<lambda>q. q\<lparr>pchan := Some ch, pstate := SLEEPING\<rparr>) s;
     (ie, s) \<leftarrow> sched_enter s;
     Some ((p, ie), s)
   }"

definition sleep_exit :: "nat \<times> bool \<Rightarrow> lockid \<Rightarrow> 'a ptable_scheme \<Rightarrow> 'a ptable_scheme option" where
  "sleep_exit l lk s = (case l of (p, ie) \<Rightarrow> do {
     let s = sched_exit ie s;
     let s = upd_proc p (\<lambda>q. q\<lparr>pchan := None\<rparr>) s;
     s \<leftarrow> release (ProcLock p) s;
     acquire lk s
   })"

primrec wakeup_loop :: "chan option \<Rightarrow> nat list \<Rightarrow> 'a ptable_scheme \<Rightarrow> 'a ptable_scheme option" where
  "wakeup_loop ch [] s = Some s"
| "wakeup_loop ch (p # ps) s = do {
     (me, s) \<leftarrow> myproc s;
     if Some p \<noteq> me then do {
       s \<leftarrow> acquire (ProcLock p) s;
       let s = upd_proc p (\<lambda>q. if pstate q = SLEEPING \<and> pchan q = ch
                                  then q\<lparr>pstate := RUNNABLE\<rparr> else q) s;
       s \<leftarrow> release (ProcLock p) s;
       wakeup_loop ch ps s
     } else wakeup_loop ch ps s
   }"

definition wakeup :: "chan option \<Rightarrow> 'a ptable_scheme \<Rightarrow> 'a ptable_scheme option" where
  "wakeup ch s = wakeup_loop ch [0..<NPROC] s"

primrec kkill_loop :: "int \<Rightarrow> nat list \<Rightarrow> 'a ptable_scheme \<Rightarrow> (int \<times> 'a ptable_scheme) option" where
  "kkill_loop pd [] s = Some (-1, s)"
| "kkill_loop pd (p # ps) s = do {
     s \<leftarrow> acquire (ProcLock p) s;
     if pid (procs s p) = pd then do {
       let s = upd_proc p (\<lambda>q. q\<lparr>pkilled := True\<rparr>) s;
       let s = upd_proc p (\<lambda>q. if pstate q = SLEEPING then q\<lparr>pstate := RUNNABLE\<rparr> else q) s;
       s \<leftarrow> release (ProcLock p) s;
       Some (0, s)
     } else do { s \<leftarrow> release (ProcLock p) s; kkill_loop pd ps s }
   }"

definition kkill :: "int \<Rightarrow> 'a ptable_scheme \<Rightarrow> (int \<times> 'a ptable_scheme) option" where
  "kkill pd s = kkill_loop pd [0..<NPROC] s"

definition setkilled :: "nat \<Rightarrow> 'a ptable_scheme \<Rightarrow> 'a ptable_scheme option" where
  "setkilled p s = do {
     s \<leftarrow> acquire (ProcLock p) s;
     let s = upd_proc p (\<lambda>q. q\<lparr>pkilled := True\<rparr>) s;
     release (ProcLock p) s
   }"

definition killed :: "nat \<Rightarrow> 'a ptable_scheme \<Rightarrow> (bool \<times> 'a ptable_scheme) option" where
  "killed p s = do {
     s \<leftarrow> acquire (ProcLock p) s;
     let k = pkilled (procs s p);
     s \<leftarrow> release (ProcLock p) s;
     Some (k, s)
   }"

primrec reparent_loop :: "nat \<Rightarrow> nat list \<Rightarrow> 'a ptable_scheme \<Rightarrow> 'a ptable_scheme option" where
  "reparent_loop p [] s = Some s"
| "reparent_loop p (pp # pps) s =
     (if parent (procs s pp) = Some p
      then do {
        let s = upd_proc pp (\<lambda>q. q\<lparr>parent := initproc s\<rparr>) s;
        s \<leftarrow> wakeup (map_option ChanProc (initproc s)) s;
        reparent_loop p pps s
      }
      else reparent_loop p pps s)"

definition reparent :: "nat \<Rightarrow> 'a ptable_scheme \<Rightarrow> 'a ptable_scheme option" where
  "reparent p s = reparent_loop p [0..<NPROC] s"

section \<open>The end of fork and exit\<close>

text \<open>The last part of \<open>kfork\<close>, once the child is built: it is called with the child's lock held,
  records the parent and makes the child runnable.\<close>

definition kfork_publish :: "nat \<Rightarrow> nat \<Rightarrow> 'a ptable_scheme \<Rightarrow> (int \<times> 'a ptable_scheme) option" where
  "kfork_publish p np s = do {
     let pd = pid (procs s np);
     s \<leftarrow> release (ProcLock np) s;
     s \<leftarrow> acquire WaitLock s;
     let s = upd_proc np (\<lambda>q. q\<lparr>parent := Some p\<rparr>) s;
     s \<leftarrow> release WaitLock s;
     s \<leftarrow> acquire (ProcLock np) s;
     let s = upd_proc np (\<lambda>q. q\<lparr>pstate := RUNNABLE\<rparr>) s;
     s \<leftarrow> release (ProcLock np) s;
     Some (pd, s)
   }"

text \<open>The last part of \<open>kexit\<close>, after the files are closed. A switch to the scheduler ends it.\<close>

definition kexit_final :: "nat \<Rightarrow> int \<Rightarrow> 'a ptable_scheme \<Rightarrow> (bool \<times> 'a ptable_scheme) option" where
  "kexit_final p status s = do {
     s \<leftarrow> acquire WaitLock s;
     s \<leftarrow> reparent p s;
     s \<leftarrow> wakeup (map_option ChanProc (parent (procs s p))) s;
     s \<leftarrow> acquire (ProcLock p) s;
     let s = upd_proc p (\<lambda>q. q\<lparr>xstate := status, pstate := ZOMBIE, end_time := ucast (ticks s)\<rparr>) s;
     s \<leftarrow> release WaitLock s;
     sched_enter s
   }"

section \<open>Waiting for a child\<close>

text \<open>One scan of \<open>kwait\<close>: the first child in the table that has exited, or whether there are
  children. A found child is held locked.\<close>

primrec kwait_scan :: "nat \<Rightarrow> nat list \<Rightarrow> bool \<Rightarrow> 'a ptable_scheme \<Rightarrow>
    (nat option \<times> bool \<times> 'a ptable_scheme) option" where
  "kwait_scan p [] havekids s = Some (None, havekids, s)"
| "kwait_scan p (pp # pps) havekids s =
     (if parent (procs s pp) = Some p then do {
        s \<leftarrow> acquire (ProcLock pp) s;
        if pstate (procs s pp) = ZOMBIE then Some (Some pp, True, s)
        else do { s \<leftarrow> release (ProcLock pp) s; kwait_scan p pps True s }
      } else kwait_scan p pps havekids s)"

datatype 'r resumable = Done 'r | Asleep "nat \<times> bool"

text \<open>One round of \<open>kwait\<close>'s loop, entered with \<open>wait_lock\<close> held: it returns, or it sleeps.\<close>

definition kwait_round :: "nat \<Rightarrow> u64 \<Rightarrow> 'a ptable_scheme \<Rightarrow> (int resumable \<times> 'a ptable_scheme) option" where
  "kwait_round p addr s = do {
     (z, havekids, s) \<leftarrow> kwait_scan p [0..<NPROC] False s;
     case z of
       Some pp \<Rightarrow> do {
         let pd = pid (procs s pp);
         (r, s) \<leftarrow> (if addr \<noteq> 0
                    then copyout (pagetable (procs s p)) addr
                           (le_bytes 4 (word_of_int (xstate (procs s pp)) :: u32)) s
                    else Some (0, s));
         if r < 0 then do {
           s \<leftarrow> release (ProcLock pp) s;
           s \<leftarrow> release WaitLock s;
           Some (Done (-1), s)
         } else do {
           s \<leftarrow> freeproc pp s;
           s \<leftarrow> release (ProcLock pp) s;
           s \<leftarrow> release WaitLock s;
           Some (Done pd, s)
         }
       }
     | None \<Rightarrow> do {
         (k, s) \<leftarrow> (if \<not> havekids then Some (True, s) else killed p s);
         if k then do { s \<leftarrow> release WaitLock s; Some (Done (-1), s) }
         else do { (l, s) \<leftarrow> sleep_enter (ChanProc p) WaitLock s; Some (Asleep l, s) }
       }
   }"

definition kwait_enter :: "u64 \<Rightarrow> 'a ptable_scheme \<Rightarrow> (nat \<times> int resumable \<times> 'a ptable_scheme) option" where
  "kwait_enter addr s = do {
     (p, s) \<leftarrow> myproc s;
     p \<leftarrow> deref p;
     s \<leftarrow> acquire WaitLock s;
     (r, s) \<leftarrow> kwait_round p addr s;
     Some (p, r, s)
   }"

definition kwait_resume :: "nat \<Rightarrow> u64 \<Rightarrow> nat \<times> bool \<Rightarrow> 'a ptable_scheme \<Rightarrow>
    (int resumable \<times> 'a ptable_scheme) option" where
  "kwait_resume p addr l s = do { s \<leftarrow> sleep_exit l WaitLock s; kwait_round p addr s }"

section \<open>Copying and process information\<close>

definition either_copyout :: "bool \<Rightarrow> u64 \<Rightarrow> bytes \<Rightarrow> 'a ptable_scheme \<Rightarrow> (int \<times> 'a ptable_scheme) option" where
  "either_copyout user_dst dst src s = do {
     (p, s) \<leftarrow> myproc s;
     if user_dst then do { p \<leftarrow> deref p; copyout (pagetable (procs s p)) dst src s }
     else Some (0, s\<lparr>mem := store_bytes (mem s) dst src\<rparr>)
   }"

definition either_copyin :: "bool \<Rightarrow> u64 \<Rightarrow> nat \<Rightarrow> 'a ptable_scheme \<Rightarrow>
    (int \<times> bytes \<times> 'a ptable_scheme) option" where
  "either_copyin user_src src len s = do {
     (p, s) \<leftarrow> myproc s;
     if user_src then do { p \<leftarrow> deref p; copyin (pagetable (procs s p)) src len s }
     else Some (0, load_bytes (mem s) src len, s)
   }"

text \<open>\<open>struct procinfo\<close> has four bytes of padding between its last \<open>int\<close> and its first
  \<open>uint64\<close>; \<open>getprocinfo\<close> does not write them, so they are what the stack held.\<close>

definition procinfo_bytes :: "proc \<Rightarrow> bytes \<Rightarrow> bytes" where
  "procinfo_bytes q pad =
     concat (map (\<lambda>i. le_bytes 4 (word_of_int i :: u32))
       [pid q, priority q, cpu_ticks q, sched_count q, timeslice_used q]) @
     pad @
     concat (map (le_bytes 8) [start_time q, end_time q, first_run q, total_wait q])"

primrec getprocinfo_loop :: "int \<Rightarrow> u64 \<Rightarrow> bytes \<Rightarrow> nat \<Rightarrow> nat list \<Rightarrow> 'a ptable_scheme \<Rightarrow>
    (int \<times> 'a ptable_scheme) option" where
  "getprocinfo_loop pd addr pad current [] s = Some (-1, s)"
| "getprocinfo_loop pd addr pad current (p # ps) s = do {
     s \<leftarrow> acquire (ProcLock p) s;
     if pid (procs s p) = pd \<and> pstate (procs s p) \<noteq> UNUSED then do {
       let info = procinfo_bytes (procs s p) pad;
       s \<leftarrow> release (ProcLock p) s;
       (r, s) \<leftarrow> copyout (pagetable (procs s current)) addr info s;
       if r < 0 then Some (-1, s) else Some (0, s)
     } else do {
       s \<leftarrow> release (ProcLock p) s;
       getprocinfo_loop pd addr pad current ps s
     }
   }"

definition getprocinfo :: "int \<Rightarrow> u64 \<Rightarrow> bytes \<Rightarrow> 'a ptable_scheme \<Rightarrow> (int \<times> 'a ptable_scheme) option" where
  "getprocinfo pd addr pad s = do {
     (current, s) \<leftarrow> myproc s;
     current \<leftarrow> deref current;
     getprocinfo_loop pd addr pad current [0..<NPROC] s
   }"

section \<open>Frames\<close>

lemma kf_proc_pagetable [kf]: "kframe s0 s \<Longrightarrow> post (proc_pagetable p s) (\<lambda>(r, t). kframe s0 t)"
  unfolding proc_pagetable_def by (auto intro!: vcg kf)

lemma kf_proc_freepagetable [kf]: "kframe s0 s \<Longrightarrow> post (proc_freepagetable pt sz s) (\<lambda>t. kframe s0 t)"
  unfolding proc_freepagetable_def by (auto intro!: vcg kf)

text \<open>Lock operations leave everything but the harts and the locks alone.\<close>

definition lframe :: "'a ptable_scheme \<Rightarrow> 'a ptable_scheme \<Rightarrow> bool" where
  "lframe s t \<longleftrightarrow> hart t = hart s \<and> kvm.more t = kvm.more s"

lemma kframe_lframe: "kframe s t \<Longrightarrow> lframe s t"
  by (cases s, cases t) (simp add: lframe_def kframe_def)

lemma lframe_lock:
  "post (acquire l s) (lframe s)" "post (release l s) (lframe s)"
  "post (myproc s) (\<lambda>(p, t). lframe s t)"
  by (auto simp: post_def lframe_def acquire_def release_def myproc_def push_off_eq pop_off_def cpu_defs
      Let_def split: if_splits)

lemma lframe_ptable:
  assumes "lframe s t"
  shows "procs t = procs s" "nextpid t = nextpid s" "initproc t = initproc s" "ticks t = ticks s"
    "starvation_counter t = starvation_counter s" "ptable.more t = ptable.more s"
  using assms by (cases s, cases t, simp add: lframe_def)+

section \<open>The choice of the scheduler\<close>

definition ready :: "(nat \<Rightarrow> proc) \<Rightarrow> int \<Rightarrow> nat \<Rightarrow> bool" where
  "ready ps pr p \<longleftrightarrow> pstate (ps p) = RUNNABLE \<and> priority (ps p) = pr"

text \<open>The process the two loops chosen, as a search without locks.\<close>

primrec chosen :: "(nat \<Rightarrow> proc) \<Rightarrow> int list \<Rightarrow> nat option" where
  "chosen ps [] = None"
| "chosen ps (pr # prs) =
     (case List.find (ready ps pr) [0..<NPROC] of Some p \<Rightarrow> Some p | None \<Rightarrow> chosen ps prs)"

lemma chosen_None: "chosen ps prs = None \<longleftrightarrow> (\<forall>pr\<in>set prs. \<forall>p<NPROC. \<not> ready ps pr p)"
  by (induction prs) (auto simp: find_upt_None find_upt_Some split: option.splits)

lemma chosen_Some:
  assumes "chosen ps prs = Some p" and "sorted prs"
  shows "p < NPROC \<and> pstate (ps p) = RUNNABLE \<and> priority (ps p) \<in> set prs \<and>
    (\<forall>q<NPROC. pstate (ps q) = RUNNABLE \<and> priority (ps q) \<in> set prs \<longrightarrow>
       priority (ps p) < priority (ps q) \<or> priority (ps p) = priority (ps q) \<and> p \<le> q)"
  using assms
proof (induction prs)
  case Nil
  then show ?case by simp
next
  case (Cons pr prs)
  show ?case
  proof (cases "List.find (ready ps pr) [0..<NPROC]")
    case None
    then have "\<forall>q<NPROC. \<not> ready ps pr q" by (simp add: find_upt_None)
    with Cons None show ?thesis by (auto simp: ready_def)
  next
    case (Some q)
    with Cons.prems have "p = q" by simp
    with Some have p: "p < NPROC" "ready ps pr p" "\<forall>j<p. \<not> ready ps pr j"
      by (auto simp: find_upt_Some)
    have "priority (ps p) < priority (ps q) \<or> priority (ps p) = priority (ps q) \<and> p \<le> q"
      if "pstate (ps q) = RUNNABLE" "priority (ps q) \<in> set (pr # prs)" for q
    proof (cases "priority (ps q) = pr")
      case True
      with that p show ?thesis by (metis not_le_imp_less ready_def)
    next
      case False
      with that Cons.prems(2) have "pr < priority (ps q)" by auto
      with p show ?thesis by (simp add: ready_def)
    qed
    with p show ?thesis by (simp add: ready_def)
  qed
qed

text \<open>A state in which this hart has just taken the lock of process \<open>p\<close>.\<close>

definition with_lock :: "lockid \<Rightarrow> 'a machine_scheme \<Rightarrow> 'a machine_scheme" where
  "with_lock l s = s\<lparr>cpus := pushed (hart s) (cpus s), locks := taken (hart s) l (locks s)\<rparr>"

lemma scan_one_eq:
  assumes "free_lock (locks s (ProcLock p))" and "intr_ok s"
  shows "scan_one pr p s = Some (if ready (procs s) pr p then (True, dispatch p (with_lock (ProcLock p) s))
    else (False, s\<lparr>cpus := settled s\<rparr>))"
proof -
  have "\<not> locked (locks s (ProcLock p))" using assms(1) by (simp add: free_lock_def)
  with assms show ?thesis
    by (simp add: scan_one_def acquire_free release_acquired ready_def with_lock_def)
qed

lemma scan_procs_eq:
  assumes "\<forall>p\<in>set ps. free_lock (locks s (ProcLock p))" and "intr_ok s"
  shows "scan_procs pr ps s = Some (case List.find (ready (procs s) pr) ps of
      None \<Rightarrow> (None, if ps = [] then s else s\<lparr>cpus := settled s\<rparr>)
    | Some p \<Rightarrow> (Some p, dispatch p (with_lock (ProcLock p) s)))"
  using assms
proof (induction ps arbitrary: s)
  case Nil
  then show ?case by simp
next
  case (Cons p ps)
  then show ?case
    by (auto simp: scan_one_eq with_lock_def split: option.splits)
qed

lemma scan_levels_eq:
  assumes "\<forall>p<NPROC. free_lock (locks s (ProcLock p))" and "intr_ok s"
  shows "scan_levels prs s = Some (case chosen (procs s) prs of
      None \<Rightarrow> (None, if prs = [] then s else s\<lparr>cpus := settled s\<rparr>)
    | Some p \<Rightarrow> (Some p, dispatch p (with_lock (ProcLock p) s)))"
  using assms
proof (induction prs arbitrary: s)
  case Nil
  then show ?case by simp
next
  case (Cons pr prs)
  have "[0..<NPROC] \<noteq> []" by (simp add: NPROC_def)
  with Cons show ?case
    by (auto simp: scan_procs_eq with_lock_def split: option.splits)
qed

lemma intr_toggle:
  "intr_off (intr_on s) = s\<lparr>cpus := (cpus s)(hart s := (cpus s (hart s))\<lparr>sie := False\<rparr>)\<rparr>"
  by (simp add: cpu_defs)

lemma scheduler_enter_eq:
  assumes "\<forall>p<NPROC. free_lock (locks s (ProcLock p))" and "noff (cpus s (hart s)) = 0"
    and "s' = s\<lparr>cpus := (cpus s)(hart s := (cpus s (hart s))\<lparr>sie := False\<rparr>)\<rparr>"
  shows "scheduler_enter s = Some (case chosen (procs s) [MLFQ_HIGH..MLFQ_LOW] of
      None \<Rightarrow> (None, s'\<lparr>cpus := settled s'\<rparr>)
    | Some p \<Rightarrow> (Some p, dispatch p (with_lock (ProcLock p) s')))"
proof -
  have "intr_ok s'" "[MLFQ_HIGH..MLFQ_LOW] \<noteq> []" "procs s' = procs s" "locks s' = locks s"
    using assms by (simp_all add: cpu_ok_def mlfq_defs)
  then show ?thesis
    using assms(1) by (simp add: scheduler_enter_def intr_toggle assms(3) [symmetric] scan_levels_eq)
qed

section \<open>Functional behaviour\<close>

definition plocks_free :: "'a machine_scheme \<Rightarrow> bool" where
  "plocks_free s \<longleftrightarrow> (\<forall>p<NPROC. free_lock (locks s (ProcLock p)))"

text \<open>What the scheduler does to the process it chooses.\<close>

definition dispatched :: "u32 \<Rightarrow> proc \<Rightarrow> proc" where
  "dispatched now q = q\<lparr>pstate := RUNNING, sched_count := sched_count q + 1,
     first_run := (if first_run q = 0 then ucast now else first_run q),
     total_wait := total_wait q + (ucast now - last_scheduled q)\<rparr>"

lemma dispatch_eq:
  "dispatch p s = s\<lparr>cpus := (cpus s)(hart s := (cpus s (hart s))\<lparr>cproc := Some p\<rparr>),
     procs := (procs s)(p := dispatched (ticks s) (procs s p))\<rparr>"
  by (simp add: dispatch_def dispatched_def upd_proc_def cpu_defs Let_def)

lemma boost_loop_eq:
  "distinct ps \<Longrightarrow> boost_loop ps s =
     s\<lparr>procs := \<lambda>p. if p \<in> set ps then boost_proc (procs s p) else procs s p\<rparr>"
  by (induction ps arbitrary: s) (auto simp: upd_proc_def intro!: arg_cong [where f = "\<lambda>f. s\<lparr>procs := f\<rparr>" for s])

lemma boost_all_eq:
  "boost_all_priorities s =
     s\<lparr>procs := \<lambda>p. if p < NPROC then boost_proc (procs s p) else procs s p\<rparr>"
  by (simp add: boost_all_priorities_def boost_loop_eq)

definition woken :: "chan option \<Rightarrow> proc \<Rightarrow> proc" where
  "woken ch q = (if pstate q = SLEEPING \<and> pchan q = ch then q\<lparr>pstate := RUNNABLE\<rparr> else q)"

definition wake_all :: "chan option \<Rightarrow> nat option \<Rightarrow> nat list \<Rightarrow> (nat \<Rightarrow> proc) \<Rightarrow> nat \<Rightarrow> proc" where
  "wake_all ch me ps f = (\<lambda>p. if p \<in> set ps \<and> Some p \<noteq> me then woken ch (f p) else f p)"

lemma wake_all_simps:
  "wake_all ch me [] f = f"
  "me = Some p \<Longrightarrow> wake_all ch me (p # ps) f = wake_all ch me ps f"
  "me \<noteq> Some p \<Longrightarrow> p \<notin> set ps \<Longrightarrow> wake_all ch me (p # ps) f = wake_all ch me ps (f(p := woken ch (f p)))"
  by (auto simp: wake_all_def fun_eq_iff)

lemma wakeup_loop_eq:
  assumes "\<forall>p\<in>set ps. Some p \<noteq> cproc (cpus s (hart s)) \<longrightarrow> free_lock (locks s (ProcLock p))"
    and "intr_ok s" and "distinct ps"
  shows "wakeup_loop ch ps s = Some (s\<lparr>cpus := (if ps = [] then cpus s else settled s),
    procs := wake_all ch (cproc (cpus s (hart s))) ps (procs s)\<rparr>)"
  using assms
proof (induction ps arbitrary: s)
  case Nil
  then show ?case by (simp add: wake_all_simps)
next
  case (Cons p ps)
  let ?me = "cproc (cpus s (hart s))"
  show ?case
  proof (cases "?me = Some p")
    case True
    then have "wakeup_loop ch (p # ps) s = wakeup_loop ch ps (s\<lparr>cpus := settled s\<rparr>)"
      using Cons.prems(2) by (simp add: myproc_eq)
    also have "\<dots> = Some (s\<lparr>cpus := settled s, procs := wake_all ch ?me ps (procs s)\<rparr>)"
      using Cons.IH [of "s\<lparr>cpus := settled s\<rparr>"] Cons.prems by simp
    finally show ?thesis using True by (simp add: wake_all_simps)
  next
    case False
    let ?t = "s\<lparr>cpus := settled s, procs := (procs s)(p := woken ch (procs s p))\<rparr>"
    have f: "free_lock (locks s (ProcLock p))" using Cons.prems(1) False by auto
    then have nl: "\<not> locked (locks s (ProcLock p))" by (simp add: free_lock_def)
    have "Some p \<noteq> ?me" using False by auto
    then have "wakeup_loop ch (p # ps) s = wakeup_loop ch ps ?t"
      using Cons.prems(2) f nl
      by (simp add: myproc_eq acquire_free release_acquired woken_def upd_proc_def)
    also have "\<dots> = Some (s\<lparr>cpus := settled s,
        procs := wake_all ch ?me ps ((procs s)(p := woken ch (procs s p)))\<rparr>)"
      by (subst Cons.IH) (use Cons.prems in \<open>simp_all del: fun_upd_apply\<close>)
    finally show ?thesis using False Cons.prems(3) by (simp add: wake_all_simps)
  qed
qed

lemma wakeup_eq:
  assumes "\<forall>p<NPROC. Some p \<noteq> cproc (cpus s (hart s)) \<longrightarrow> free_lock (locks s (ProcLock p))"
    and "intr_ok s"
  shows "wakeup ch s = Some (s\<lparr>cpus := settled s,
    procs := wake_all ch (cproc (cpus s (hart s))) [0..<NPROC] (procs s)\<rparr>)"
proof -
  have "[0..<NPROC] \<noteq> []" by (simp add: NPROC_def)
  with assms show ?thesis by (simp add: wakeup_def wakeup_loop_eq)
qed

definition kill_mark :: "proc \<Rightarrow> proc" where
  "kill_mark q = q\<lparr>pkilled := True,
     pstate := (if pstate q = SLEEPING then RUNNABLE else pstate q)\<rparr>"

lemma kkill_loop_eq:
  assumes "\<forall>p\<in>set ps. free_lock (locks s (ProcLock p))" and "intr_ok s"
  shows "kkill_loop pd ps s = Some (case List.find (\<lambda>p. pid (procs s p) = pd) ps of
      None \<Rightarrow> (-1, if ps = [] then s else s\<lparr>cpus := settled s\<rparr>)
    | Some p \<Rightarrow> (0, s\<lparr>cpus := settled s, procs := (procs s)(p := kill_mark (procs s p))\<rparr>))"
  using assms
proof (induction ps arbitrary: s)
  case Nil
  then show ?case by simp
next
  case (Cons p ps)
  then have "\<not> locked (locks s (ProcLock p))" by (simp add: free_lock_def)
  with Cons show ?case
    by (auto simp: acquire_free release_acquired upd_proc_def kill_mark_def split: option.splits)
qed

lemma kkill_eq:
  assumes "plocks_free s" and "intr_ok s"
  shows "kkill pd s = Some (case List.find (\<lambda>p. pid (procs s p) = pd) [0..<NPROC] of
      None \<Rightarrow> (-1, s\<lparr>cpus := settled s\<rparr>)
    | Some p \<Rightarrow> (0, s\<lparr>cpus := settled s, procs := (procs s)(p := kill_mark (procs s p))\<rparr>))"
proof -
  have "[0..<NPROC] \<noteq> []" by (simp add: NPROC_def)
  with assms show ?thesis by (simp add: kkill_def kkill_loop_eq plocks_free_def)
qed

lemma killed_eq:
  "free_lock (locks s (ProcLock p)) \<Longrightarrow> intr_ok s \<Longrightarrow>
     killed p s = Some (pkilled (procs s p), s\<lparr>cpus := settled s\<rparr>)"
  by (simp add: killed_def acquire_free release_acquired free_lock_def)

lemma setkilled_eq:
  "free_lock (locks s (ProcLock p)) \<Longrightarrow> intr_ok s \<Longrightarrow>
     setkilled p s = Some (s\<lparr>cpus := settled s, procs := (procs s)(p := (procs s p)\<lparr>pkilled := True\<rparr>)\<rparr>)"
  by (simp add: setkilled_def acquire_free release_acquired free_lock_def upd_proc_def)

lemma allocpid_eq:
  "free_lock (locks s PidLock) \<Longrightarrow> intr_ok s \<Longrightarrow>
     allocpid s = Some (nextpid s, s\<lparr>cpus := settled s, nextpid := nextpid s + 1\<rparr>)"
  by (simp add: allocpid_def acquire_free release_acquired free_lock_def)

text \<open>Giving up the hart. \<open>sched_enter\<close> passes its checks: the process holds its own lock and no
  other, and its state is not \<open>RUNNING\<close>.\<close>

lemma sched_enter_eq:
  assumes "cproc (cpus s (hart s)) = Some p" and "holding (ProcLock p) s" and "noff (cpus s (hart s)) = 1"
    and "pstate (procs s p) \<noteq> RUNNING" and "intr_ok s"
  shows "sched_enter s = Some (intena (cpus s (hart s)), s)"
proof -
  have "settled s = cpus s" "\<not> sie (cpus s (hart s))"
    using assms by (simp_all add: cpu_ok_def)
  then have "myproc s = Some (Some p, s)"
    using myproc_eq [of s] assms(1,5) by simp
  with assms \<open>\<not> sie _\<close> show ?thesis
    by (simp add: sched_enter_def cpu_defs)
qed

lemma yield_enter_eq:
  assumes "cproc (cpus s (hart s)) = Some p" and "free_lock (locks s (ProcLock p))"
    and "noff (cpus s (hart s)) = 0"
  shows "yield_enter s = Some ((p, sie (cpus s (hart s))),
    (with_lock (ProcLock p) s)\<lparr>procs := (procs s)(p := (procs s p)\<lparr>
       yielded_io := (pstate (procs s p) = RUNNING \<or> yielded_io (procs s p)), pstate := RUNNABLE\<rparr>)\<rparr>)"
proof -
  have ok: "intr_ok s" and nl: "\<not> locked (locks s (ProcLock p))"
    using assms by (simp_all add: cpu_ok_def free_lock_def)
  define t where "t = (with_lock (ProcLock p) s)\<lparr>procs := (procs s)(p := (procs s p)\<lparr>
       yielded_io := (pstate (procs s p) = RUNNING \<or> yielded_io (procs s p)), pstate := RUNNABLE\<rparr>)\<rparr>"
  have "sched_enter t = Some (intena (cpus t (hart t)), t)"
    by (rule sched_enter_eq [where p = p])
      (use assms ok in \<open>simp_all add: t_def with_lock_def holding_def cpuid_def\<close>)
  moreover have "intena (cpus t (hart t)) = sie (cpus s (hart s))"
    using assms(3) by (simp add: t_def with_lock_def pushed_def)
  moreover have "yield_enter s = do { (ie, s) \<leftarrow> sched_enter t; Some ((p, ie), s) }"
    using assms(1) ok nl
    by (simp add: yield_enter_def myproc_eq acquire_free upd_proc_def with_lock_def t_def)
  ultimately show ?thesis by (simp add: t_def)
qed

section \<open>Properties\<close>


text \<open>A table with two runnable processes, the second of the better priority.\<close>

definition two_ready :: ptable where
  "two_ready = at_rest\<lparr>procs := (\<lambda>_. no_proc)
     (0 := no_proc\<lparr>pstate := RUNNABLE, pid := 1, priority := 2, timeslice := 16\<rparr>,
      1 := no_proc\<lparr>pstate := RUNNABLE, pid := 2, priority := 1, timeslice := 8\<rparr>)\<rparr>"


end
