(* ===== verification/Mlfq.thy ===== *)
theory Mlfq
  imports Proc
begin

text \<open>
  The scheduler as a system: any number of harts, each in the scheduler's loop or running a
  process, interleaved at the granularity of critical sections. The steps are the functions of
  the theory Proc and the timer interrupt of \<^verbatim>\<open>kernel/trap.c\<close>. The first part proves what every
  function keeps: the locks it leaves taken, which processes stay \<open>RUNNING\<close>, and the invariant of
  the MLFQ fields. The second part lifts this to all reachable states.
\<close>

section \<open>The timer interrupt\<close>

text \<open>\<open>clockintr\<close> of \<^verbatim>\<open>kernel/trap.c\<close>; asking the hardware for the next interrupt is not part of the
  kernel's state.\<close>

definition clockintr :: "'a ptable_scheme \<Rightarrow> 'a ptable_scheme option" where
  "clockintr s = do {
     s \<leftarrow> (if cpuid s = 0 then do {
             s \<leftarrow> acquire TicksLock s;
             let s = s\<lparr>ticks := ticks s + 1\<rparr>;
             s \<leftarrow> wakeup (Some ChanTicks) s;
             release TicksLock s
           } else Some s);
     mlfq_tick s
   }"

section \<open>What every function keeps\<close>

text \<open>The MLFQ fields of a process in use: its level is one of the three, its slice is that
  level's, and it has not used it up.\<close>

definition mlfq_ok :: "proc \<Rightarrow> bool" where
  "mlfq_ok q \<longleftrightarrow> (pstate q \<noteq> UNUSED \<longrightarrow>
     MLFQ_HIGH \<le> priority q \<and> priority q \<le> MLFQ_LOW \<and> timeslice q = get_timeslice (priority q) \<and>
     0 \<le> timeslice_used q \<and> timeslice_used q < timeslice q)"

text \<open>The invariant looks at five fields only.\<close>

lemma mlfq_ok_other [simp]:
  "mlfq_ok (q\<lparr>pchan := xpchan\<rparr>) = mlfq_ok q"
  "mlfq_ok (q\<lparr>pkilled := xpkilled\<rparr>) = mlfq_ok q"
  "mlfq_ok (q\<lparr>xstate := xxstate\<rparr>) = mlfq_ok q"
  "mlfq_ok (q\<lparr>pid := xpid\<rparr>) = mlfq_ok q"
  "mlfq_ok (q\<lparr>parent := xparent\<rparr>) = mlfq_ok q"
  "mlfq_ok (q\<lparr>kstack := xkstack\<rparr>) = mlfq_ok q"
  "mlfq_ok (q\<lparr>psz := xpsz\<rparr>) = mlfq_ok q"
  "mlfq_ok (q\<lparr>pagetable := xpagetable\<rparr>) = mlfq_ok q"
  "mlfq_ok (q\<lparr>trapframe := xtrapframe\<rparr>) = mlfq_ok q"
  "mlfq_ok (q\<lparr>pcontext := xpcontext\<rparr>) = mlfq_ok q"
  "mlfq_ok (q\<lparr>pname := xpname\<rparr>) = mlfq_ok q"
  "mlfq_ok (q\<lparr>cpu_ticks := xcpu_ticks\<rparr>) = mlfq_ok q"
  "mlfq_ok (q\<lparr>sched_count := xsched_count\<rparr>) = mlfq_ok q"
  "mlfq_ok (q\<lparr>yielded_io := xyielded_io\<rparr>) = mlfq_ok q"
  "mlfq_ok (q\<lparr>start_time := xstart_time\<rparr>) = mlfq_ok q"
  "mlfq_ok (q\<lparr>end_time := xend_time\<rparr>) = mlfq_ok q"
  "mlfq_ok (q\<lparr>first_run := xfirst_run\<rparr>) = mlfq_ok q"
  "mlfq_ok (q\<lparr>total_wait := xtotal_wait\<rparr>) = mlfq_ok q"
  "mlfq_ok (q\<lparr>last_scheduled := xlast_scheduled\<rparr>) = mlfq_ok q"
  by (simp_all add: mlfq_ok_def)

lemma mlfq_ok_state [simp]:
  "mlfq_ok (q\<lparr>pstate := UNUSED\<rparr>)"
  "pstate q \<noteq> UNUSED \<Longrightarrow> mlfq_ok q \<Longrightarrow> mlfq_ok (q\<lparr>pstate := st\<rparr>)"
  by (simp_all add: mlfq_ok_def)

definition minv :: "'a ptable_scheme \<Rightarrow> bool" where
  "minv s \<longleftrightarrow> (\<forall>p. mlfq_ok (procs s p)) \<and>
     0 \<le> starvation_counter s \<and> starvation_counter s < STARVATION_THRESHOLD"

text \<open>Processes outside \<open>X\<close> that are running stay so; those in \<open>X\<close> stay in use.\<close>

definition run_kept :: "nat set \<Rightarrow> 'a ptable_scheme \<Rightarrow> 'a ptable_scheme \<Rightarrow> bool" where
  "run_kept X s0 s \<longleftrightarrow> (\<forall>p. if p \<in> X then pstate (procs s0 p) \<noteq> UNUSED \<longrightarrow> pstate (procs s p) \<noteq> UNUSED
     else pstate (procs s0 p) = RUNNING \<longrightarrow> pstate (procs s p) = RUNNING)"

definition hb :: "nat set \<Rightarrow> 'a ptable_scheme \<Rightarrow> lockid set \<Rightarrow> 'a ptable_scheme \<Rightarrow> bool" where
  "hb X s0 A s \<longleftrightarrow> bal s0 A s \<and> run_kept X s0 s \<and> minv s \<and> free_lock (locks s0 KmemLock) \<and> KmemLock \<notin> A"

text \<open>Rules for one call, in a sequence and at the end of a function body.\<close>

named_theorems hbr \<open>what a call keeps\<close>

lemmas hb_struct [hbr] = post_struct post_deref [THEN post_bind] conjI

lemma hb_start: "lock_wf s \<Longrightarrow> intr_ok s \<Longrightarrow> minv s \<Longrightarrow> free_lock (locks s KmemLock) \<Longrightarrow> hb X s {} s"
  by (simp add: hb_def bal_start run_kept_def)

lemma hb_lock_state:
  assumes "hb X s0 A s" and "bal s0 B (s\<lparr>cpus := c, locks := l\<rparr>)" and "KmemLock \<notin> B"
  shows "hb X s0 B (s\<lparr>cpus := c, locks := l\<rparr>)"
  using assms by (simp add: hb_def run_kept_def minv_def)

lemma hb_acquire:
  assumes "hb X s0 A s" and "l \<noteq> KmemLock"
  shows "post (acquire l s) (\<lambda>t. hb X s0 (insert l A) t \<and> l \<notin> A \<and> procs t = procs s)"
proof -
  have b: "bal s0 A s" and k: "KmemLock \<notin> A" using assms(1) by (simp_all add: hb_def)
  from bal_acquire [OF b, of l] show ?thesis
    by (rule post_mono) (use hb_lock_state [OF assms(1)] k assms(2) in auto)
qed

lemma hb_release:
  assumes "hb X s0 A s" and "l \<in> A"
  shows "post (release l s) (\<lambda>t. hb X s0 (A - {l}) t \<and> procs t = procs s)"
proof -
  have b: "bal s0 A s" and k: "KmemLock \<notin> A" using assms(1) by (simp_all add: hb_def)
  from bal_release [OF b assms(2)] show ?thesis
    by (rule post_mono) (use hb_lock_state [OF assms(1)] k in auto)
qed

lemma hb_myproc:
  assumes "hb X s0 A s"
  shows "post (myproc s) (\<lambda>(p, t). hb X s0 A t \<and> p = cproc (cpus s0 (hart s0)) \<and> procs t = procs s)"
proof -
  have b: "bal s0 A s" and k: "KmemLock \<notin> A" using assms(1) by (simp_all add: hb_def)
  from bal_myproc [OF b] show ?thesis
    by (rule post_mono) (use hb_lock_state [OF assms(1), where l = "locks s"] k in auto)
qed

lemma hb_kframe: "hb X s0 A s \<Longrightarrow> kframe s t \<Longrightarrow> hb X s0 A t \<and> procs t = procs s"
  using bal_kframe [of s0 A s t] kframe_ptable [of s t]
  by (simp add: hb_def run_kept_def minv_def)

lemma hb_kf:
  assumes "hb X s0 A s" and "post m (\<lambda>(r, t). kframe s t)"
  shows "post m (\<lambda>(r, t). hb X s0 A t \<and> procs t = procs s)"
  using assms(2) by (rule post_mono2) (simp only: prod.case hb_kframe [OF assms(1)] simp_thms)

lemma hb_kf1:
  assumes "hb X s0 A s" and "post m (kframe s)"
  shows "post m (\<lambda>t. hb X s0 A t \<and> procs t = procs s)"
  using assms(2) by (rule post_mono) (rule hb_kframe [OF assms(1)])

lemmas hb_mem1 =
  hb_kf1 [OF _ kf_kfree [OF kframe_refl]] hb_kf1 [OF _ kf_proc_freepagetable [OF kframe_refl]]

lemmas hb_mem2 =
  hb_kf [OF _ kf_kalloc [OF kframe_refl]] hb_kf [OF _ kf_proc_pagetable [OF kframe_refl]]
  hb_kf [OF _ kf_copyout [OF kframe_refl]]

lemmas hb_calls1 = hb_acquire hb_release hb_mem1
lemmas hb_calls2 = hb_myproc hb_mem2

lemmas hb_calls_r [hbr] = hb_calls1 [THEN post_bind] hb_calls1 [THEN post_mono]
  hb_calls2 [THEN post_bind2] hb_calls2 [THEN post_mono2]

lemma hb_upd [hbr]:
  assumes "hb X s0 A s" and "mlfq_ok (procs s p) \<Longrightarrow> mlfq_ok (f (procs s p))"
    and "if p \<in> X then pstate (procs s p) \<noteq> UNUSED \<longrightarrow> pstate (f (procs s p)) \<noteq> UNUSED
      else pstate (procs s p) = RUNNING \<longrightarrow> pstate (f (procs s p)) = RUNNING"
  shows "hb X s0 A (upd_proc p f s)"
  using assms by (auto simp: hb_def run_kept_def minv_def bal_def upd_proc_def split: if_splits)

lemma hb_used: "hb X s0 A s \<Longrightarrow> p \<in> X \<Longrightarrow> pstate (procs s0 p) \<noteq> UNUSED \<Longrightarrow> pstate (procs s p) \<noteq> UNUSED"
  unfolding hb_def run_kept_def by meson

lemma upd_proc_twice [simp]: "upd_proc p f (upd_proc p g s) = upd_proc p (\<lambda>q. f (g q)) s"
  by (simp add: upd_proc_def)

lemma hb_misc [simp]:
  "hb X s0 A (s\<lparr>nextpid := n\<rparr>) = hb X s0 A s" "hb X s0 A (s\<lparr>ticks := w\<rparr>) = hb X s0 A s"
  by (simp_all add: hb_def bal_def run_kept_def minv_def)

section \<open>Each function\<close>

lemma hb_wakeup:
  assumes "hb X s0 A s"
  shows "post (wakeup ch s) (\<lambda>t. hb X s0 A t \<and> (\<forall>p. pstate (procs s p) \<noteq> SLEEPING \<longrightarrow> procs t p = procs s p))"
proof -
  have "post (wakeup_loop ch ps t) (\<lambda>t. hb X s0 A t \<and> (\<forall>p. pstate (procs s p) \<noteq> SLEEPING \<longrightarrow> procs t p = procs s p))"
    if "hb X s0 A t \<and> (\<forall>p. pstate (procs s p) \<noteq> SLEEPING \<longrightarrow> procs t p = procs s p)" for ps t
    using that
  proof (induction ps arbitrary: t)
    case Nil
    then show ?case by (auto intro!: vcg)
  next
    case (Cons p ps)
    then show ?case
      unfolding wakeup_loop.simps
      by (elim conjE) (assumption | rule hbr Cons.IH | elim conjE | force)+
  qed
  with assms show ?thesis by (simp add: wakeup_def)
qed

lemma hb_kkill:
  assumes "hb X s0 A s"
  shows "post (kkill pd s) (\<lambda>(r, t). hb X s0 A t)"
proof -
  have "post (kkill_loop pd ps s) (\<lambda>(r, t). hb X s0 A t)" for ps
    using assms
  proof (induction ps arbitrary: s)
    case Nil
    then show ?case by (auto intro!: vcg)
  next
    case (Cons p ps)
    then show ?case
      unfolding kkill_loop.simps
      by - (assumption | rule hbr Cons.IH | elim conjE | force)+
  qed
  then show ?thesis by (simp add: kkill_def)
qed

lemma hb_killed:
  "hb X s0 A s \<Longrightarrow> post (killed p s) (\<lambda>(k, t). hb X s0 A t \<and> procs t = procs s)"
  unfolding killed_def by (assumption | rule hbr | elim conjE | force)+

lemma hb_freeproc:
  assumes "hb X s0 A s" and "p \<notin> X" and "pstate (procs s p) \<noteq> RUNNING"
  shows "post (freeproc p s) (\<lambda>t. hb X s0 A t)"
  using assms unfolding freeproc_def
  by - (assumption | rule hbr | elim conjE | force)+

lemma hb_allocpid:
  "hb X s0 A s \<Longrightarrow> post (allocpid s) (\<lambda>(r, t). hb X s0 A t \<and> procs t = procs s)"
  unfolding allocpid_def by (assumption | rule hbr | elim conjE | force)+

lemma hb_sched_enter:
  "hb X s0 A s \<Longrightarrow> post (sched_enter s) (\<lambda>(r, t). hb X s0 A t \<and> procs t = procs s)"
  unfolding sched_enter_def by (assumption | rule hbr | elim conjE | force)+

lemmas hb_more1 = hb_wakeup hb_freeproc
lemmas hb_more2 = hb_kkill hb_killed hb_allocpid hb_sched_enter

lemmas hb_more_r [hbr] = hb_more1 [THEN post_bind] hb_more1 [THEN post_mono]
  hb_more2 [THEN post_bind2] hb_more2 [THEN post_mono2]

lemma hb_init_mlfq:
  "hb {} s0 A s \<Longrightarrow> pstate (procs s p) \<noteq> RUNNING \<Longrightarrow>
     hb {} s0 A (init_mlfq_proc p (upd_proc p (\<lambda>q. q\<lparr>pid := pd, pstate := USED\<rparr>) s))"
  unfolding init_mlfq_proc_def upd_proc_twice
  by (rule hb_upd) (simp_all add: mlfq_ok_def mlfq_defs get_timeslice_def)

lemma procs_init_mlfq:
  "pstate (procs (init_mlfq_proc p (upd_proc p (\<lambda>q. q\<lparr>pid := pd, pstate := USED\<rparr>) s)) p) = USED"
  by (simp add: init_mlfq_proc_def)

lemma hb_allocproc_found:
  assumes "hb {} s0 (insert (ProcLock p) A) s" and "ProcLock p \<notin> A" and "pstate (procs s p) = UNUSED"
  shows "post (allocproc_found p s) (\<lambda>(r, t). case r of None \<Rightarrow> hb {} s0 A t
    | Some np \<Rightarrow> np = p \<and> hb {} s0 (insert (ProcLock p) A) t \<and> pstate (procs t p) = USED)"
  using assms unfolding allocproc_found_def
  by - (assumption | rule hbr hb_init_mlfq | elim conjE | force simp: procs_init_mlfq intro!: hb_upd)+

lemma hb_allocproc:
  assumes "hb {} s0 A s"
  shows "post (allocproc s) (\<lambda>(r, t). case r of None \<Rightarrow> hb {} s0 A t
    | Some p \<Rightarrow> ProcLock p \<notin> A \<and> hb {} s0 (insert (ProcLock p) A) t \<and> pstate (procs t p) = USED)"
proof -
  have "post (allocproc_scan ps s) (\<lambda>(r, t). case r of None \<Rightarrow> hb {} s0 A t
    | Some p \<Rightarrow> ProcLock p \<notin> A \<and> hb {} s0 (insert (ProcLock p) A) t \<and> pstate (procs t p) = UNUSED)" for ps
    using assms
  proof (induction ps arbitrary: s)
    case Nil
    then show ?case by (auto intro!: vcg)
  next
    case (Cons p ps)
    then show ?case
      unfolding allocproc_scan.simps
      by - (assumption | rule hbr Cons.IH | elim conjE | force)+
  qed
  then show ?thesis
    unfolding allocproc_def
    by (rule post_bind2)
      (auto intro!: vcg intro: post_mono2 [OF hb_allocproc_found] split: option.splits)
qed

lemma hb_kfork_publish:
  assumes "hb {} s0 (insert (ProcLock np) A) s" and "ProcLock np \<notin> A" and "pstate (procs s np) = USED"
  shows "post (kfork_publish p np s) (\<lambda>(r, t). hb {} s0 A t)"
  using assms unfolding kfork_publish_def
  by - (assumption | rule hbr | elim conjE | force)+

lemma hb_reparent:
  assumes "hb X s0 A s" 
  shows "post (reparent p s) (\<lambda>t. hb X s0 A t)"
proof -
  have "post (reparent_loop p ps s) (\<lambda>t. hb X s0 A t)" for ps
    using assms
  proof (induction ps arbitrary: s)
    case Nil
    then show ?case by (auto intro!: vcg)
  next
    case (Cons p ps)
    then show ?case
      unfolding reparent_loop.simps
      by - (assumption | rule hbr Cons.IH | elim conjE | force)+
  qed
  then show ?thesis by (simp add: reparent_def)
qed

lemmas hb_reparent_r [hbr] = hb_reparent [THEN post_bind]

text \<open>Functions that end with a switch to the scheduler keep the lock of the process itself.\<close>

lemma hb_kexit_final:
  assumes "hb X s0 A s" and "p \<in> X" and "pstate (procs s0 p) \<noteq> UNUSED" and "WaitLock \<notin> A"
  shows "post (kexit_final p status s) (\<lambda>(ie, t). hb X s0 (insert (ProcLock p) A) t)"
  using assms unfolding kexit_final_def
  by - (assumption | rule hbr | elim conjE | force simp: insert_Diff_if dest: hb_used)+

lemma hb_yield_enter:
  assumes "hb X s0 A s" and me: "cproc (cpus s0 (hart s0)) = Some p" and "p \<in> X"
    and "pstate (procs s0 p) \<noteq> UNUSED"
  shows "post (yield_enter s) (\<lambda>((q, ie), t). hb X s0 (insert (ProcLock p) A) t \<and> q = p)"
proof -
  have used: "hb X s0 B t \<Longrightarrow> pstate (procs t p) \<noteq> UNUSED" for B t
    using assms hb_used by blast
  show ?thesis
    unfolding yield_enter_def
    by (rule hb_myproc [OF assms(1), THEN post_bind2], clarsimp simp: me)
      (assumption | rule hbr | elim conjE | force simp: assms(3) dest: used)+
qed

lemma insert_Diff_swap: "l \<in> A \<Longrightarrow> x \<notin> A \<Longrightarrow> insert x A - {l} = insert x (A - {l})"
  by auto

lemma hb_sleep_enter:
  assumes "hb X s0 A s" and me: "cproc (cpus s0 (hart s0)) = Some p" and "p \<in> X"
    and "pstate (procs s0 p) \<noteq> UNUSED" and "lk \<in> A"
  shows "post (sleep_enter ch lk s) (\<lambda>((q, ie), t). hb X s0 (insert (ProcLock p) (A - {lk})) t \<and> q = p)"
proof -
  have used: "hb X s0 B t \<Longrightarrow> pstate (procs t p) \<noteq> UNUSED" for B t
    using assms hb_used by blast
  show ?thesis
    using assms(5) unfolding sleep_enter_def
    by (intro hb_myproc [OF assms(1), THEN post_bind2], clarsimp simp: me)
      (assumption | rule hbr | elim conjE | force simp: insert_Diff_swap assms(3) dest: used)+
qed

lemma hb_kwait_scan:
  assumes "hb X s0 A s"
  shows "post (kwait_scan p ps hk s) (\<lambda>(z, hk, t). case z of None \<Rightarrow> hb X s0 A t
    | Some pp \<Rightarrow> ProcLock pp \<notin> A \<and> hb X s0 (insert (ProcLock pp) A) t \<and> pstate (procs t pp) = ZOMBIE)"
  using assms
proof (induction ps arbitrary: s hk)
  case Nil
  then show ?case by (auto intro!: vcg)
next
  case (Cons pp ps)
  then show ?case
    unfolding kwait_scan.simps
    by - (assumption | rule hbr Cons.IH | elim conjE | force)+
qed

lemma hb_mono: "hb {} s0 A s \<Longrightarrow> pstate (procs s0 p) = RUNNING \<Longrightarrow> hb {p} s0 A s"
  by (auto simp: hb_def run_kept_def)

lemma hb_kwait_round:
  assumes "hb {} s0 A s" and "WaitLock \<in> A" and me: "cproc (cpus s0 (hart s0)) = Some p"
    and run: "pstate (procs s0 p) = RUNNING"
  shows "post (kwait_round p addr s) (\<lambda>(r, t). case r of Done _ \<Rightarrow> hb {} s0 (A - {WaitLock}) t
    | Asleep (q, ie) \<Rightarrow> q = p \<and> hb {p} s0 (insert (ProcLock p) (A - {WaitLock})) t)"
proof -
  have slp: "hb {} s0 B t \<Longrightarrow> WaitLock \<in> B \<Longrightarrow>
      post (sleep_enter ch WaitLock t) (\<lambda>(r, t). hb {p} s0 (insert (ProcLock p) (B - {WaitLock})) t \<and> fst r = p)"
    for B t ch
    by (rule post_mono2 [OF hb_sleep_enter [OF hb_mono [OF _ run] me]]) (auto simp: run)
  have freed: "post (freeproc pp t \<bind> (\<lambda>s. release (ProcLock pp) s \<bind>
        (\<lambda>s. release WaitLock s \<bind> (\<lambda>s. Some (Done pd, s)))))
      (\<lambda>(r, t). case r of Done _ \<Rightarrow> hb {} s0 (A - {WaitLock}) t
        | Asleep (q, ie) \<Rightarrow> q = p \<and> hb {p} s0 (insert (ProcLock p) (A - {WaitLock})) t)"
    if "hb {} s0 (insert (ProcLock pp) A) t" "ProcLock pp \<notin> A" "pstate (procs t pp) = ZOMBIE" for pp t pd
    using that assms(2) by - (assumption | rule hbr | elim conjE | force simp: insert_Diff_swap)+
  show ?thesis
    using assms(1,2) unfolding kwait_round_def
    by - (rule post_bind [OF hb_kwait_scan], assumption,
        (assumption | rule hbr slp [THEN post_bind2] freed | elim conjE
          | force simp: insert_Diff_swap split: option.splits)+)
qed

section \<open>The tick\<close>

lemma get_timeslice_pos: "0 < get_timeslice pr"
  by (simp add: get_timeslice_def mlfq_defs)

lemma mlfq_ok_tick: "mlfq_ok q \<Longrightarrow> pstate q = RUNNING \<Longrightarrow> mlfq_ok (tick_proc q)"
  using get_timeslice_pos by (auto simp: tick_proc_def mlfq_ok_def Let_def)

lemma pstate_tick: "pstate q = RUNNING \<Longrightarrow> pstate (tick_proc q) = RUNNING \<or> pstate (tick_proc q) = RUNNABLE"
  by (simp add: tick_proc_def Let_def)

lemma mlfq_ok_boost: "mlfq_ok q \<Longrightarrow> mlfq_ok (boost_proc q)"
  by (auto simp: boost_proc_def mlfq_ok_def mlfq_defs get_timeslice_def)

lemma pstate_boost [simp]: "pstate (boost_proc q) = pstate q"
  by (simp add: boost_proc_def)

text \<open>The counter, and the boost when it reaches the threshold.\<close>

definition count_tick :: "'a ptable_scheme \<Rightarrow> 'a ptable_scheme" where
  "count_tick s = (if starvation_counter s + 1 \<ge> STARVATION_THRESHOLD
     then s\<lparr>procs := \<lambda>p. if p < NPROC then boost_proc (procs s p) else procs s p, starvation_counter := 0\<rparr>
     else s\<lparr>starvation_counter := starvation_counter s + 1\<rparr>)"

lemma hb_count_tick:
  assumes "hb X s0 A s"
  shows "hb X s0 A (count_tick s)"
proof (cases "starvation_counter s + 1 \<ge> STARVATION_THRESHOLD")
  case True
  with assms mlfq_ok_boost show ?thesis
    by (simp add: count_tick_def hb_def minv_def run_kept_def bal_def STARVATION_THRESHOLD_def)
next
  case False
  with assms show ?thesis
    by (simp add: count_tick_def hb_def minv_def run_kept_def bal_def)
qed

lemma mlfq_tick_alt:
  "mlfq_tick s = do {
     (p, s) \<leftarrow> myproc s;
     case p of
       None \<Rightarrow> Some (count_tick s)
     | Some p \<Rightarrow> Some (if pstate (procs (count_tick s) p) = RUNNING
                    then upd_proc p tick_proc (count_tick s) else count_tick s)
   }"
proof -
  have "(if starvation_counter (s\<lparr>starvation_counter := starvation_counter s + 1\<rparr>) \<ge> STARVATION_THRESHOLD
      then (boost_all_priorities (s\<lparr>starvation_counter := starvation_counter s + 1\<rparr>))\<lparr>starvation_counter := 0\<rparr>
      else s\<lparr>starvation_counter := starvation_counter s + 1\<rparr>) = count_tick s" for s :: "'a ptable_scheme"
    by (simp add: count_tick_def boost_all_eq cong: if_cong)
  then show ?thesis
    by (simp only: mlfq_tick_def Let_def)
qed

lemma hb_mlfq_tick:
  assumes "hb X s0 A s" and "set_option (cproc (cpus s0 (hart s0))) \<subseteq> X"
  shows "post (mlfq_tick s) (\<lambda>t. hb X s0 A t)"
proof -
  have tick: "hb X s0 A (upd_proc p tick_proc t)"
    if "hb X s0 A t" "pstate (procs t p) = RUNNING" "p \<in> X" for p t
    using that pstate_tick [OF that(2)] by (intro hb_upd) (auto simp: mlfq_ok_tick)
  show ?thesis
    unfolding mlfq_tick_alt
    by (rule hb_myproc [OF assms(1), THEN post_bind2])
      (use assms(2) in \<open>auto intro!: vcg hb_count_tick tick\<close>)
qed

lemma hb_clockintr:
  assumes "hb X s0 A s" and "set_option (cproc (cpus s0 (hart s0))) \<subseteq> X" and "TicksLock \<notin> A"
  shows "post (clockintr s) (\<lambda>t. hb X s0 A t)"
  using assms unfolding clockintr_def
  by - (assumption | rule hbr hb_mlfq_tick | elim conjE | force)+

lemma hb_scan_miss:
  assumes "hb X s0 A s"
  shows "post (scan_one pr p s) (\<lambda>(found, t). \<not> found \<longrightarrow> hb X s0 A t)"
  using assms unfolding scan_one_def
  by - (assumption | rule hbr | elim conjE | force)+

end
