(* ===== verification/Sched_System.thy ===== *)
theory Sched_System
  imports Mlfq
begin

text \<open>
  The harts of the machine interleaved: each is at a place in the scheduler's loop or runs a
  process; each step is one critical section of \<^verbatim>\<open>kernel/proc.c\<close> or one timer interrupt. A
  process that has given up its hart remembers where it resumes: in \<open>forkret\<close>, in \<open>yield\<close> or
  in \<open>sleep\<close>.

  The relation is indexed by the harts that run and by whether a tick may end a process's slice.
  With one hart, or when no slice ends, no process is ever on two harts and the scheduling fields
  of every process stay consistent. With two harts and a slice that ends, \<open>mlfq_tick\<close> marks the
  process \<open>RUNNABLE\<close> before \<open>yield\<close> takes its lock, and the last part shows that the other hart
  can then run it too.
\<close>

section \<open>The system\<close>

text \<open>\<open>Top\<close> is the head of the scheduler's loop, with interrupts on; \<open>Scan\<close> its inner loop. \<open>Resuming\<close>
  is just after a switch to the process, \<open>Leaving\<close> just after a switch back, both with the
  process's lock held; \<open>Ticked\<close> is between the tick of a timer interrupt and \<open>yield\<close>.\<close>

datatype hloc = Top | Scan int nat | Resuming nat | Running nat | Ticked nat | Leaving nat

datatype rpoint = Fresh | Yielded bool | Slept bool lockid

record sched_sys =
  kern :: ptable
  loc :: "nat \<Rightarrow> hloc"
  rpt :: "nat \<Rightarrow> rpoint"

definition on :: "nat \<Rightarrow> sched_sys \<Rightarrow> ptable" where
  "on h s = (kern s)\<lparr>hart := h\<rparr>"

text \<open>Where the scan goes after a process it did not choose.\<close>

definition scan_next :: "int \<Rightarrow> nat \<Rightarrow> hloc" where
  "scan_next pr p =
     (if p + 1 < NPROC then Scan pr (p + 1) else if pr < MLFQ_LOW then Scan (pr + 1) 0 else Top)"

definition resume_proc :: "rpoint \<Rightarrow> nat \<Rightarrow> 'a ptable_scheme \<Rightarrow> 'a ptable_scheme option" where
  "resume_proc r p s = (case r of
       Fresh \<Rightarrow> release (ProcLock p) s
     | Yielded ie \<Rightarrow> yield_exit (p, ie) s
     | Slept ie lk \<Rightarrow> do { s \<leftarrow> sleep_exit (p, ie) lk s; release lk s })"

inductive sched_step :: "nat set \<Rightarrow> bool \<Rightarrow> sched_sys \<Rightarrow> sched_sys \<Rightarrow> bool" 
  for H :: "nat set" and expiry :: bool where
  top: "h \<in> H \<Longrightarrow> loc s h = Top \<Longrightarrow>
    sched_step H expiry s (s\<lparr>kern := intr_off (intr_on (on h s)), loc := (loc s)(h := Scan MLFQ_HIGH 0)\<rparr>)"
| idle_tick: "h \<in> H \<Longrightarrow> loc s h = Top \<Longrightarrow> clockintr (on h s) = Some k \<Longrightarrow> sched_step H expiry s (s\<lparr>kern := k\<rparr>)"
| hit: "h \<in> H \<Longrightarrow> loc s h = Scan pr p \<Longrightarrow> scan_one pr p (on h s) = Some (True, k) \<Longrightarrow>
    sched_step H expiry s (s\<lparr>kern := k, loc := (loc s)(h := Resuming p)\<rparr>)"
| miss: "h \<in> H \<Longrightarrow> loc s h = Scan pr p \<Longrightarrow> scan_one pr p (on h s) = Some (False, k) \<Longrightarrow>
    sched_step H expiry s (s\<lparr>kern := k, loc := (loc s)(h := scan_next pr p)\<rparr>)"
| resume: "h \<in> H \<Longrightarrow> loc s h = Resuming p \<Longrightarrow> resume_proc (rpt s p) p (on h s) = Some k \<Longrightarrow>
    sched_step H expiry s (s\<lparr>kern := k, loc := (loc s)(h := Running p)\<rparr>)"
| tick: "h \<in> H \<Longrightarrow> loc s h = Running p \<Longrightarrow> clockintr (on h s) = Some k \<Longrightarrow>
    expiry \<or> pstate (procs k p) = RUNNING \<Longrightarrow>
    sched_step H expiry s (s\<lparr>kern := k, loc := (loc s)(h := Ticked p)\<rparr>)"
| yield: "h \<in> H \<Longrightarrow> loc s h = Ticked p \<Longrightarrow> yield_enter (on h s) = Some ((q, ie), k) \<Longrightarrow>
    sched_step H expiry s (s\<lparr>kern := k, loc := (loc s)(h := Leaving p), rpt := (rpt s)(p := Yielded ie)\<rparr>)"
| leave: "h \<in> H \<Longrightarrow> loc s h = Leaving p \<Longrightarrow> scheduler_exit p (on h s) = Some k \<Longrightarrow>
    sched_step H expiry s (s\<lparr>kern := k, loc := (loc s)(h := Top)\<rparr>)"
| sleep: "h \<in> H \<Longrightarrow> loc s h = Running p \<Longrightarrow> (\<forall>q. lk \<noteq> ProcLock q) \<Longrightarrow> lk \<noteq> KmemLock \<Longrightarrow>
    acquire lk (on h s) \<bind> sleep_enter ch lk = Some ((q, ie), k) \<Longrightarrow>
    sched_step H expiry s (s\<lparr>kern := k, loc := (loc s)(h := Leaving p), rpt := (rpt s)(p := Slept ie lk)\<rparr>)"
| wake: "h \<in> H \<Longrightarrow> loc s h = Running p \<Longrightarrow> wakeup (Some ch) (on h s) = Some k \<Longrightarrow>
    sched_step H expiry s (s\<lparr>kern := k\<rparr>)"
| kill: "h \<in> H \<Longrightarrow> loc s h = Running p \<Longrightarrow> kkill pd (on h s) = Some (r, k) \<Longrightarrow>
    sched_step H expiry s (s\<lparr>kern := k\<rparr>)"
| fork: "h \<in> H \<Longrightarrow> loc s h = Running p \<Longrightarrow> allocproc (on h s) = Some (Some np, k') \<Longrightarrow>
    kfork_publish p np k' = Some (pd, k) \<Longrightarrow>
    sched_step H expiry s (s\<lparr>kern := k, rpt := (rpt s)(np := Fresh)\<rparr>)"
| no_fork: "h \<in> H \<Longrightarrow> loc s h = Running p \<Longrightarrow> allocproc (on h s) = Some (None, k) \<Longrightarrow>
    sched_step H expiry s (s\<lparr>kern := k\<rparr>)"
| exit: "h \<in> H \<Longrightarrow> loc s h = Running p \<Longrightarrow> kexit_final p st (on h s) = Some (ie, k) \<Longrightarrow>
    sched_step H expiry s (s\<lparr>kern := k, loc := (loc s)(h := Leaving p)\<rparr>)"
| reap: "h \<in> H \<Longrightarrow> loc s h = Running p \<Longrightarrow> kwait_enter addr (on h s) = Some (q, Done r, k) \<Longrightarrow>
    sched_step H expiry s (s\<lparr>kern := k\<rparr>)"
| wait: "h \<in> H \<Longrightarrow> loc s h = Running p \<Longrightarrow> kwait_enter addr (on h s) = Some (q, Asleep (q', ie), k) \<Longrightarrow>
    sched_step H expiry s (s\<lparr>kern := k, loc := (loc s)(h := Leaving p), rpt := (rpt s)(p := Slept ie WaitLock)\<rparr>)"

text \<open>The system after boot: every hart at the head of the scheduler's loop, all locks free, no
  process dispatched yet, and only processes that start in \<open>forkret\<close>.\<close>

definition sched_init :: "sched_sys \<Rightarrow> bool" where
  "sched_init s \<longleftrightarrow> minv (kern s) \<and> (\<forall>l. free_lock (locks (kern s) l)) \<and>
     (\<forall>h. loc s h = Top \<and> cproc (cpus (kern s) h) = None \<and> noff (cpus (kern s) h) = 0)"

section \<open>The invariant\<close>

fun holds :: "hloc \<Rightarrow> nat option" where
  "holds (Resuming p) = Some p"
| "holds (Leaving p) = Some p"
| "holds _ = None"

fun active :: "hloc \<Rightarrow> nat option" where
  "active (Resuming p) = Some p"
| "active (Running p) = Some p"
| "active (Ticked p) = Some p"
| "active (Leaving p) = Some p"
| "active _ = None"

text \<open>What a hart's place says of its \<open>struct cpu\<close> and of the process it runs.\<close>

definition hart_ok :: "bool \<Rightarrow> (nat \<Rightarrow> proc) \<Rightarrow> hloc \<Rightarrow> cpu \<Rightarrow> bool" where
  "hart_ok expiry ps a c \<longleftrightarrow> cproc c = active a \<and>
     (if holds a = None then noff c = 0 else noff c = 1 \<and> \<not> sie c) \<and>
     (\<forall>p. a = Resuming p \<or> a = Running p \<or> a = Ticked p \<and> \<not> expiry \<longrightarrow> pstate (ps p) = RUNNING) \<and>
     (\<forall>p. a = Ticked p \<longrightarrow> pstate (ps p) \<noteq> UNUSED)"

definition held_by :: "spinlock \<Rightarrow> nat \<Rightarrow> bool" where
  "held_by l h \<longleftrightarrow> locked l \<and> lcpu l = Some h"

definition locks_ok :: "(lockid \<Rightarrow> spinlock) \<Rightarrow> (nat \<Rightarrow> hloc) \<Rightarrow> bool" where
  "locks_ok ls a \<longleftrightarrow> (\<forall>l h. lcpu (ls l) = Some h \<longleftrightarrow> map_option ProcLock (holds (a h)) = Some l) \<and>
     (\<forall>l. locked (ls l) \<longleftrightarrow> lcpu (ls l) \<noteq> None)"

definition apart_ok :: "nat set \<Rightarrow> bool \<Rightarrow> (nat \<Rightarrow> hloc) \<Rightarrow> bool" where
  "apart_ok H expiry a \<longleftrightarrow> (\<forall>h. h \<notin> H \<longrightarrow> a h = Top) \<and>
     (\<forall>h h' p. active (a h) = Some p \<longrightarrow> active (a h') = Some p \<longrightarrow> h = h')"

definition sinv :: "nat set \<Rightarrow> bool \<Rightarrow> sched_sys \<Rightarrow> bool" where
  "sinv H expiry s \<longleftrightarrow> minv (kern s) \<and> locks_ok (locks (kern s)) (loc s) \<and> apart_ok H expiry (loc s) \<and>
     (\<forall>h. hart_ok expiry (procs (kern s)) (loc s h) (cpus (kern s) h))"

lemma holds_active: "holds a = Some p \<Longrightarrow> active a = Some p"
  by (cases a) auto

lemma sinvD:
  assumes "sinv H e s"
  shows "minv (kern s)" "locks_ok (locks (kern s)) (loc s)" "apart_ok H e (loc s)"
    "hart_ok e (procs (kern s)) (loc s h) (cpus (kern s) h)"
  using assms unfolding sinv_def by blast+

lemma locks_ok_free: "locks_ok ls a \<Longrightarrow> \<not> locked (ls l) \<Longrightarrow> free_lock (ls l)"
  unfolding locks_ok_def free_lock_def by blast

lemma locks_ok_other: "locks_ok ls a \<Longrightarrow> (\<And>p. l \<noteq> ProcLock p) \<Longrightarrow> free_lock (ls l)"
  by (cases "lcpu (ls l)") (auto simp: locks_ok_def free_lock_def)

lemma locks_ok_held: "locks_ok ls a \<Longrightarrow> holds (a h) = Some p \<Longrightarrow> held_by (ls (ProcLock p)) h"
  by (auto simp: locks_ok_def held_by_def)

lemma on_sel [simp]:
  "hart (on h s) = h" "cpus (on h s) = cpus (kern s)" "locks (on h s) = locks (kern s)"
  "procs (on h s) = procs (kern s)" "ticks (on h s) = ticks (kern s)"
  "starvation_counter (on h s) = starvation_counter (kern s)"
  by (simp_all add: on_def)

lemma sinv_hb: 
  assumes s: "sinv H e s"
  shows "hb X (on h s) {} (on h s)"
proof (rule hb_start)
  show "lock_wf (on h s)"
    using locks_ok_free [OF sinvD(2) [OF assms(1)]] by (auto simp: lock_wf_def free_lock_def)
  show "intr_ok (on h s)"
    using sinvD(4) [OF assms(1), of h] by (auto simp: hart_ok_def cpu_ok_def split: if_splits)
  show "minv (on h s)" using sinvD(1) [OF assms(1)] by (simp add: minv_def)
  show "free_lock (locks (on h s) KmemLock)" using locks_ok_other [OF sinvD(2) [OF assms(1)]] by simp
qed

text \<open>A step that ends with no lock taken, and one that ends with the process's own lock taken.\<close>

lemma locks_ok_same:
  "locks_ok ls a \<Longrightarrow> holds b = holds (a h) \<Longrightarrow> locks_ok ls (a(h := b))"
  by (simp add: locks_ok_def)

lemma locks_ok_take:
  assumes "locks_ok ls a" and "free_lock (ls (ProcLock p))" and "holds (a h) = None" and "holds b = Some p"
  shows "locks_ok (taken h (ProcLock p) ls) (a(h := b))"
proof -
  have "holds (a i) \<noteq> Some p" for i
    using locks_ok_held [OF assms(1), of i p] assms(2) by (auto simp: held_by_def free_lock_def)
  then show ?thesis
    using assms by (auto simp: locks_ok_def taken_def)
qed

lemma locks_ok_drop:
  assumes "locks_ok ls a" and "holds (a h) = Some p" and "holds b = None"
  shows "locks_ok (dropped (ProcLock p) ls) (a(h := b))"
proof -
  have "holds (a i) \<noteq> Some p" if "i \<noteq> h" for i
    using locks_ok_held [OF assms(1), of i p] locks_ok_held [OF assms(1), of h p] assms(2) that
    by (auto simp: held_by_def)
  then show ?thesis
    using assms by (auto simp: locks_ok_def dropped_def)
qed

lemma apart_ok_upd:
  assumes "apart_ok H e a" and "h \<in> H" and "\<And>p. active b = Some p \<Longrightarrow> active (a h) = Some p"
  shows "apart_ok H e (a(h := b))"
  using assms unfolding apart_ok_def by (auto split: if_splits)

lemma hb_others:
  assumes k: "hb X (on h s) A k" and s: "sinv H e s" and h: "i \<noteq> h"
    and X: "\<And>p. p \<in> X \<Longrightarrow> active (loc s h) = Some p" and one: "e \<longrightarrow> H \<subseteq> {h}"
  shows "hart_ok e (procs k) (loc s i) (cpus k i)"
proof -
  have c: "cpus k i = cpus (kern s) i" using k h by (auto simp: hb_def bal_cpu_other)
  have o: "hart_ok e (procs (kern s)) (loc s i) (cpus (kern s) i)" using s by (rule sinvD)
  have a: "apart_ok H e (loc s)" using s by (rule sinvD)
  show ?thesis
  proof (cases "active (loc s i)")
    case None
    then show ?thesis using o c by (auto simp: hart_ok_def)
  next
    case (Some p)
    then have e: "\<not> e" and p: "p \<notin> X" using a one h X by (fastforce simp: apart_ok_def)+
    then have "pstate (procs (kern s) p) = RUNNING \<longrightarrow> pstate (procs k p) = RUNNING"
      using k by (auto simp: hb_def run_kept_def)
    then show ?thesis using o c e Some by (cases "loc s i") (auto simp: hart_ok_def)
  qed
qed

lemma sinv_free_step:
  assumes s: "sinv H e s" and h: "h \<in> H" and one: "e \<longrightarrow> H \<subseteq> {h}" and k: "hb X (on h s) {} k"
    and X: "\<And>p. p \<in> X \<Longrightarrow> active (loc s h) = Some p"
    and n: "holds (loc s h) = None" "holds b = None" "active b = active (loc s h)"
    and run: "\<And>p. b = Running p \<or> b = Ticked p \<and> \<not> e \<Longrightarrow> pstate (procs k p) = RUNNING"
      "\<And>p. b = Ticked p \<Longrightarrow> pstate (procs k p) \<noteq> UNUSED"
  shows "sinv H e (s\<lparr>kern := k, loc := (loc s)(h := b), rpt := r\<rparr>)"
proof -
  have "hart_ok e (procs k) b (cpus k h)"
    using sinvD(4) [OF s, of h] k n run by (auto simp: hart_ok_def hb_def bal_def)
  moreover have "locks k = locks (kern s)" using k by (auto simp: hb_def bal_def takes_def)
  ultimately show ?thesis
    using hb_others [OF k s _ X one] sinvD(2,3) [OF s] k h n unfolding sinv_def
    by (auto simp: hb_def intro!: locks_ok_same apart_ok_upd)
qed

lemma sinv_lock_step:
  assumes s: "sinv H e s" and h: "h \<in> H" and one: "e \<longrightarrow> H \<subseteq> {h}" and k: "hb X (on h s) {ProcLock p} k"
    and X: "\<And>p. p \<in> X \<Longrightarrow> active (loc s h) = Some p"
    and n: "holds (loc s h) = None" "active (loc s h) = Some p"
  shows "sinv H e (s\<lparr>kern := k, loc := (loc s)(h := Leaving p), rpt := r\<rparr>)"
proof -
  have "hart_ok e (procs k) (Leaving p) (cpus k h)"
    using sinvD(4) [OF s, of h] k n by (auto simp: hart_ok_def hb_def bal_def pushed_def)
  moreover have "locks k = taken h (ProcLock p) (locks (kern s))" "free_lock (locks (kern s) (ProcLock p))"
    using k by (auto simp: hb_def bal_def takes_def taken_def)
  ultimately show ?thesis
    using hb_others [OF k s _ X one] sinvD(2,3) [OF s] k h n unfolding sinv_def
    by (auto simp: hb_def intro!: locks_ok_take apart_ok_upd)
qed

text \<open>Resuming a process: its lock is released and the hart is at depth 0 again; when it slept, the
  lock it slept with is taken and given back.\<close>

definition resumed :: "nat \<Rightarrow> nat \<Rightarrow> ptable \<Rightarrow> ptable \<Rightarrow> bool" where
  "resumed h p s k \<longleftrightarrow> locks k = dropped (ProcLock p) (locks s) \<and>
     (\<exists>c. cpus k = (cpus s)(h := c) \<and> noff c = 0 \<and> cproc c = cproc (cpus s h)) \<and>
     (\<forall>q. pstate (procs k q) = pstate (procs s q)) \<and> (minv s \<longrightarrow> minv k)"

lemma resume_resumed:
  assumes ok: "locks_ok (locks (kern s)) (loc s)" and h: "loc s h = Resuming p"
    and c: "noff (cpus (kern s) h) = 1" "\<not> sie (cpus (kern s) h)"
    and k: "resume_proc r p (on h s) = Some k"
  shows "resumed h p (kern s) k"
proof -
  have held: "locked (locks (kern s) (ProcLock p))" "lcpu (locks (kern s) (ProcLock p)) = Some h"
    using locks_ok_held [OF ok, of h p] h by (simp_all add: held_by_def)
  show ?thesis
  proof (cases r)
    case Fresh
    then show ?thesis
      using k held c by (auto simp: resume_proc_def release_held resumed_def popped_def minv_def)
  next
    case (Yielded ie)
    then show ?thesis
      using k held c
      by (auto simp: resume_proc_def yield_exit_def sched_exit_def cpu_defs release_held resumed_def
          popped_def minv_def)
  next
    case (Slept ie lk)
    define t where "t = (upd_proc p (\<lambda>q. q\<lparr>pchan := None\<rparr>) (sched_exit ie (on h s)))
      \<lparr>cpus := (cpus (kern s))(h := popped ((cpus (kern s) h)\<lparr>intena := ie\<rparr>)), locks := dropped (ProcLock p) (locks (kern s))\<rparr>"
    have ht: "hart t = h" by (simp add: t_def sched_exit_def cpu_defs)
    have t: "resumed h p (kern s) t"
      using c by (auto simp: t_def resumed_def sched_exit_def cpu_defs popped_def minv_def upd_proc_def)
    have "release (ProcLock p) (upd_proc p (\<lambda>q. q\<lparr>pchan := None\<rparr>) (sched_exit ie (on h s))) = Some t"
      using held c by (simp add: t_def sched_exit_def cpu_defs release_held)
    with k Slept have k: "acquire lk t \<bind> release lk = Some k"
      by (simp add: resume_proc_def sleep_exit_def)
    have l: "\<not> locked (locks t lk)" using k ht acquire_None_iff [of lk t] by (cases "locked (locks t lk)") auto
    have "locks_ok (dropped (ProcLock p) (locks (kern s))) ((loc s)(h := Running p))"
      using ok h by (auto intro: locks_ok_drop)
    then have f: "free_lock (locks t lk)"
      using locks_ok_free l t by (simp add: resumed_def)
    have "cpu_ok (cpus t h)" using t by (auto simp: resumed_def cpu_ok_def)
    then have "k = t\<lparr>cpus := settled t\<rparr>"
      using k l f ht by (simp add: acquire_free release_acquired)
    then show ?thesis
      using t ht by (auto simp: resumed_def settle_def minv_def)
  qed
qed

lemma sinv_resume:
  assumes s: "sinv H e s" and h: "h \<in> H" "loc s h = Resuming p"
    and k: "resume_proc r p (on h s) = Some k"
  shows "sinv H e (s\<lparr>kern := k, loc := (loc s)(h := Running p)\<rparr>)"
proof -
  have o: "hart_ok e (procs (kern s)) (Resuming p) (cpus (kern s) h)" using sinvD(4) [OF s, of h] h by simp
  then have r: "resumed h p (kern s) k"
    using resume_resumed [OF sinvD(2) [OF s] h(2) _ _ k] by (simp add: hart_ok_def)
  have "locks_ok (locks k) ((loc s)(h := Running p))"
    using r locks_ok_drop [OF sinvD(2) [OF s], of h p "Running p"] h by (simp add: resumed_def)
  moreover have "hart_ok e (procs k) (loc s i) (cpus k i)" if "i \<noteq> h" for i
    using sinvD(4) [OF s, of i] r that by (auto simp: resumed_def hart_ok_def)
  moreover have "hart_ok e (procs k) (Running p) (cpus k h)"
    using o r by (auto simp: resumed_def hart_ok_def)
  moreover have "minv k" using r sinvD(1) [OF s] by (simp add: resumed_def)
  ultimately show ?thesis
    using sinvD(3) [OF s] h by (auto simp: sinv_def intro!: apart_ok_upd)
qed

lemma sinv_leave:
  assumes s: "sinv H e s" and h: "h \<in> H" "loc s h = Leaving p"
    and k: "scheduler_exit p (on h s) = Some k"
  shows "sinv H e (s\<lparr>kern := k, loc := (loc s)(h := Top)\<rparr>)"
proof -
  have o: "hart_ok e (procs (kern s)) (Leaving p) (cpus (kern s) h)" using sinvD(4) [OF s, of h] h by simp
  have "held_by (locks (kern s) (ProcLock p)) h" using locks_ok_held [OF sinvD(2) [OF s]] h by simp
  with o k have r: "resumed h p ((kern s)\<lparr>cpus := (cpus (kern s))(h := (cpus (kern s) h)\<lparr>cproc := None\<rparr>)\<rparr>) k"
    by (auto simp: scheduler_exit_def cpu_defs upd_proc_def hart_ok_def held_by_def release_held resumed_def
        popped_def minv_def)
  have "locks_ok (locks k) ((loc s)(h := Top))"
    using r locks_ok_drop [OF sinvD(2) [OF s], of h p Top] h by (simp add: resumed_def)
  moreover have "hart_ok e (procs k) (loc s i) (cpus k i)" if "i \<noteq> h" for i
    using sinvD(4) [OF s, of i] r that by (auto simp: resumed_def hart_ok_def)
  moreover have "hart_ok e (procs k) Top (cpus k h)" using r by (auto simp: resumed_def hart_ok_def)
  moreover have "minv k" using r sinvD(1) [OF s] by (simp add: resumed_def minv_def)
  ultimately show ?thesis
    using sinvD(3) [OF s] h by (auto simp: sinv_def intro!: apart_ok_upd)
qed

text \<open>A process that is \<open>RUNNABLE\<close> is on no hart, so the scan may take it.\<close>

lemma ready_inactive:
  assumes s: "sinv H e s" and h: "h \<in> H" "loc s h = Scan pr p" and one: "e \<longrightarrow> H \<subseteq> {h}"
    and r: "pstate (procs (kern s) p) = RUNNABLE" and f: "free_lock (locks (kern s) (ProcLock p))"
  shows "active (loc s i) \<noteq> Some p"
proof
  assume a: "active (loc s i) = Some p"
  then have "i \<in> H" "i \<noteq> h" using sinvD(3) [OF s] h by (auto simp: apart_ok_def)
  then have "\<not> e" using one by auto
  moreover have "held_by (locks (kern s) (ProcLock p)) i" if "loc s i = Leaving p"
    using locks_ok_held [OF sinvD(2) [OF s], of i p] that by simp
  ultimately show False
    using sinvD(4) [OF s, of i] a r f
    by (cases "loc s i") (auto simp: hart_ok_def held_by_def free_lock_def)
qed

lemma mlfq_ok_dispatched: "mlfq_ok q \<Longrightarrow> pstate q \<noteq> UNUSED \<Longrightarrow> mlfq_ok (dispatched now q)"
  by (simp add: mlfq_ok_def dispatched_def)

lemma sinv_hit:
  assumes s: "sinv H e s" and h: "h \<in> H" "loc s h = Scan pr p" and one: "e \<longrightarrow> H \<subseteq> {h}"
    and k: "scan_one pr p (on h s) = Some (True, k)"
  shows "sinv H e (s\<lparr>kern := k, loc := (loc s)(h := Resuming p)\<rparr>)"
proof -
  have l: "\<not> locked (locks (kern s) (ProcLock p))"
    using k acquire_None_iff [of "ProcLock p" "on h s"] by (auto simp: scan_one_def bind_eq_Some_conv)
  then have f: "free_lock (locks (kern s) (ProcLock p))" using locks_ok_free [OF sinvD(2) [OF s]] by simp
  have o: "hart_ok e (procs (kern s)) (Scan pr p) (cpus (kern s) h)" using sinvD(4) [OF s, of h] h by simp
  then have "intr_ok (on h s)" by (simp add: hart_ok_def cpu_ok_def)
  then have r: "pstate (procs (kern s) p) = RUNNABLE" and kk: "k = dispatch p (with_lock (ProcLock p) (on h s))"
    using k f by (auto simp: scan_one_eq ready_def split: if_splits)
  have na: "active (loc s i) \<noteq> Some p" for i by (rule ready_inactive [OF s h one r f])
  have "locks_ok (locks k) ((loc s)(h := Resuming p))"
    using locks_ok_take [OF sinvD(2) [OF s] f, of h "Resuming p"] h kk by (simp add: dispatch_eq with_lock_def)
  moreover have "hart_ok e (procs k) (loc s i) (cpus k i)" if "i \<noteq> h" for i
    using sinvD(4) [OF s, of i] na [of i] kk that
    by (auto simp: dispatch_eq with_lock_def hart_ok_def)
  moreover have "hart_ok e (procs k) (Resuming p) (cpus k h)"
    using o kk by (auto simp: dispatch_eq with_lock_def hart_ok_def dispatched_def pushed_def)
  moreover have "minv k"
    using sinvD(1) [OF s] kk r by (auto simp: minv_def dispatch_eq with_lock_def mlfq_ok_dispatched)
  moreover have "apart_ok H e ((loc s)(h := Resuming p))"
    using sinvD(3) [OF s] na h by (auto simp: apart_ok_def)
  ultimately show ?thesis
    by (simp add: sinv_def)
qed

text \<open>Every step keeps the invariant, when one hart runs or no slice ends.\<close>

lemma sinv_tick:
  assumes s: "sinv H e s" and k: "clockintr (on h s) = Some k"
  shows "hb (set_option (active (loc s h))) (on h s) {} k"
proof -
  have "cproc (cpus (kern s) h) = active (loc s h)" using sinvD(4) [OF s, of h] by (simp add: hart_ok_def)
  then have "post (clockintr (on h s)) (\<lambda>t. hb (set_option (active (loc s h))) (on h s) {} t)"
    by (intro hb_clockintr [OF sinv_hb [OF s]]) auto
  then show ?thesis using k by (rule postD)
qed

lemma scan_next_idle: "holds (scan_next pr p) = None" "active (scan_next pr p) = None"
  "scan_next pr p \<noteq> Running q" "scan_next pr p \<noteq> Ticked q"
  by (auto simp: scan_next_def)

lemma sinv_running:
  assumes "sinv H e s" and "loc s h = Running p"
  shows "cproc (cpus (kern s) h) = Some p" "pstate (procs (kern s) p) = RUNNING"
  using sinvD(4) [OF assms(1), of h] assms(2) by (simp_all add: hart_ok_def)

lemma sinv_call:
  assumes s: "sinv H e s" and h: "h \<in> H" "loc s h = Running p" and one: "e \<longrightarrow> H \<subseteq> {h}"
    and k: "hb {} (on h s) {} k"
  shows "sinv H e (s\<lparr>kern := k, rpt := r\<rparr>)"
proof -
  have "pstate (procs k p) = RUNNING"
    using sinv_running(2) [OF s h(2)] k by (simp add: hb_def run_kept_def)
  then have "sinv H e (s\<lparr>kern := k, loc := (loc s)(h := Running p), rpt := r\<rparr>)"
    using h by (intro sinv_free_step [OF s h(1) one k]) auto
  moreover have "(loc s)(h := Running p) = loc s" using h(2) by auto
  ultimately show ?thesis by (simp add: sinv_def)
qed

lemma sinv_block:
  assumes s: "sinv H e s" and h: "h \<in> H" "loc s h = Running p" and one: "e \<longrightarrow> H \<subseteq> {h}"
    and k: "hb {p} (on h s) {ProcLock p} k"
  shows "sinv H e (s\<lparr>kern := k, loc := (loc s)(h := Leaving p), rpt := r\<rparr>)"
  using h by (intro sinv_lock_step [OF s h(1) one k]) auto

lemma sinv_top:
  assumes s: "sinv H e s" and h: "h \<in> H" "loc s h = Top"
  shows "sinv H e (s\<lparr>kern := intr_off (intr_on (on h s)), loc := (loc s)(h := Scan MLFQ_HIGH 0)\<rparr>)"
proof -
  have "hart_ok e (procs (kern s)) Top (cpus (kern s) h)" using sinvD(4) [OF s, of h] h by simp
  then show ?thesis
    using s h by (auto simp: sinv_def cpu_defs minv_def hart_ok_def intro: locks_ok_same apart_ok_upd)
qed

lemma sinv_ticked:
  assumes s: "sinv H e s" and h: "h \<in> H" "loc s h = Running p" and one: "e \<longrightarrow> H \<subseteq> {h}"
    and k: "clockintr (on h s) = Some k" and g: "e \<or> pstate (procs k p) = RUNNING"
  shows "sinv H e (s\<lparr>kern := k, loc := (loc s)(h := Ticked p)\<rparr>)"
proof -
  have t: "hb {p} (on h s) {} k" using sinv_tick [OF s k] h by simp
  then have u: "pstate (procs k p) \<noteq> UNUSED"
    using sinv_running(2) [OF s h(2)] by (simp add: hb_def run_kept_def)
  show ?thesis
    using h g u sinv_free_step [OF s h(1) one t, of "Ticked p" "rpt s"] by auto
qed

lemma sinv_yield:
  assumes s: "sinv H e s" and h: "h \<in> H" "loc s h = Ticked p" and one: "e \<longrightarrow> H \<subseteq> {h}"
    and k: "yield_enter (on h s) = Some ((q, ie), k)"
  shows "sinv H e (s\<lparr>kern := k, loc := (loc s)(h := Leaving p), rpt := r\<rparr>)"
proof -
  have o: "hart_ok e (procs (kern s)) (Ticked p) (cpus (kern s) h)" using sinvD(4) [OF s, of h] h by simp
  have "post (yield_enter (on h s)) (\<lambda>((q, ie), t). hb {p} (on h s) {ProcLock p} t \<and> q = p)"
    using o by (intro hb_yield_enter [OF sinv_hb [OF s]]) (auto simp: hart_ok_def)
  then have "hb {p} (on h s) {ProcLock p} k" using postD [OF _ k] by auto
  then show ?thesis using h by (intro sinv_lock_step [OF s h(1) one]) auto
qed

lemma sinv_sleep:
  assumes s: "sinv H e s" and h: "h \<in> H" "loc s h = Running p" and one: "e \<longrightarrow> H \<subseteq> {h}"
    and lk: "\<forall>q. lk \<noteq> ProcLock q" "lk \<noteq> KmemLock"
    and k: "acquire lk (on h s) \<bind> sleep_enter ch lk = Some ((q, ie), k)"
  shows "sinv H e (s\<lparr>kern := k, loc := (loc s)(h := Leaving p), rpt := r\<rparr>)"
proof -
  have "post (acquire lk (on h s) \<bind> sleep_enter ch lk) (\<lambda>((q, ie), t). hb {p} (on h s) {ProcLock p} t \<and> q = p)"
    using sinv_running [OF s h(2)] lk
    by (intro post_bind [OF hb_acquire [OF sinv_hb [OF s]]])
      (auto intro!: hb_sleep_enter [THEN post_mono])
  then have "hb {p} (on h s) {ProcLock p} k" using postD [OF _ k] by auto
  then show ?thesis by (rule sinv_block [OF s h one])
qed

lemma hb_kwait_enter:
  assumes s: "hb {} s0 {} s0" and me: "cproc (cpus s0 (hart s0)) = Some p" and run: "pstate (procs s0 p) = RUNNING"
  shows "post (kwait_enter addr s0) (\<lambda>(q, r, t). q = p \<and> (case r of Done _ \<Rightarrow> hb {} s0 {} t
    | Asleep _ \<Rightarrow> hb {p} s0 {ProcLock p} t))"
proof -
  have rnd: "post (kwait_round p addr t) (\<lambda>(r, t). case r of Done _ \<Rightarrow> hb {} s0 {} t | Asleep _ \<Rightarrow> hb {p} s0 {ProcLock p} t)"
    if "hb {} s0 {WaitLock} t" for t
    using hb_kwait_round [OF that _ me run, of addr] by (rule post_mono) (auto split: resumable.splits)
  have acq: "post (acquire WaitLock t) (\<lambda>t. hb {} s0 {WaitLock} t)" if "hb {} s0 {} t" for t
    using hb_acquire [OF that, of WaitLock] by (rule post_mono) auto
  show ?thesis
    unfolding kwait_enter_def
    by (rule post_bind2 [OF hb_myproc [OF s]], clarsimp simp: me deref_def)
      (rule post_bind [OF acq], assumption, rule post_bind2 [OF rnd], assumption, auto intro!: vcg)
qed

lemma hb_fork:
  assumes s: "hb {} s0 {} s0" and a: "allocproc s0 = Some (r, t)"
  shows "case r of None \<Rightarrow> hb {} s0 {} t | Some np \<Rightarrow> post (kfork_publish p np t) (\<lambda>(pd, k). hb {} s0 {} k)"
  using postD [OF hb_allocproc [OF s] a] hb_kfork_publish [where A = "{}"] by (auto split: option.splits)

lemma sinv_step:
  assumes st: "sched_step H e s s'" and s: "sinv H e s" and one: "e \<longrightarrow> (\<exists>h. H \<subseteq> {h})"
  shows "sinv H e s'"
proof -
  have one: "e \<longrightarrow> H \<subseteq> {h}" if "h \<in> H" for h using one that by auto
  note hb0 = sinv_hb [OF s]
  note run = sinv_running [OF s]
  from st show ?thesis
  proof cases
    case (top h)
    then show ?thesis using sinv_top [OF s] by simp
  next
    case (idle_tick h k)
    then have "(loc s)(h := Top) = loc s" by auto
    moreover have "hb {} (on h s) {} k" using sinv_tick [OF s idle_tick(4)] idle_tick by simp
    ultimately show ?thesis
      using idle_tick sinv_free_step [OF s _ one, of h "{}" k Top "rpt s"] by simp
  next
    case (hit h pr p k)
    then show ?thesis using sinv_hit [OF s _ _ one] by simp
  next
    case (miss h pr p k)
    have "hb {} (on h s) {} k" using postD [OF hb_scan_miss [OF hb0] miss(4)] by simp
    then show ?thesis
      using miss scan_next_idle [of pr p] sinv_free_step [OF s _ one, of h "{}" k "scan_next pr p" "rpt s"] by simp
  next
    case (resume h p k)
    then show ?thesis using sinv_resume [OF s] by simp
  next
    case (tick h p k)
    then show ?thesis using sinv_ticked [OF s _ _ one] by simp
  next
    case (yield h p q ie k)
    then show ?thesis using sinv_yield [OF s _ _ one] by simp
  next
    case (leave h p k)
    then show ?thesis using sinv_leave [OF s] by simp
  next
    case (sleep h p lk ch q ie k)
    then show ?thesis using sinv_sleep [OF s _ _ one] by simp
  next
    case (wake h p ch k)
    have "hb {} (on h s) {} k" using postD [OF hb_wakeup [OF hb0] wake(4)] by simp
    then show ?thesis using wake sinv_call [OF s _ _ one, of h p k "rpt s"] by simp
  next
    case (kill h p pd r k)
    have "hb {} (on h s) {} k" using postD [OF hb_kkill [OF hb0] kill(4)] by simp
    then show ?thesis using kill sinv_call [OF s _ _ one, of h p k "rpt s"] by simp
  next
    case (fork h p np k' pd k)
    have "post (kfork_publish p np k') (\<lambda>(pd, k). hb {} (on h s) {} k)"
      using hb_fork [OF hb0 fork(4)] by simp
    then have "hb {} (on h s) {} k" using postD [OF _ fork(5)] by auto
    then show ?thesis using fork sinv_call [OF s _ _ one, of h p k] by simp
  next
    case (no_fork h p k)
    have "hb {} (on h s) {} k" using hb_fork [OF hb0 no_fork(4)] by simp
    then show ?thesis using no_fork sinv_call [OF s _ _ one, of h p k "rpt s"] by simp
  next
    case (exit h p st ie k)
    have "post (kexit_final p st (on h s)) (\<lambda>(ie, t). hb {p} (on h s) {ProcLock p} t)"
      using run [OF exit(3)] by (intro hb_kexit_final [OF hb0]) auto
    then have "hb {p} (on h s) {ProcLock p} k" using postD [OF _ exit(4)] by auto
    then show ?thesis using exit sinv_block [OF s _ _ one, of h p k "rpt s"] by simp
  next
    case (reap h p addr q r k)
    have "hb {} (on h s) {} k"
      using postD [OF hb_kwait_enter [OF hb0] reap(4)] run [OF reap(3)] by simp
    then show ?thesis using reap sinv_call [OF s _ _ one, of h p k "rpt s"] by simp
  next
    case (wait h p addr q q' ie k)
    have "hb {p} (on h s) {ProcLock p} k"
      using postD [OF hb_kwait_enter [OF hb0] wait(4)] run [OF wait(3)] by simp
    then show ?thesis using wait sinv_block [OF s _ _ one, of h p k] by simp
  qed
qed

lemma sinv_init: "sched_init s \<Longrightarrow> sinv H e s"
  by (auto simp: sched_init_def sinv_def locks_ok_def apart_ok_def hart_ok_def free_lock_def)

interpretation no_expiry: inductive_invariant sched_init "sched_step H False" "sinv H False" for H
  by unfold_locales (auto intro: sinv_init sinv_step)

interpretation one_hart: inductive_invariant sched_init "sched_step {h} True" "sinv {h} True" for h
  by unfold_locales (auto intro: sinv_init elim!: sinv_step)

section \<open>Two harts on one process\<close>

text \<open>The scan of a hart that finds nothing to run changes nothing but its own \<open>intena\<close>.\<close>

definition like :: "nat \<Rightarrow> sched_sys \<Rightarrow> sched_sys \<Rightarrow> bool" where
  "like h s t \<longleftrightarrow> procs (kern t) = procs (kern s) \<and> locks (kern t) = locks (kern s) \<and> rpt t = rpt s \<and>
     noff (cpus (kern t) h) = noff (cpus (kern s) h)"

lemma miss_step:
  assumes h: "h \<in> H" "loc s h = Scan pr p" and n: "noff (cpus (kern s) h) = 0"
    and p: "free_lock (locks (kern s) (ProcLock p))" "\<not> ready (procs (kern s)) pr p"
  shows "\<exists>t. sched_step H e s t \<and> loc t = (loc s)(h := scan_next pr p) \<and> like h s t"
proof -
  have "intr_ok (on h s)" using n by (simp add: cpu_ok_def)
  then have "scan_one pr p (on h s) = Some (False, (on h s)\<lparr>cpus := settle h (cpus (kern s))\<rparr>)"
    using p by (simp add: scan_one_eq)
  from sched_step.miss [OF h this] show ?thesis
    by (intro exI conjI, assumption) (simp_all add: like_def)
qed

lemma miss_steps:
  assumes h: "h \<in> H" and n: "noff (cpus (kern s) h) = 0" and f: "\<And>p. free_lock (locks (kern s) (ProcLock p))"
    and r: "\<And>p. \<not> ready (procs (kern s)) pr p" and l: "loc s h = Scan pr 0"
  shows "m < NPROC \<Longrightarrow> \<exists>t. (sched_step H e)\<^sup>*\<^sup>* s t \<and> loc t = (loc s)(h := Scan pr m) \<and> like h s t"
proof (induction m)
  case 0
  then show ?case using l by (intro exI [of _ s]) (auto simp: like_def)
next
  case (Suc m)
  then obtain t where t: "(sched_step H e)\<^sup>*\<^sup>* s t" "loc t = (loc s)(h := Scan pr m)" "like h s t"
    by (meson Suc_lessD)
  obtain u where "sched_step H e t u" "loc u = (loc t)(h := scan_next pr m)" "like h t u"
    using miss_step [OF h, of t pr m e] t n f r by (auto simp: like_def)
  moreover have "scan_next pr m = Scan pr (Suc m)" using Suc.prems by (simp add: scan_next_def)
  ultimately show ?case
    using t by (intro exI [of _ u]) (auto simp: like_def)
qed

lemma scan_level:
  assumes h: "h \<in> H" and n: "noff (cpus (kern s) h) = 0" and f: "\<And>p. free_lock (locks (kern s) (ProcLock p))"
    and r: "\<And>p. \<not> ready (procs (kern s)) pr p" and l: "loc s h = Scan pr 0" and pr: "pr < MLFQ_LOW"
  shows "\<exists>t. (sched_step H e)\<^sup>*\<^sup>* s t \<and> loc t = (loc s)(h := Scan (pr + 1) 0) \<and> like h s t"
proof -
  obtain t where t: "(sched_step H e)\<^sup>*\<^sup>* s t" "loc t = (loc s)(h := Scan pr 63)" "like h s t"
    using miss_steps [OF h n f r l, of 63] by (auto simp: NPROC_def)
  obtain u where "sched_step H e t u" "loc u = (loc t)(h := scan_next pr 63)" "like h t u"
    using miss_step [OF h, of t pr 63 e] t n f r by (auto simp: like_def)
  then show ?thesis
    using t pr by (intro exI [of _ u]) (auto simp: like_def scan_next_def NPROC_def)
qed

text \<open>A hart that scans and meets a ready process whose lock is free runs it.\<close>

definition took :: "nat \<Rightarrow> nat \<Rightarrow> sched_sys \<Rightarrow> sched_sys \<Rightarrow> bool" where
  "took h p s t \<longleftrightarrow> procs (kern t) = (procs (kern s))(p := dispatched (ticks (kern s)) (procs (kern s) p)) \<and>
     locks (kern t) = locks (kern s) \<and> starvation_counter (kern t) = starvation_counter (kern s) \<and>
     rpt t = rpt s \<and> cproc (cpus (kern t) h) = Some p \<and> noff (cpus (kern t) h) = 0 \<and>
     (\<forall>i. i \<noteq> h \<longrightarrow> cpus (kern t) i = cpus (kern s) i)"

lemma take_proc:
  assumes h: "h \<in> H" and n: "noff (cpus (kern s) h) = 0" and f: "free_lock (locks (kern s) (ProcLock p))"
    and r: "ready (procs (kern s)) pr p" and l: "loc s h = Scan pr p" and fresh: "rpt s p = Fresh"
  shows "\<exists>t. (sched_step H e)\<^sup>*\<^sup>* s t \<and> loc t = (loc s)(h := Running p) \<and> took h p s t"
proof -
  let ?k = "dispatch p (with_lock (ProcLock p) (on h s))"
  have "intr_ok (on h s)" using n by (simp add: cpu_ok_def)
  then have "scan_one pr p (on h s) = Some (True, ?k)" using f r by (simp add: scan_one_eq)
  from sched_step.hit [OF h l this]
  have 1: "sched_step H e s (s\<lparr>kern := ?k, loc := (loc s)(h := Resuming p)\<rparr>)" (is "sched_step H e s ?t") .
  have "dropped (ProcLock p) (taken h (ProcLock p) (locks (kern s))) = locks (kern s)"
    using f by (auto simp: dropped_def taken_def free_lock_def)
  then have "\<exists>k. resume_proc (rpt ?t p) p (on h ?t) = Some k \<and> took h p s (s\<lparr>kern := k\<rparr>)"
    using fresh n
    by (simp add: resume_proc_def release_held dispatch_eq with_lock_def pushed_def on_def took_def popped_def
        taken_def [of h _ "locks (kern s)", THEN fun_cong, of "ProcLock p"])
  then obtain k where k: "resume_proc (rpt ?t p) p (on h ?t) = Some k" "took h p s (s\<lparr>kern := k\<rparr>)" by blast
  from sched_step.resume [OF h _ k(1)]
  have 2: "sched_step H e ?t (?t\<lparr>kern := k, loc := (loc ?t)(h := Running p)\<rparr>)" (is "sched_step H e ?t ?u") by simp
  have "(sched_step H e)\<^sup>*\<^sup>* s ?u" using 1 2 by (meson r_into_rtranclp rtranclp_trans)
  moreover have "loc ?u = (loc s)(h := Running p)" by simp
  moreover have "took h p s ?u" using k(2) by (simp add: took_def)
  ultimately show ?thesis by blast
qed

definition boot_sys :: sched_sys where
  "boot_sys = \<lparr>kern = at_rest\<lparr>procs := (\<lambda>_. no_proc)(0 := no_proc\<lparr>pstate := RUNNABLE, pid := 1,
       timeslice := 4, timeslice_used := 3\<rparr>)\<rparr>, loc = (\<lambda>_. Top), rpt = (\<lambda>_. Fresh)\<rparr>"

lemma boot_init: "sched_init boot_sys"
  by (simp add: sched_init_def boot_sys_def minv_def mlfq_ok_def no_proc_def free_lock_def mlfq_defs get_timeslice_def STARVATION_THRESHOLD_def)

lemma boot_runs:
  assumes "h \<in> H"
  shows "\<exists>t. (sched_step H e)\<^sup>*\<^sup>* boot_sys t \<and> loc t = (loc boot_sys)(h := Running 0) \<and> took h 0 boot_sys t"
proof -
  let ?s = "boot_sys\<lparr>kern := intr_off (intr_on (on h boot_sys)), loc := (loc boot_sys)(h := Scan MLFQ_HIGH 0)\<rparr>"
  have 1: "sched_step H e boot_sys ?s" by (rule sched_step.top) (simp_all add: assms boot_sys_def)
  have "noff (cpus (kern ?s) h) = 0" "free_lock (locks (kern ?s) (ProcLock 0))"
    "ready (procs (kern ?s)) MLFQ_HIGH 0" "loc ?s h = Scan MLFQ_HIGH 0" "rpt ?s 0 = Fresh"
    by (simp_all add: boot_sys_def cpu_defs free_lock_def ready_def no_proc_def mlfq_defs)
  from take_proc [OF assms this] obtain t where t: "(sched_step H e)\<^sup>*\<^sup>* ?s t" "loc t = (loc ?s)(h := Running 0)"
    "took h 0 ?s t" by blast
  have "took h 0 boot_sys t" using t(3) by (simp add: took_def cpu_defs)
  with 1 t show ?thesis by (intro exI [of _ t]) auto
qed

text \<open>The tick that ends the slice: the process goes down one level and is marked \<open>RUNNABLE\<close>, with
  its lock free and the hart still running it.\<close>

lemma boot_tick:
  assumes h: "h \<noteq> 0" "h \<in> H"
  shows "\<exists>t. (sched_step H True)\<^sup>*\<^sup>* boot_sys t \<and> loc t = (loc boot_sys)(h := Ticked 0) \<and>
    (\<forall>l. free_lock (locks (kern t) l)) \<and> rpt t = rpt boot_sys \<and>
    (\<forall>i. i \<noteq> h \<longrightarrow> noff (cpus (kern t) i) = 0) \<and>
    ready (procs (kern t)) MLFQ_MEDIUM 0 \<and> (\<forall>p. \<not> ready (procs (kern t)) MLFQ_HIGH p)"
proof -
  obtain s where s: "(sched_step H True)\<^sup>*\<^sup>* boot_sys s" "loc s = (loc boot_sys)(h := Running 0)" "took h 0 boot_sys s"
    using boot_runs [OF h(2)] by blast
  let ?k = "upd_proc 0 tick_proc (count_tick ((on h s)\<lparr>cpus := settle h (cpus (kern s))\<rparr>))"
  have c: "cpu_ok (cpus (kern s) h)" using s(3) by (simp add: took_def cpu_ok_def)
  have "clockintr (on h s) = Some ?k"
    using h s(3) c by (simp add: clockintr_def mlfq_tick_alt cpuid_def myproc_eq took_def count_tick_def
        STARVATION_THRESHOLD_def boot_sys_def dispatched_def)
  from sched_step.tick [where H = H and expiry = True, OF h(2) _ this, of 0]
  have "sched_step H True s (s\<lparr>kern := ?k, loc := (loc s)(h := Ticked 0)\<rparr>)" using s(2) by simp
  with s(1) have "(sched_step H True)\<^sup>*\<^sup>* boot_sys (s\<lparr>kern := ?k, loc := (loc s)(h := Ticked 0)\<rparr>)" by simp
  moreover have "(\<forall>l. free_lock (locks ?k l))" "(\<forall>i. i \<noteq> h \<longrightarrow> noff (cpus ?k i) = 0)"
    "ready (procs ?k) MLFQ_MEDIUM 0" "(\<forall>p. \<not> ready (procs ?k) MLFQ_HIGH p)"
    using s(3) by (auto simp: took_def count_tick_def STARVATION_THRESHOLD_def boot_sys_def free_lock_def
        upd_proc_def ready_def tick_proc_def dispatched_def no_proc_def mlfq_defs get_timeslice_def Let_def)
  ultimately show ?thesis using s(2,3)
    by (intro exI [of _ "s\<lparr>kern := ?k, loc := (loc s)(h := Ticked 0)\<rparr>"]) (auto simp: took_def)
qed

lemma ticked_taken:
  assumes h: "h \<in> H" "loc s h = Top" "noff (cpus (kern s) h) = 0" and f: "\<forall>l. free_lock (locks (kern s) l)"
    and r: "ready (procs (kern s)) MLFQ_MEDIUM 0" "\<forall>p. \<not> ready (procs (kern s)) MLFQ_HIGH p" "rpt s 0 = Fresh"
  shows "\<exists>t. (sched_step H e)\<^sup>*\<^sup>* s t \<and> loc t = (loc s)(h := Running 0)"
proof -
  let ?s = "s\<lparr>kern := intr_off (intr_on (on h s)), loc := (loc s)(h := Scan MLFQ_HIGH 0)\<rparr>"
  have 1: "sched_step H e s ?s" by (rule sched_step.top) fact+
  have "noff (cpus (kern ?s) h) = 0" "\<And>p. free_lock (locks (kern ?s) (ProcLock p))"
    "\<And>p. \<not> ready (procs (kern ?s)) MLFQ_HIGH p" "loc ?s h = Scan MLFQ_HIGH 0" "MLFQ_HIGH < MLFQ_LOW"
    using h f r by (simp_all add: cpu_defs mlfq_defs)
  from scan_level [OF h(1) this] obtain t where t: "(sched_step H e)\<^sup>*\<^sup>* ?s t"
    "loc t = (loc ?s)(h := Scan (MLFQ_HIGH + 1) 0)" "like h ?s t" by blast
  have "noff (cpus (kern t) h) = 0" "free_lock (locks (kern t) (ProcLock 0))"
    "ready (procs (kern t)) MLFQ_MEDIUM 0" "loc t h = Scan MLFQ_MEDIUM 0" "rpt t 0 = Fresh"
    using t(2,3) h f r by (auto simp: like_def cpu_defs mlfq_defs)
  from take_proc [OF h(1) this] obtain u where u: "(sched_step H e)\<^sup>*\<^sup>* t u" "loc u = (loc t)(h := Running 0)"
    by blast
  have "(sched_step H e)\<^sup>*\<^sup>* s u" using 1 t(1) u(1) by (meson converse_rtranclp_into_rtranclp rtranclp_trans)
  then show ?thesis using u(2) t(2) by auto
qed

section \<open>Properties\<close>

text \<open>C2. As long as no time slice ends, no process is on two harts: whatever the harts do, in any
  interleaving of scheduling, timer interrupts, sleeping, waking, killing, forking, exiting and
  waiting, two harts that are dispatching, running or switching away from a process have
  different processes.\<close>

theorem running_exclusive:
  assumes "sched_init s" and "(sched_step H False)\<^sup>*\<^sup>* s t"
    and "active (loc t h) = Some p" and "active (loc t h') = Some p"
  shows "h = h'"
  using sinvD(3) [OF no_expiry.reachable_inv [OF assms(1,2)]] assms(3,4) by (auto simp: apart_ok_def)

theorem running_exclusive_witness:
  "\<exists>t. (sched_step UNIV False)\<^sup>*\<^sup>* boot_sys t \<and> loc t 1 = Running 0 \<and> (\<forall>h. active (loc t h) = Some 0 \<longrightarrow> h = 1)"
proof -
  obtain t where t: "(sched_step UNIV False)\<^sup>*\<^sup>* boot_sys t" "loc t = (loc boot_sys)(1 := Running 0)"
    using boot_runs [OF UNIV_I] by blast
  have r: "loc t 1 = Running 0" "active (loc t 1) = Some 0" using t(2) by simp_all
  have "\<forall>h. active (loc t h) = Some 0 \<longrightarrow> h = 1" using running_exclusive [OF boot_init t(1) _ r(2)] by blast
  with t(1) r(1) show ?thesis by blast
qed

text \<open>C3. A slice that ends breaks that. \<open>mlfq_tick\<close> marks the process \<open>RUNNABLE\<close> without its lock,
  before \<open>yield\<close>; a second hart in its scan then dispatches it and returns to user space while the
  first hart is still on its kernel stack.\<close>

theorem slice_end_runs_twice:
  "\<exists>s t. sched_init s \<and> (sched_step {0, 1} True)\<^sup>*\<^sup>* s t \<and> loc t 1 = Ticked 0 \<and> loc t 0 = Running 0"
proof -
  have h: "(1::nat) \<noteq> 0" "1 \<in> {0, 1::nat}" "0 \<in> {0, 1::nat}" by simp_all
  obtain s where s: "(sched_step {0, 1} True)\<^sup>*\<^sup>* boot_sys s" "loc s = (loc boot_sys)(1 := Ticked 0)"
    "\<forall>l. free_lock (locks (kern s) l)" "rpt s = rpt boot_sys" "\<forall>i. i \<noteq> 1 \<longrightarrow> noff (cpus (kern s) i) = 0"
    "ready (procs (kern s)) MLFQ_MEDIUM 0" "\<forall>p. \<not> ready (procs (kern s)) MLFQ_HIGH p"
    using boot_tick [OF h(1,2)] by blast
  have l: "loc s 0 = Top" "noff (cpus (kern s) 0) = 0" using s(2,5) by (simp_all add: boot_sys_def)
  have "rpt s 0 = Fresh" using s(4) by (simp add: boot_sys_def)
  then obtain t where t: "(sched_step {0, 1} True)\<^sup>*\<^sup>* s t" "loc t = (loc s)(0 := Running 0)"
    using ticked_taken [OF h(3) l s(3,6,7)] by blast
  have "(sched_step {0, 1} True)\<^sup>*\<^sup>* boot_sys t" using s(1) t(1) by (rule rtranclp_trans)
  moreover have "loc t 1 = Ticked 0" "loc t 0 = Running 0" using s(2) t(2) by simp_all
  ultimately show ?thesis using boot_init by blast
qed



end
