(* ===== verification/Console.thy ===== *)
theory Console
  imports Proc Format
begin

text \<open>
  The UART driver, kernel printing and the console: \<^verbatim>\<open>kernel/uart.c\<close>, \<^verbatim>\<open>kernel/printf.c\<close>,
  \<^verbatim>\<open>kernel/console.c\<close> and \<open>procdump\<close> of \<^verbatim>\<open>kernel/proc.c\<close>.

  The 16550's registers are hardware: \<open>uart_log\<close> is the sequence of register writes, \<open>uart_in\<close> the
  bytes received and not yet read from \<open>RHR\<close>, \<open>uart_idle\<close> the transmitter bit of \<open>LSR\<close>. Waiting for
  that bit with interrupts off does not return when it is clear. A call that sleeps returns
  \<open>Blocked\<close> with the local variables it resumes with.
\<close>

section \<open>State\<close>

datatype devfn = Consoleread | Consolewrite

definition INPUT_BUF_SIZE :: u32 where "INPUT_BUF_SIZE = 128"
definition NDEV :: nat where "NDEV = 10"

record cons = ptable +
  panicking :: bool
  panicked :: bool
  uart_log :: "(nat \<times> u8) list"
  uart_in :: bytes
  uart_idle :: bool
  tx_busy :: bool
  cons_buf :: "nat \<Rightarrow> u8"
  cons_r :: u32
  cons_w :: u32
  cons_e :: u32
  devsw_read :: "nat \<Rightarrow> devfn option"
  devsw_write :: "nat \<Rightarrow> devfn option"

datatype ('r, 'l) outcome = Return 'r | Blocked 'l "nat \<times> bool"

section \<open>The UART\<close>

definition THR :: nat where "THR = 0"
definition IER :: nat where "IER = 1"
definition FCR :: nat where "FCR = 2"
definition LCR :: nat where "LCR = 3"

definition WriteReg :: "nat \<Rightarrow> u8 \<Rightarrow> 'a cons_scheme \<Rightarrow> 'a cons_scheme" where
  "WriteReg r v s = s\<lparr>uart_log := uart_log s @ [(r, v)]\<rparr>"

definition uartinit :: "'a cons_scheme \<Rightarrow> 'a cons_scheme" where
  "uartinit s =
     (let s = WriteReg IER 0 s;
          s = WriteReg LCR 128 s;
          s = WriteReg 0 3 s;
          s = WriteReg 1 0 s;
          s = WriteReg LCR 3 s;
          s = WriteReg FCR (1 OR 6) s;
          s = WriteReg IER (2 OR 1) s
      in initlock TxLock ''uart'' s)"

primrec uartwrite_loop :: "bytes \<Rightarrow> 'a cons_scheme \<Rightarrow> ((unit, bytes) outcome \<times> 'a cons_scheme) option" where
  "uartwrite_loop [] s = do { s \<leftarrow> release TxLock s; Some (Return (), s) }"
| "uartwrite_loop (c # cs) s =
     (if tx_busy s then do { (l, s) \<leftarrow> sleep_enter ChanTx TxLock s; Some (Blocked (c # cs) l, s) }
      else uartwrite_loop cs ((WriteReg THR c s)\<lparr>tx_busy := True\<rparr>))"

definition uartwrite :: "bytes \<Rightarrow> 'a cons_scheme \<Rightarrow> ((unit, bytes) outcome \<times> 'a cons_scheme) option" where
  "uartwrite buf s = do { s \<leftarrow> acquire TxLock s; uartwrite_loop buf s }"

definition uartwrite_resume :: "bytes \<Rightarrow> nat \<times> bool \<Rightarrow> 'a cons_scheme \<Rightarrow>
    ((unit, bytes) outcome \<times> 'a cons_scheme) option" where
  "uartwrite_resume cs l s = do { s \<leftarrow> sleep_exit l TxLock s; uartwrite_loop cs s }"

definition uartputc_sync :: "u8 \<Rightarrow> 'a cons_scheme \<Rightarrow> 'a cons_scheme option" where
  "uartputc_sync c s =
     (let s = (if \<not> panicking s then push_off s else s)
      in if panicked s then None
         else if \<not> uart_idle s then None
         else let s = WriteReg THR c s
              in if \<not> panicking s then pop_off s else Some s)"

definition uartgetc :: "'a cons_scheme \<Rightarrow> u8 option \<times> 'a cons_scheme" where
  "uartgetc s = (case uart_in s of [] \<Rightarrow> (None, s) | c # cs \<Rightarrow> (Some c, s\<lparr>uart_in := cs\<rparr>))"

section \<open>Printing\<close>

definition BACKSPACE :: int where "BACKSPACE = 256"

definition consputc :: "int \<Rightarrow> 'a cons_scheme \<Rightarrow> 'a cons_scheme option" where
  "consputc c s =
     (if c = BACKSPACE then do {
        s \<leftarrow> uartputc_sync 8 s;
        s \<leftarrow> uartputc_sync 32 s;
        uartputc_sync 8 s
      } else uartputc_sync (word_of_int c) s)"

primrec consputs :: "bytes \<Rightarrow> 'a cons_scheme \<Rightarrow> 'a cons_scheme option" where
  "consputs [] s = Some s"
| "consputs (c # cs) s = do { s \<leftarrow> consputc (uint c) s; consputs cs s }"

definition kdigits :: bytes where
  "kdigits = str ''0123456789abcdef''"

definition printint :: "u64 \<Rightarrow> nat \<Rightarrow> bool \<Rightarrow> 'a cons_scheme \<Rightarrow> 'a cons_scheme option" where
  "printint xx base sg s = consputs (rev (int_buf kdigits xx base sg)) s"

definition printptr :: "u64 \<Rightarrow> 'a cons_scheme \<Rightarrow> 'a cons_scheme option" where
  "printptr x s = consputs (ptr_chars kdigits x) s"

function printf_loop :: "bytes \<Rightarrow> arg list \<Rightarrow> 'a cons_scheme \<Rightarrow> 'a cons_scheme option" where
  "printf_loop [] as s = Some s"
| "printf_loop (c # cs) as s =
     (if c \<noteq> asc (CHR ''%'') then do { s \<leftarrow> consputc (uint c) s; printf_loop cs as s }
      else let (d, k) = read_directive cs
           in if d = End then Some s
              else do {
                (out, as) \<leftarrow> directive_chars kdigits d as;
                s \<leftarrow> consputs out s;
                printf_loop (drop k cs) as s
              })"
  by pat_completeness auto
termination
  by (relation "measure (\<lambda>(f, as, s). length f)") auto

definition printf :: "bytes \<Rightarrow> arg list \<Rightarrow> 'a cons_scheme \<Rightarrow> 'a cons_scheme option" where
  "printf fmt as s = do {
     s \<leftarrow> (if \<not> panicking s then acquire PrLock s else Some s);
     s \<leftarrow> printf_loop fmt as s;
     if \<not> panicking s then release PrLock s else Some s
   }"

text \<open>\<open>panic\<close> prints and then spins for ever. Everywhere else in the development a panic is the
  result \<open>None\<close> of the function that would call it; the message is what this prints before that.\<close>

definition panic_message :: "bytes \<Rightarrow> 'a cons_scheme \<Rightarrow> 'a cons_scheme option" where
  "panic_message m s = do {
     let s = s\<lparr>panicking := True\<rparr>;
     s \<leftarrow> printf (str ''panic: '') [] s;
     s \<leftarrow> printf (str ''%s'' @ [10]) [Str (Some m)] s;
     Some (s\<lparr>panicked := True\<rparr>)
   }"

definition printfinit :: "'a cons_scheme \<Rightarrow> 'a cons_scheme" where
  "printfinit s = initlock PrLock ''pr'' s"

definition state_name :: "procstate \<Rightarrow> bytes" where
  "state_name st = str (case st of UNUSED \<Rightarrow> ''unused'' | USED \<Rightarrow> ''used'' | SLEEPING \<Rightarrow> ''sleep ''
     | RUNNABLE \<Rightarrow> ''runble'' | RUNNING \<Rightarrow> ''run   '' | ZOMBIE \<Rightarrow> ''zombie'')"

text \<open>A name is printed up to its first nul.\<close>

definition cstring :: "bytes \<Rightarrow> bytes" where
  "cstring bs = takeWhile (\<lambda>c. c \<noteq> 0) bs"

primrec procdump_loop :: "nat list \<Rightarrow> 'a cons_scheme \<Rightarrow> 'a cons_scheme option" where
  "procdump_loop [] s = Some s"
| "procdump_loop (p # ps) s =
     (if pstate (procs s p) = UNUSED then procdump_loop ps s
      else do {
        s \<leftarrow> printf (str ''%d %s %s'') [Word (word_of_int (pid (procs s p))),
              Str (Some (state_name (pstate (procs s p)))), Str (Some (cstring (pname (procs s p))))] s;
        s \<leftarrow> printf [10] [] s;
        procdump_loop ps s
      })"

definition procdump :: "'a cons_scheme \<Rightarrow> 'a cons_scheme option" where
  "procdump s = do { s \<leftarrow> printf [10] [] s; procdump_loop [0..<NPROC] s }"

section \<open>The console\<close>

text \<open>The loop of \<open>consolewrite\<close>. Blocked, it keeps \<open>i\<close>, the size of the current chunk and what of it
  the UART has still to take.\<close>

definition cons_chunk :: "int \<Rightarrow> int \<Rightarrow> int" where
  "cons_chunk n i = (if 32 > n - i then n - i else 32)"

function consolewrite_loop :: "bool \<Rightarrow> u64 \<Rightarrow> int \<Rightarrow> int \<Rightarrow> 'a cons_scheme \<Rightarrow>
    ((int, int \<times> int \<times> bytes) outcome \<times> 'a cons_scheme) option" where
  "consolewrite_loop user_src src n i s =
     (if i < n then do {
        let nn = cons_chunk n i;
        (r, buf, s) \<leftarrow> either_copyin user_src (src + word_of_int i) (nat nn) s;
        if r = -1 then Some (Return i, s)
        else do {
          (w, s) \<leftarrow> uartwrite buf s;
          (case w of
             Blocked cs l \<Rightarrow> Some (Blocked (i, nn, cs) l, s)
           | Return _ \<Rightarrow> consolewrite_loop user_src src n (i + nn) s)
        }
      } else Some (Return i, s))"
  by pat_completeness auto
termination
  by (relation "measure (\<lambda>(u, src, n, i, s). nat (n - i))") (auto simp: cons_chunk_def)

definition consolewrite :: "bool \<Rightarrow> u64 \<Rightarrow> int \<Rightarrow> 'a cons_scheme \<Rightarrow>
    ((int, int \<times> int \<times> bytes) outcome \<times> 'a cons_scheme) option" where
  "consolewrite user_src src n s = consolewrite_loop user_src src n 0 s"

definition consolewrite_resume :: "bool \<Rightarrow> u64 \<Rightarrow> int \<Rightarrow> int \<times> int \<times> bytes \<Rightarrow> nat \<times> bool \<Rightarrow> 'a cons_scheme \<Rightarrow>
    ((int, int \<times> int \<times> bytes) outcome \<times> 'a cons_scheme) option" where
  "consolewrite_resume user_src src n loc l s = (case loc of (i, nn, cs) \<Rightarrow> do {
     (w, s) \<leftarrow> uartwrite_resume cs l s;
     (case w of
        Blocked cs l \<Rightarrow> Some (Blocked (i, nn, cs) l, s)
      | Return _ \<Rightarrow> consolewrite_loop user_src src n (i + nn) s)
   })"

text \<open>The loop of \<open>consoleread\<close>, with \<open>n\<close> bytes still wanted of \<open>target\<close>. The comparison of \<open>n\<close> with
  \<open>target\<close> is unsigned; \<open>n\<close> is positive there.\<close>

function consoleread_loop :: "bool \<Rightarrow> int \<Rightarrow> u64 \<Rightarrow> int \<Rightarrow> 'a cons_scheme \<Rightarrow>
    ((int, u64 \<times> int) outcome \<times> 'a cons_scheme) option" where
  "consoleread_loop user_dst target dst n s =
     (if n > 0 then
        if cons_r s = cons_w s then do {
          (p, s) \<leftarrow> myproc s;
          p \<leftarrow> deref p;
          (k, s) \<leftarrow> killed p s;
          if k then do { s \<leftarrow> release ConsLock s; Some (Return (-1), s) }
          else do { (l, s) \<leftarrow> sleep_enter ChanCons ConsLock s; Some (Blocked (dst, n) l, s) }
        } else do {
          let c = cons_buf s (unat (cons_r s mod INPUT_BUF_SIZE));
          let s = s\<lparr>cons_r := cons_r s + 1\<rparr>;
          if c = 4 then do {
            let s = (if n < target then s\<lparr>cons_r := cons_r s - 1\<rparr> else s);
            s \<leftarrow> release ConsLock s;
            Some (Return (target - n), s)
          } else do {
            (r, s) \<leftarrow> either_copyout user_dst dst [c] s;
            if r = -1 then do { s \<leftarrow> release ConsLock s; Some (Return (target - n), s) }
            else if c = 10 then do { s \<leftarrow> release ConsLock s; Some (Return (target - (n - 1)), s) }
            else consoleread_loop user_dst target (dst + 1) (n - 1) s
          }
        }
      else do { s \<leftarrow> release ConsLock s; Some (Return (target - n), s) })"
  by pat_completeness auto
termination
  by (relation "measure (\<lambda>(u, t, dst, n, s). nat n)") auto

definition consoleread :: "bool \<Rightarrow> u64 \<Rightarrow> int \<Rightarrow> 'a cons_scheme \<Rightarrow>
    ((int, u64 \<times> int) outcome \<times> 'a cons_scheme) option" where
  "consoleread user_dst dst n s = do { s \<leftarrow> acquire ConsLock s; consoleread_loop user_dst n dst n s }"

definition consoleread_resume :: "bool \<Rightarrow> int \<Rightarrow> u64 \<times> int \<Rightarrow> nat \<times> bool \<Rightarrow> 'a cons_scheme \<Rightarrow>
    ((int, u64 \<times> int) outcome \<times> 'a cons_scheme) option" where
  "consoleread_resume user_dst target loc l s = (case loc of (dst, n) \<Rightarrow> do {
     s \<leftarrow> sleep_exit l ConsLock s;
     consoleread_loop user_dst target dst n s
   })"

text \<open>Erasing the current line: back to the last newline or to what has already been committed.\<close>

partial_function (option) kill_line :: "'a cons_scheme \<Rightarrow> 'a cons_scheme option" where
  [code]: "kill_line s =
     (if cons_e s \<noteq> cons_w s \<and> cons_buf s (unat ((cons_e s - 1) mod INPUT_BUF_SIZE)) \<noteq> 10
      then do { s \<leftarrow> consputc BACKSPACE (s\<lparr>cons_e := cons_e s - 1\<rparr>); kill_line s }
      else Some s)"

definition consoleintr :: "u8 \<Rightarrow> 'a cons_scheme \<Rightarrow> 'a cons_scheme option" where
  "consoleintr c s = do {
     s \<leftarrow> acquire ConsLock s;
     s \<leftarrow> (if c = 16 then procdump s
           else if c = 21 then kill_line s
           else if c = 8 \<or> c = 127 then
             if cons_e s \<noteq> cons_w s then consputc BACKSPACE (s\<lparr>cons_e := cons_e s - 1\<rparr>) else Some s
           else if c \<noteq> 0 \<and> cons_e s - cons_r s < INPUT_BUF_SIZE then do {
             let c = (if c = 13 then 10 else c);
             s \<leftarrow> consputc (uint c) s;
             let s = s\<lparr>cons_buf := (cons_buf s)(unat (cons_e s mod INPUT_BUF_SIZE) := c), cons_e := cons_e s + 1\<rparr>;
             if c = 10 \<or> c = 4 \<or> cons_e s - cons_r s = INPUT_BUF_SIZE
             then wakeup (Some ChanCons) (s\<lparr>cons_w := cons_e s\<rparr>)
             else Some s
           } else Some s);
     release ConsLock s
   }"

text \<open>The input loop of \<open>uartintr\<close> reads until \<open>LSR\<close> says that nothing is left.\<close>

partial_function (option) uart_input :: "'a cons_scheme \<Rightarrow> 'a cons_scheme option" where
  [code]: "uart_input s = (case uartgetc s of
       (None, s) \<Rightarrow> Some s
     | (Some c, s) \<Rightarrow> do { s \<leftarrow> consoleintr c s; uart_input s })"

definition uartintr :: "'a cons_scheme \<Rightarrow> 'a cons_scheme option" where
  "uartintr s = do {
     s \<leftarrow> acquire TxLock s;
     s \<leftarrow> (if uart_idle s then wakeup (Some ChanTx) (s\<lparr>tx_busy := False\<rparr>) else Some s);
     s \<leftarrow> release TxLock s;
     uart_input s
   }"

definition consoleinit :: "'a cons_scheme \<Rightarrow> 'a cons_scheme" where
  "consoleinit s =
     (let s = initlock ConsLock ''cons'' s;
          s = uartinit s
      in s\<lparr>devsw_read := (devsw_read s)(1 := Some Consoleread),
           devsw_write := (devsw_write s)(1 := Some Consolewrite)\<rparr>)"

end
