(* ===== verification/Sleeplock.thy ===== *)
theory Sleeplock
  imports Console
begin

text \<open>
  Sleep locks: \<^verbatim>\<open>kernel/sleeplock.c\<close>. A process that finds the lock taken sleeps on it, so
  \<open>acquiresleep\<close> comes in two parts, up to the sleep and from the wakeup on; \<open>acquiresleep\<close>
  itself is the path of a caller that does not wait, and the path of one that would wait is
  \<open>None\<close>: in the layers above, another process has to run first.
\<close>

section \<open>Definitions\<close>

record sleeplock =
  slocked :: bool
  slname :: string
  slpid :: int

record sleeptab = cons +
  slocks :: "sleeplock_id \<Rightarrow> sleeplock"

definition upd_slock :: "sleeplock_id \<Rightarrow> (sleeplock \<Rightarrow> sleeplock) \<Rightarrow> 'a sleeptab_scheme \<Rightarrow> 'a sleeptab_scheme" where
  "upd_slock i f s = s\<lparr>slocks := (slocks s)(i := f (slocks s i))\<rparr>"

definition initsleeplock :: "sleeplock_id \<Rightarrow> string \<Rightarrow> 'a sleeptab_scheme \<Rightarrow> 'a sleeptab_scheme" where
  "initsleeplock lk name s =
     (let s = initlock (SleepLk lk) ''sleep lock'' s
      in upd_slock lk (\<lambda>l. l\<lparr>slname := name, slocked := False, slpid := 0\<rparr>) s)"

definition acquiresleep_round :: "sleeplock_id \<Rightarrow> 'a sleeptab_scheme \<Rightarrow>
    (unit resumable \<times> 'a sleeptab_scheme) option" where
  "acquiresleep_round lk s =
     (if slocked (slocks s lk)
      then do { (l, s) \<leftarrow> sleep_enter (ChanSleepLock lk) (SleepLk lk) s; Some (Asleep l, s) }
      else do {
        let s = upd_slock lk (\<lambda>l. l\<lparr>slocked := True\<rparr>) s;
        (p, s) \<leftarrow> myproc s;
        p \<leftarrow> deref p;
        let s = upd_slock lk (\<lambda>l. l\<lparr>slpid := pid (procs s p)\<rparr>) s;
        s \<leftarrow> release (SleepLk lk) s;
        Some (Done (), s)
      })"

definition acquiresleep_enter :: "sleeplock_id \<Rightarrow> 'a sleeptab_scheme \<Rightarrow>
    (unit resumable \<times> 'a sleeptab_scheme) option" where
  "acquiresleep_enter lk s = do { s \<leftarrow> acquire (SleepLk lk) s; acquiresleep_round lk s }"

definition acquiresleep_resume :: "sleeplock_id \<Rightarrow> nat \<times> bool \<Rightarrow> 'a sleeptab_scheme \<Rightarrow>
    (unit resumable \<times> 'a sleeptab_scheme) option" where
  "acquiresleep_resume lk l s = do { s \<leftarrow> sleep_exit l (SleepLk lk) s; acquiresleep_round lk s }"

definition acquiresleep :: "sleeplock_id \<Rightarrow> 'a sleeptab_scheme \<Rightarrow> 'a sleeptab_scheme option" where
  "acquiresleep lk s = do {
     (r, s) \<leftarrow> acquiresleep_enter lk s;
     (case r of Done _ \<Rightarrow> Some s | Asleep _ \<Rightarrow> None)
   }"

definition releasesleep :: "sleeplock_id \<Rightarrow> 'a sleeptab_scheme \<Rightarrow> 'a sleeptab_scheme option" where
  "releasesleep lk s = do {
     s \<leftarrow> acquire (SleepLk lk) s;
     let s = upd_slock lk (\<lambda>l. l\<lparr>slocked := False, slpid := 0\<rparr>) s;
     s \<leftarrow> wakeup (Some (ChanSleepLock lk)) s;
     release (SleepLk lk) s
   }"

definition holdingsleep :: "sleeplock_id \<Rightarrow> 'a sleeptab_scheme \<Rightarrow> (bool \<times> 'a sleeptab_scheme) option" where
  "holdingsleep lk s = do {
     s \<leftarrow> acquire (SleepLk lk) s;
     (r, s) \<leftarrow> (if slocked (slocks s lk)
                then do { (p, s) \<leftarrow> myproc s; p \<leftarrow> deref p; Some (slpid (slocks s lk) = pid (procs s p), s) }
                else Some (False, s));
     s \<leftarrow> release (SleepLk lk) s;
     Some (r, s)
   }"

end
