(* ===== verification/Bio.thy ===== *)
theory Bio
  imports Sleeplock
begin

text \<open>
  The buffer cache: \<^verbatim>\<open>kernel/bio.c\<close>, \<^verbatim>\<open>kernel/buf.h\<close>. A buffer is its index in
  \<open>bcache.buf\<close>; index \<open>NBUF\<close> is \<open>bcache.head\<close>. The doubly linked list is kept as the code keeps
  it, in the \<open>prev\<close> and \<open>next\<close> fields, and walked by following them.

  The disk is a map from block numbers to blocks. \<open>disk_transfer\<close> is what one request does to it
  and to the buffer; \<open>Virtio\<close> models the driver that carries it out. \<open>dtrace\<close> records the writes
  in the order they reach the disk, so that a crash between any two of them can be talked about.
\<close>

section \<open>Definitions\<close>

definition BSIZE :: nat where "BSIZE = 1024"
definition MAXOPBLOCKS :: nat where "MAXOPBLOCKS = 10"
definition NBUF :: nat where "NBUF = MAXOPBLOCKS * 3"
definition ROOTDEV :: u32 where "ROOTDEV = 1"

lemmas bio_defs [kdefs] = BSIZE_def MAXOPBLOCKS_def NBUF_def

record buf =
  bvalid :: bool
  bdisk :: bool
  bdev :: u32
  blockno :: u32
  refcnt :: u32
  bprev :: nat
  bnext :: nat
  bdata :: bytes

record bcache = sleeptab +
  bufs :: "nat \<Rightarrow> buf"
  disk :: "u32 \<Rightarrow> bytes"
  dtrace :: "(u32 \<times> bytes) list"

abbreviation bhead :: nat where
  "bhead \<equiv> NBUF"

definition upd_buf :: "nat \<Rightarrow> (buf \<Rightarrow> buf) \<Rightarrow> 'a bcache_scheme \<Rightarrow> 'a bcache_scheme" where
  "upd_buf i f s = s\<lparr>bufs := (bufs s)(i := f (bufs s i))\<rparr>"

text \<open>Put a buffer between the head and the head's successor.\<close>

definition link_front :: "nat \<Rightarrow> 'a bcache_scheme \<Rightarrow> 'a bcache_scheme" where
  "link_front b s =
     (let s = upd_buf b (\<lambda>x. x\<lparr>bnext := bnext (bufs s bhead)\<rparr>) s;
          s = upd_buf b (\<lambda>x. x\<lparr>bprev := bhead\<rparr>) s;
          s = upd_buf (bnext (bufs s bhead)) (\<lambda>x. x\<lparr>bprev := b\<rparr>) s
      in upd_buf bhead (\<lambda>x. x\<lparr>bnext := b\<rparr>) s)"

primrec binit_loop :: "nat list \<Rightarrow> 'a bcache_scheme \<Rightarrow> 'a bcache_scheme" where
  "binit_loop [] s = s"
| "binit_loop (b # bs) s = binit_loop bs (link_front b (initsleeplock (BufLock b) ''buffer'' s))"

definition binit :: "'a bcache_scheme \<Rightarrow> 'a bcache_scheme" where
  "binit s =
     (let s = initlock BcacheLock ''bcache'' s;
          s = upd_buf bhead (\<lambda>x. x\<lparr>bprev := bhead\<rparr>) s;
          s = upd_buf bhead (\<lambda>x. x\<lparr>bnext := bhead\<rparr>) s
      in binit_loop [0..<NBUF] s)"

text \<open>The two walks of \<open>bget\<close>: forward for the block, backward for a buffer nobody uses.\<close>

partial_function (option) find_cached :: "(nat \<Rightarrow> buf) \<Rightarrow> u32 \<Rightarrow> u32 \<Rightarrow> nat \<Rightarrow> nat option option" where
  [code]: "find_cached bs dev bn b =
     (if b = bhead then Some None
      else if bdev (bs b) = dev \<and> blockno (bs b) = bn then Some (Some b)
      else find_cached bs dev bn (bnext (bs b)))"

partial_function (option) find_unused :: "(nat \<Rightarrow> buf) \<Rightarrow> nat \<Rightarrow> nat option option" where
  [code]: "find_unused bs b =
     (if b = bhead then Some None
      else if refcnt (bs b) = 0 then Some (Some b)
      else find_unused bs (bprev (bs b)))"

definition bget :: "u32 \<Rightarrow> u32 \<Rightarrow> 'a bcache_scheme \<Rightarrow> (nat \<times> 'a bcache_scheme) option" where
  "bget dev bn s = do {
     s \<leftarrow> acquire BcacheLock s;
     r \<leftarrow> find_cached (bufs s) dev bn (bnext (bufs s bhead));
     case r of
       Some b \<Rightarrow> do {
         let s = upd_buf b (\<lambda>x. x\<lparr>refcnt := refcnt x + 1\<rparr>) s;
         s \<leftarrow> release BcacheLock s;
         s \<leftarrow> acquiresleep (BufLock b) s;
         Some (b, s)
       }
     | None \<Rightarrow> do {
         r \<leftarrow> find_unused (bufs s) (bprev (bufs s bhead));
         b \<leftarrow> deref r;
         let s = upd_buf b (\<lambda>x. x\<lparr>bdev := dev, blockno := bn, bvalid := False, refcnt := 1\<rparr>) s;
         s \<leftarrow> release BcacheLock s;
         s \<leftarrow> acquiresleep (BufLock b) s;
         Some (b, s)
       }
   }"

definition disk_transfer :: "nat \<Rightarrow> bool \<Rightarrow> 'a bcache_scheme \<Rightarrow> 'a bcache_scheme" where
  "disk_transfer b write s =
     (if write then s\<lparr>disk := (disk s)(blockno (bufs s b) := bdata (bufs s b)),
                     dtrace := dtrace s @ [(blockno (bufs s b), bdata (bufs s b))]\<rparr>
      else upd_buf b (\<lambda>x. x\<lparr>bdata := disk s (blockno x)\<rparr>) s)"

definition bread :: "u32 \<Rightarrow> u32 \<Rightarrow> 'a bcache_scheme \<Rightarrow> (nat \<times> 'a bcache_scheme) option" where
  "bread dev bn s = do {
     (b, s) \<leftarrow> bget dev bn s;
     let s = (if \<not> bvalid (bufs s b)
              then upd_buf b (\<lambda>x. x\<lparr>bvalid := True\<rparr>) (disk_transfer b False s) else s);
     Some (b, s)
   }"

definition bwrite :: "nat \<Rightarrow> 'a bcache_scheme \<Rightarrow> 'a bcache_scheme option" where
  "bwrite b s = do {
     (h, s) \<leftarrow> holdingsleep (BufLock b) s;
     if \<not> h then None else Some (disk_transfer b True s)
   }"

definition brelse :: "nat \<Rightarrow> 'a bcache_scheme \<Rightarrow> 'a bcache_scheme option" where
  "brelse b s = do {
     (h, s) \<leftarrow> holdingsleep (BufLock b) s;
     if \<not> h then None
     else do {
       s \<leftarrow> releasesleep (BufLock b) s;
       s \<leftarrow> acquire BcacheLock s;
       let s = upd_buf b (\<lambda>x. x\<lparr>refcnt := refcnt x - 1\<rparr>) s;
       let s = (if refcnt (bufs s b) = 0
                then let s = upd_buf (bnext (bufs s b)) (\<lambda>x. x\<lparr>bprev := bprev (bufs s b)\<rparr>) s;
                         s = upd_buf (bprev (bufs s b)) (\<lambda>x. x\<lparr>bnext := bnext (bufs s b)\<rparr>) s
                     in link_front b s
                else s);
       release BcacheLock s
     }
   }"

definition bpin :: "nat \<Rightarrow> 'a bcache_scheme \<Rightarrow> 'a bcache_scheme option" where
  "bpin b s = do {
     s \<leftarrow> acquire BcacheLock s;
     let s = upd_buf b (\<lambda>x. x\<lparr>refcnt := refcnt x + 1\<rparr>) s;
     release BcacheLock s
   }"

definition bunpin :: "nat \<Rightarrow> 'a bcache_scheme \<Rightarrow> 'a bcache_scheme option" where
  "bunpin b s = do {
     s \<leftarrow> acquire BcacheLock s;
     let s = upd_buf b (\<lambda>x. x\<lparr>refcnt := refcnt x - 1\<rparr>) s;
     release BcacheLock s
   }"

end
