(* ===== verification/Log.thy ===== *)
theory Log
  imports Bio
begin

text \<open>
  The write-ahead log: \<^verbatim>\<open>kernel/log.c\<close>. \<open>begin_op\<close> may sleep and comes in two parts like
  \<open>acquiresleep\<close>. An \<open>int\<close> of the header is a \<^typ>\<open>u32\<close> where it is a block number and an \<^typ>\<open>int\<close>
  where it counts; an index past the end of \<open>block\<close> has no defined behaviour and is \<open>None\<close>.
\<close>

section \<open>Definitions\<close>

definition LOGBLOCKS :: nat where "LOGBLOCKS = MAXOPBLOCKS * 3"

text \<open>Words of a block, and a run of bytes put into a block.\<close>

definition splice :: "nat \<Rightarrow> bytes \<Rightarrow> bytes \<Rightarrow> bytes" where
  "splice i new bs = take i bs @ new @ drop (i + length new) bs"

definition get16 :: "bytes \<Rightarrow> nat \<Rightarrow> u16" where
  "get16 bs i = le_word (take 2 (drop i bs))"

definition get32 :: "bytes \<Rightarrow> nat \<Rightarrow> u32" where
  "get32 bs i = le_word (take 4 (drop i bs))"

definition put16 :: "nat \<Rightarrow> u16 \<Rightarrow> bytes \<Rightarrow> bytes" where
  "put16 i v = splice i (le_bytes 2 v)"

definition put32 :: "nat \<Rightarrow> u32 \<Rightarrow> bytes \<Rightarrow> bytes" where
  "put32 i v = splice i (le_bytes 4 v)"

record superblock =
  sb_magic :: u32
  sb_size :: u32
  sb_nblocks :: u32
  sb_ninodes :: u32
  sb_nlog :: u32
  sb_logstart :: u32
  sb_inodestart :: u32
  sb_bmapstart :: u32

record log = bcache +
  lstart :: u32
  outstanding :: int
  committing :: bool
  ldev :: u32
  lh_n :: int
  lh_block :: "nat \<Rightarrow> u32"

text \<open>The block numbers of the in-memory header.\<close>

definition lh_list :: "'a log_scheme \<Rightarrow> u32 list" where
  "lh_list s = map (lh_block s) [0..<nat (lh_n s)]"

definition set_data :: "nat \<Rightarrow> bytes \<Rightarrow> 'a bcache_scheme \<Rightarrow> 'a bcache_scheme" where
  "set_data b d s = upd_buf b (\<lambda>x. x\<lparr>bdata := d\<rparr>) s"

definition install_one :: "bool \<Rightarrow> nat \<Rightarrow> 'a log_scheme \<Rightarrow> 'a log_scheme option" where
  "install_one recovering tail s = do {
     (lbuf, s) \<leftarrow> bread (ldev s) (lstart s + of_nat tail + 1) s;
     (dbuf, s) \<leftarrow> bread (ldev s) (lh_block s tail) s;
     let s = set_data dbuf (bdata (bufs s lbuf)) s;
     s \<leftarrow> bwrite dbuf s;
     s \<leftarrow> (if \<not> recovering then bunpin dbuf s else Some s);
     s \<leftarrow> brelse lbuf s;
     brelse dbuf s
   }"

primrec install_loop :: "bool \<Rightarrow> nat list \<Rightarrow> 'a log_scheme \<Rightarrow> 'a log_scheme option" where
  "install_loop recovering [] s = Some s"
| "install_loop recovering (t # ts) s = do { s \<leftarrow> install_one recovering t s; install_loop recovering ts s }"

definition install_trans :: "bool \<Rightarrow> 'a log_scheme \<Rightarrow> 'a log_scheme option" where
  "install_trans recovering s = install_loop recovering [0..<nat (lh_n s)] s"

definition read_head :: "'a log_scheme \<Rightarrow> 'a log_scheme option" where
  "read_head s = do {
     (b, s) \<leftarrow> bread (ldev s) (lstart s) s;
     let d = bdata (bufs s b);
     let n = sint (get32 d 0);
     if n > int LOGBLOCKS then None
     else do {
       let s = s\<lparr>lh_n := n, lh_block := (\<lambda>i. if int i < n then get32 d (4 + 4 * i) else lh_block s i)\<rparr>;
       brelse b s
     }
   }"

primrec put_blocks :: "nat \<Rightarrow> u32 list \<Rightarrow> bytes \<Rightarrow> bytes" where
  "put_blocks i [] d = d"
| "put_blocks i (b # bs) d = put_blocks (i + 1) bs (put32 (4 + 4 * i) b d)"

definition write_head :: "'a log_scheme \<Rightarrow> 'a log_scheme option" where
  "write_head s = do {
     (b, s) \<leftarrow> bread (ldev s) (lstart s) s;
     let d = put32 0 (word_of_int (lh_n s)) (bdata (bufs s b));
     let s = set_data b (put_blocks 0 (lh_list s) d) s;
     s \<leftarrow> bwrite b s;
     brelse b s
   }"

definition recover_from_log :: "'a log_scheme \<Rightarrow> 'a log_scheme option" where
  "recover_from_log s = do {
     s \<leftarrow> read_head s;
     s \<leftarrow> install_trans True s;
     let s = s\<lparr>lh_n := 0\<rparr>;
     write_head s
   }"

text \<open>The size of \<open>struct logheader\<close> is 4 + 4 * LOGBLOCKS.\<close>

definition initlog :: "u32 \<Rightarrow> superblock \<Rightarrow> 'a log_scheme \<Rightarrow> 'a log_scheme option" where
  "initlog dev sb s =
     (if 4 + 4 * LOGBLOCKS \<ge> BSIZE then None
      else let s = initlock LogLock ''log'' s;
               s = s\<lparr>lstart := sb_logstart sb, ldev := dev\<rparr>
           in recover_from_log s)"

definition begin_op_round :: "'a log_scheme \<Rightarrow> (unit resumable \<times> 'a log_scheme) option" where
  "begin_op_round s =
     (if committing s \<or> lh_n s + (outstanding s + 1) * int MAXOPBLOCKS > int LOGBLOCKS
      then do { (l, s) \<leftarrow> sleep_enter ChanLog LogLock s; Some (Asleep l, s) }
      else do { s \<leftarrow> release LogLock (s\<lparr>outstanding := outstanding s + 1\<rparr>); Some (Done (), s) })"

definition begin_op_enter :: "'a log_scheme \<Rightarrow> (unit resumable \<times> 'a log_scheme) option" where
  "begin_op_enter s = do { s \<leftarrow> acquire LogLock s; begin_op_round s }"

definition begin_op_resume :: "nat \<times> bool \<Rightarrow> 'a log_scheme \<Rightarrow> (unit resumable \<times> 'a log_scheme) option" where
  "begin_op_resume l s = do { s \<leftarrow> sleep_exit l LogLock s; begin_op_round s }"

definition begin_op :: "'a log_scheme \<Rightarrow> 'a log_scheme option" where
  "begin_op s = do {
     (r, s) \<leftarrow> begin_op_enter s;
     (case r of Done _ \<Rightarrow> Some s | Asleep _ \<Rightarrow> None)
   }"

definition write_log_one :: "nat \<Rightarrow> 'a log_scheme \<Rightarrow> 'a log_scheme option" where
  "write_log_one tail s = do {
     (to, s) \<leftarrow> bread (ldev s) (lstart s + of_nat tail + 1) s;
     (fr, s) \<leftarrow> bread (ldev s) (lh_block s tail) s;
     let s = set_data to (bdata (bufs s fr)) s;
     s \<leftarrow> bwrite to s;
     s \<leftarrow> brelse fr s;
     brelse to s
   }"

primrec write_log_loop :: "nat list \<Rightarrow> 'a log_scheme \<Rightarrow> 'a log_scheme option" where
  "write_log_loop [] s = Some s"
| "write_log_loop (t # ts) s = do { s \<leftarrow> write_log_one t s; write_log_loop ts s }"

definition write_log :: "'a log_scheme \<Rightarrow> 'a log_scheme option" where
  "write_log s = write_log_loop [0..<nat (lh_n s)] s"

definition commit :: "'a log_scheme \<Rightarrow> 'a log_scheme option" where
  "commit s =
     (if lh_n s > 0 then do {
        s \<leftarrow> write_log s;
        s \<leftarrow> write_head s;
        s \<leftarrow> install_trans False s;
        let s = s\<lparr>lh_n := 0\<rparr>;
        write_head s
      } else Some s)"

definition end_op :: "'a log_scheme \<Rightarrow> 'a log_scheme option" where
  "end_op s = do {
     s \<leftarrow> acquire LogLock s;
     let s = s\<lparr>outstanding := outstanding s - 1\<rparr>;
     if committing s then None
     else do {
       let do_commit = (outstanding s = 0);
       s \<leftarrow> (if do_commit then Some (s\<lparr>committing := True\<rparr>) else wakeup (Some ChanLog) s);
       s \<leftarrow> release LogLock s;
       if do_commit then do {
         s \<leftarrow> commit s;
         s \<leftarrow> acquire LogLock s;
         let s = s\<lparr>committing := False\<rparr>;
         s \<leftarrow> wakeup (Some ChanLog) s;
         release LogLock s
       } else Some s
     }
   }"

text \<open>The first place in the header that already names the block, or the end.\<close>

primrec absorb :: "u32 \<Rightarrow> u32 list \<Rightarrow> nat" where
  "absorb bn [] = 0"
| "absorb bn (x # xs) = (if x = bn then 0 else Suc (absorb bn xs))"

definition log_write :: "nat \<Rightarrow> 'a log_scheme \<Rightarrow> 'a log_scheme option" where
  "log_write b s = do {
     s \<leftarrow> acquire LogLock s;
     if lh_n s \<ge> int LOGBLOCKS then None
     else if outstanding s < 1 then None
     else do {
       let i = absorb (blockno (bufs s b)) (lh_list s);
       let s = s\<lparr>lh_block := (lh_block s)(i := blockno (bufs s b))\<rparr>;
       s \<leftarrow> (if int i = lh_n s then do { s \<leftarrow> bpin b s; Some (s\<lparr>lh_n := lh_n s + 1\<rparr>) } else Some s);
       release LogLock s
     }
   }"

end
