(* ===== verification/Fs.thy ===== *)
theory Fs
  imports Log Cstring
begin

text \<open>
  The file system: \<^verbatim>\<open>kernel/fs.c\<close>, \<^verbatim>\<open>kernel/fs.h\<close> and the in-memory inode of
  \<^verbatim>\<open>kernel/file.h\<close>. An inode pointer is an index into \<open>itable.inode\<close>. Structures on disk are
  read from and written to the bytes of a block at the offsets of their fields: a \<open>dinode\<close> is 64
  bytes, a \<open>dirent\<close> 16. A transfer to or from a local variable of the kernel is \<open>Local\<close>.
  Console messages are left out.
\<close>

section \<open>Definitions\<close>

definition ROOTINO :: u32 where "ROOTINO = 1"
definition FSMAGIC :: u32 where "FSMAGIC = 0x10203040"
definition NDIRECT :: nat where "NDIRECT = 12"
definition NINDIRECT :: nat where "NINDIRECT = BSIZE div 4"
definition MAXFILE :: nat where "MAXFILE = NDIRECT + NINDIRECT"
definition IPB :: nat where "IPB = BSIZE div 64"
definition BPB :: nat where "BPB = BSIZE * 8"
definition DIRSIZ :: nat where "DIRSIZ = 14"
definition NINODE :: nat where "NINODE = 50"
definition T_DIR :: u16 where "T_DIR = 1"
definition T_FILE :: u16 where "T_FILE = 2"
definition T_DEVICE :: u16 where "T_DEVICE = 3"

lemmas fs_defs [kdefs] = NDIRECT_def NINDIRECT_def MAXFILE_def IPB_def BPB_def DIRSIZ_def NINODE_def

record inode =
  idev :: u32
  inum :: u32
  iref :: int
  ivalid :: bool
  itype :: u16
  imajor :: u16
  iminor :: u16
  nlink :: u16
  isize :: u32
  addrs :: "u32 list"

record fs = log +
  sb :: superblock
  itable :: "nat \<Rightarrow> inode"

definition upd_inode :: "nat \<Rightarrow> (inode \<Rightarrow> inode) \<Rightarrow> 'a fs_scheme \<Rightarrow> 'a fs_scheme" where
  "upd_inode i f s = s\<lparr>itable := (itable s)(i := f (itable s i))\<rparr>"

definition IBLOCK :: "u32 \<Rightarrow> superblock \<Rightarrow> u32" where
  "IBLOCK i sbk = i div of_nat IPB + sb_inodestart sbk"

definition BBLOCK :: "nat \<Rightarrow> superblock \<Rightarrow> u32" where
  "BBLOCK b sbk = of_nat (b div BPB) + sb_bmapstart sbk"

text \<open>Where a buffer keeps inode \<open>i\<close>.\<close>

definition dinode_off :: "u32 \<Rightarrow> nat" where
  "dinode_off i = 64 * (unat i mod IPB)"

subsection \<open>Blocks\<close>

definition superblock_of :: "bytes \<Rightarrow> superblock" where
  "superblock_of d = \<lparr>sb_magic = get32 d 0, sb_size = get32 d 4, sb_nblocks = get32 d 8, sb_ninodes = get32 d 12,
     sb_nlog = get32 d 16, sb_logstart = get32 d 20, sb_inodestart = get32 d 24, sb_bmapstart = get32 d 28\<rparr>"

definition readsb :: "u32 \<Rightarrow> 'a fs_scheme \<Rightarrow> 'a fs_scheme option" where
  "readsb dev s = do {
     (b, s) \<leftarrow> bread dev 1 s;
     let s = s\<lparr>sb := superblock_of (bdata (bufs s b))\<rparr>;
     brelse b s
   }"

definition bzero :: "u32 \<Rightarrow> u32 \<Rightarrow> 'a log_scheme \<Rightarrow> 'a log_scheme option" where
  "bzero dev bno s = do {
     (b, s) \<leftarrow> bread dev bno s;
     let s = set_data b (replicate BSIZE 0) s;
     s \<leftarrow> log_write b s;
     brelse b s
   }"

definition bit_set :: "bytes \<Rightarrow> nat \<Rightarrow> bool" where
  "bit_set d bi \<longleftrightarrow> (d ! (bi div 8)) AND push_bit (bi mod 8) 1 \<noteq> 0"

text \<open>The inner loop of \<open>balloc\<close>: the first free bit of a bitmap block, up to the size of the disk.\<close>

definition free_bit :: "bytes \<Rightarrow> nat \<Rightarrow> nat option" where
  "free_bit d m = List.find (\<lambda>bi. \<not> bit_set d bi) [0..<min BPB m]"

primrec balloc_loop :: "u32 \<Rightarrow> nat list \<Rightarrow> 'a fs_scheme \<Rightarrow> (u32 \<times> 'a fs_scheme) option" where
  "balloc_loop dev [] s = Some (0, s)"
| "balloc_loop dev (b # bs) s = do {
     (bp, s) \<leftarrow> bread dev (BBLOCK b (sb s)) s;
     let d = bdata (bufs s bp);
     case free_bit d (unat (sb_size (sb s)) - b) of
       Some bi \<Rightarrow> do {
         let s = set_data bp (d[bi div 8 := (d ! (bi div 8)) OR push_bit (bi mod 8) 1]) s;
         s \<leftarrow> log_write bp s;
         s \<leftarrow> brelse bp s;
         s \<leftarrow> bzero dev (of_nat (b + bi)) s;
         Some (of_nat (b + bi), s)
       }
     | None \<Rightarrow> do { s \<leftarrow> brelse bp s; balloc_loop dev bs s }
   }"

text \<open>The outer loop starts at each multiple of \<open>BPB\<close> below the size of the disk.\<close>

definition balloc :: "u32 \<Rightarrow> 'a fs_scheme \<Rightarrow> (u32 \<times> 'a fs_scheme) option" where
  "balloc dev s = balloc_loop dev
     (map (\<lambda>k. k * BPB) [0..<(unat (sb_size (sb s)) + BPB - 1) div BPB]) s"

definition bfree :: "u32 \<Rightarrow> u32 \<Rightarrow> 'a fs_scheme \<Rightarrow> 'a fs_scheme option" where
  "bfree dev b s = do {
     (bp, s) \<leftarrow> bread dev (BBLOCK (unat b) (sb s)) s;
     let d = bdata (bufs s bp);
     let bi = unat b mod BPB;
     if \<not> bit_set d bi then None
     else do {
       let s = set_data bp (d[bi div 8 := (d ! (bi div 8)) AND NOT (push_bit (bi mod 8) 1)]) s;
       s \<leftarrow> log_write bp s;
       brelse bp s
     }
   }"

subsection \<open>Inodes\<close>

primrec iinit_loop :: "nat list \<Rightarrow> 'a sleeptab_scheme \<Rightarrow> 'a sleeptab_scheme" where
  "iinit_loop [] s = s"
| "iinit_loop (i # is) s = iinit_loop is (initsleeplock (InodeLock i) ''inode'' s)"

definition iinit :: "'a sleeptab_scheme \<Rightarrow> 'a sleeptab_scheme" where
  "iinit s = iinit_loop [0..<NINODE] (initlock ItableLock ''itable'' s)"

text \<open>\<open>iget\<close>: the scan remembers the first slot with no references.\<close>

primrec iget_scan :: "u32 \<Rightarrow> u32 \<Rightarrow> (nat \<Rightarrow> inode) \<Rightarrow> nat list \<Rightarrow> nat option \<Rightarrow> nat option \<times> nat option" where
  "iget_scan dev ino t [] emp = (None, emp)"
| "iget_scan dev ino t (i # is) emp =
     (if iref (t i) > 0 \<and> idev (t i) = dev \<and> inum (t i) = ino then (Some i, emp)
      else iget_scan dev ino t is (if emp = None \<and> iref (t i) = 0 then Some i else emp))"

definition iget :: "u32 \<Rightarrow> u32 \<Rightarrow> 'a fs_scheme \<Rightarrow> (nat \<times> 'a fs_scheme) option" where
  "iget dev ino s = do {
     s \<leftarrow> acquire ItableLock s;
     (case iget_scan dev ino (itable s) [0..<NINODE] None of
        (Some i, _) \<Rightarrow> do {
          let s = upd_inode i (\<lambda>x. x\<lparr>iref := iref x + 1\<rparr>) s;
          s \<leftarrow> release ItableLock s;
          Some (i, s)
        }
      | (None, emp) \<Rightarrow> do {
          i \<leftarrow> deref emp;
          let s = upd_inode i (\<lambda>x. x\<lparr>idev := dev, inum := ino, iref := 1, ivalid := False\<rparr>) s;
          s \<leftarrow> release ItableLock s;
          Some (i, s)
        })
   }"

definition dinode_type :: "bytes \<Rightarrow> nat \<Rightarrow> u16" where "dinode_type d k = get16 d k"
definition dinode_nlink :: "bytes \<Rightarrow> nat \<Rightarrow> u16" where "dinode_nlink d k = get16 d (k + 6)"

primrec ialloc_loop :: "u32 \<Rightarrow> u16 \<Rightarrow> nat list \<Rightarrow> 'a fs_scheme \<Rightarrow> (nat option \<times> 'a fs_scheme) option" where
  "ialloc_loop dev ty [] s = Some (None, s)"
| "ialloc_loop dev ty (i # is) s = do {
     (bp, s) \<leftarrow> bread dev (IBLOCK (of_nat i) (sb s)) s;
     let off = dinode_off (of_nat i);
     let d = bdata (bufs s bp);
     if dinode_type d off = 0 then do {
       let s = set_data bp (put16 off ty (splice off (replicate 64 0) d)) s;
       s \<leftarrow> log_write bp s;
       s \<leftarrow> brelse bp s;
       (ip, s) \<leftarrow> iget dev (of_nat i) s;
       Some (Some ip, s)
     } else do { s \<leftarrow> brelse bp s; ialloc_loop dev ty is s }
   }"

definition ialloc :: "u32 \<Rightarrow> u16 \<Rightarrow> 'a fs_scheme \<Rightarrow> (nat option \<times> 'a fs_scheme) option" where
  "ialloc dev ty s = ialloc_loop dev ty [1..<unat (sb_ninodes (sb s))] s"

primrec put_addrs :: "nat \<Rightarrow> u32 list \<Rightarrow> bytes \<Rightarrow> bytes" where
  "put_addrs off [] d = d"
| "put_addrs off (a # as) d = put_addrs (off + 4) as (put32 off a d)"

definition put_dinode :: "nat \<Rightarrow> inode \<Rightarrow> bytes \<Rightarrow> bytes" where
  "put_dinode off ip d =
     (let d = put16 off (itype ip) d;
          d = put16 (off + 2) (imajor ip) d;
          d = put16 (off + 4) (iminor ip) d;
          d = put16 (off + 6) (nlink ip) d;
          d = put32 (off + 8) (isize ip) d
      in put_addrs (off + 12) (addrs ip) d)"

definition get_dinode :: "nat \<Rightarrow> bytes \<Rightarrow> inode \<Rightarrow> inode" where
  "get_dinode off d ip = ip\<lparr>itype := get16 d off, imajor := get16 d (off + 2), iminor := get16 d (off + 4),
     nlink := get16 d (off + 6), isize := get32 d (off + 8),
     addrs := map (\<lambda>i. get32 d (off + 12 + 4 * i)) [0..<NDIRECT + 1]\<rparr>"

definition iupdate :: "nat \<Rightarrow> 'a fs_scheme \<Rightarrow> 'a fs_scheme option" where
  "iupdate ip s = do {
     (bp, s) \<leftarrow> bread (idev (itable s ip)) (IBLOCK (inum (itable s ip)) (sb s)) s;
     let s = set_data bp (put_dinode (dinode_off (inum (itable s ip))) (itable s ip) (bdata (bufs s bp))) s;
     s \<leftarrow> log_write bp s;
     brelse bp s
   }"

definition idup :: "nat \<Rightarrow> 'a fs_scheme \<Rightarrow> (nat \<times> 'a fs_scheme) option" where
  "idup ip s = do {
     s \<leftarrow> acquire ItableLock s;
     let s = upd_inode ip (\<lambda>x. x\<lparr>iref := iref x + 1\<rparr>) s;
     s \<leftarrow> release ItableLock s;
     Some (ip, s)
   }"

definition ilock :: "nat \<Rightarrow> 'a fs_scheme \<Rightarrow> 'a fs_scheme option" where
  "ilock ip s =
     (if iref (itable s ip) < 1 then None
      else do {
        s \<leftarrow> acquiresleep (InodeLock ip) s;
        if ivalid (itable s ip) then Some s
        else do {
          (bp, s) \<leftarrow> bread (idev (itable s ip)) (IBLOCK (inum (itable s ip)) (sb s)) s;
          let s = upd_inode ip (\<lambda>x. get_dinode (dinode_off (inum x)) (bdata (bufs s bp)) x) s;
          s \<leftarrow> brelse bp s;
          let s = upd_inode ip (\<lambda>x. x\<lparr>ivalid := True\<rparr>) s;
          if itype (itable s ip) = 0 then None else Some s
        }
      })"

definition iunlock :: "nat \<Rightarrow> 'a fs_scheme \<Rightarrow> 'a fs_scheme option" where
  "iunlock ip s = do {
     (h, s) \<leftarrow> holdingsleep (InodeLock ip) s;
     if \<not> h \<or> iref (itable s ip) < 1 then None else releasesleep (InodeLock ip) s
   }"

primrec itrunc_direct :: "nat \<Rightarrow> nat list \<Rightarrow> 'a fs_scheme \<Rightarrow> 'a fs_scheme option" where
  "itrunc_direct ip [] s = Some s"
| "itrunc_direct ip (i # is) s = do {
     let a = addrs (itable s ip) ! i;
     s \<leftarrow> (if a \<noteq> 0 then do {
             s \<leftarrow> bfree (idev (itable s ip)) a s;
             Some (upd_inode ip (\<lambda>x. x\<lparr>addrs := (addrs x)[i := 0]\<rparr>) s)
           } else Some s);
     itrunc_direct ip is s
   }"

primrec itrunc_indirect :: "nat \<Rightarrow> nat \<Rightarrow> nat list \<Rightarrow> 'a fs_scheme \<Rightarrow> 'a fs_scheme option" where
  "itrunc_indirect ip bp [] s = Some s"
| "itrunc_indirect ip bp (j # js) s = do {
     let a = get32 (bdata (bufs s bp)) (4 * j);
     s \<leftarrow> (if a \<noteq> 0 then bfree (idev (itable s ip)) a s else Some s);
     itrunc_indirect ip bp js s
   }"

definition itrunc :: "nat \<Rightarrow> 'a fs_scheme \<Rightarrow> 'a fs_scheme option" where
  "itrunc ip s = do {
     s \<leftarrow> itrunc_direct ip [0..<NDIRECT] s;
     let a = addrs (itable s ip) ! NDIRECT;
     s \<leftarrow> (if a \<noteq> 0 then do {
             (bp, s) \<leftarrow> bread (idev (itable s ip)) a s;
             s \<leftarrow> itrunc_indirect ip bp [0..<NINDIRECT] s;
             s \<leftarrow> brelse bp s;
             s \<leftarrow> bfree (idev (itable s ip)) a s;
             Some (upd_inode ip (\<lambda>x. x\<lparr>addrs := (addrs x)[NDIRECT := 0]\<rparr>) s)
           } else Some s);
     let s = upd_inode ip (\<lambda>x. x\<lparr>isize := 0\<rparr>) s;
     iupdate ip s
   }"

definition iput :: "nat \<Rightarrow> 'a fs_scheme \<Rightarrow> 'a fs_scheme option" where
  "iput ip s = do {
     s \<leftarrow> acquire ItableLock s;
     s \<leftarrow> (if iref (itable s ip) = 1 \<and> ivalid (itable s ip) \<and> nlink (itable s ip) = 0 then do {
             s \<leftarrow> acquiresleep (InodeLock ip) s;
             s \<leftarrow> release ItableLock s;
             s \<leftarrow> itrunc ip s;
             let s = upd_inode ip (\<lambda>x. x\<lparr>itype := 0\<rparr>) s;
             s \<leftarrow> iupdate ip s;
             let s = upd_inode ip (\<lambda>x. x\<lparr>ivalid := False\<rparr>) s;
             s \<leftarrow> releasesleep (InodeLock ip) s;
             acquire ItableLock s
           } else Some s);
     let s = upd_inode ip (\<lambda>x. x\<lparr>iref := iref x - 1\<rparr>) s;
     release ItableLock s
   }"

definition iunlockput :: "nat \<Rightarrow> 'a fs_scheme \<Rightarrow> 'a fs_scheme option" where
  "iunlockput ip s = do { s \<leftarrow> iunlock ip s; iput ip s }"

primrec ireclaim_loop :: "u32 \<Rightarrow> nat list \<Rightarrow> 'a fs_scheme \<Rightarrow> 'a fs_scheme option" where
  "ireclaim_loop dev [] s = Some s"
| "ireclaim_loop dev (i # is) s = do {
     (bp, s) \<leftarrow> bread dev (IBLOCK (of_nat i) (sb s)) s;
     let off = dinode_off (of_nat i);
     let d = bdata (bufs s bp);
     (ip, s) \<leftarrow> (if dinode_type d off \<noteq> 0 \<and> dinode_nlink d off = 0
                 then do { (ip, s) \<leftarrow> iget dev (of_nat i) s; Some (Some ip, s) }
                 else Some (None, s));
     s \<leftarrow> brelse bp s;
     s \<leftarrow> (case ip of None \<Rightarrow> Some s
           | Some ip \<Rightarrow> do {
               s \<leftarrow> begin_op s;
               s \<leftarrow> ilock ip s;
               s \<leftarrow> iunlock ip s;
               s \<leftarrow> iput ip s;
               end_op s
             });
     ireclaim_loop dev is s
   }"

definition ireclaim :: "u32 \<Rightarrow> 'a fs_scheme \<Rightarrow> 'a fs_scheme option" where
  "ireclaim dev s = ireclaim_loop dev [1..<unat (sb_ninodes (sb s))] s"

definition fsinit :: "u32 \<Rightarrow> 'a fs_scheme \<Rightarrow> 'a fs_scheme option" where
  "fsinit dev s = do {
     s \<leftarrow> readsb dev s;
     if sb_magic (sb s) \<noteq> FSMAGIC then None
     else do {
       s \<leftarrow> initlog dev (sb s) s;
       ireclaim dev s
     }
   }"

subsection \<open>Inode content\<close>

definition bmap :: "nat \<Rightarrow> nat \<Rightarrow> 'a fs_scheme \<Rightarrow> (u32 \<times> 'a fs_scheme) option" where
  "bmap ip bn s =
     (if bn < NDIRECT then
        if addrs (itable s ip) ! bn = 0 then do {
          (addr, s) \<leftarrow> balloc (idev (itable s ip)) s;
          if addr = 0 then Some (0, s)
          else Some (addr, upd_inode ip (\<lambda>x. x\<lparr>addrs := (addrs x)[bn := addr]\<rparr>) s)
        } else Some (addrs (itable s ip) ! bn, s)
      else let bn = bn - NDIRECT in
        if bn < NINDIRECT then do {
          (addr, s) \<leftarrow> (if addrs (itable s ip) ! NDIRECT = 0 then do {
                          (addr, s) \<leftarrow> balloc (idev (itable s ip)) s;
                          Some (addr, if addr = 0 then s
                                      else upd_inode ip (\<lambda>x. x\<lparr>addrs := (addrs x)[NDIRECT := addr]\<rparr>) s)
                        } else Some (addrs (itable s ip) ! NDIRECT, s));
          if addr = 0 then Some (0, s)
          else do {
            (bp, s) \<leftarrow> bread (idev (itable s ip)) addr s;
            let a = get32 (bdata (bufs s bp)) (4 * bn);
            (a, s) \<leftarrow> (if a = 0 then do {
                         (a, s) \<leftarrow> balloc (idev (itable s ip)) s;
                         if a \<noteq> 0 then do {
                           let s = set_data bp (put32 (4 * bn) a (bdata (bufs s bp))) s;
                           s \<leftarrow> log_write bp s;
                           Some (a, s)
                         } else Some (a, s)
                       } else Some (a, s));
            s \<leftarrow> brelse bp s;
            Some (a, s)
          }
        } else None)"

record stat =
  st_dev :: u32
  st_ino :: u32
  st_type :: u16
  st_nlink :: u16
  st_size :: u64

definition stati :: "nat \<Rightarrow> 'a fs_scheme \<Rightarrow> stat" where
  "stati ip s = (let x = itable s ip in
     \<lparr>st_dev = idev x, st_ino = inum x, st_type = itype x, st_nlink = nlink x, st_size = ucast (isize x)\<rparr>)"

text \<open>Where \<open>readi\<close> puts the bytes and where \<open>writei\<close> takes them from.\<close>

datatype dest = Dst bool u64 | Local
datatype source = Src bool u64 | Local_bytes bytes

definition deliver :: "dest \<Rightarrow> u32 \<Rightarrow> bytes \<Rightarrow> 'a ptable_scheme \<Rightarrow> (int \<times> 'a ptable_scheme) option" where
  "deliver d tot bs s = (case d of Dst u a \<Rightarrow> either_copyout u (a + ucast tot) bs s | Local \<Rightarrow> Some (0, s))"

definition fetch :: "source \<Rightarrow> u32 \<Rightarrow> nat \<Rightarrow> 'a ptable_scheme \<Rightarrow> (int \<times> bytes \<times> 'a ptable_scheme) option" where
  "fetch d tot m s = (case d of
       Src u a \<Rightarrow> either_copyin u (a + ucast tot) m s
     | Local_bytes bs \<Rightarrow> Some (0, take m (drop (unat tot) bs), s))"

definition chunk :: "u32 \<Rightarrow> u32 \<Rightarrow> u32 \<Rightarrow> u32" where
  "chunk n tot off = min (n - tot) (of_nat BSIZE - off mod of_nat BSIZE)"

lemma chunk_pos: "tot < n \<Longrightarrow> 0 < chunk n tot off"
proof -
  assume t: "tot < n"
  have "off mod of_nat BSIZE < of_nat BSIZE" by (simp add: BSIZE_def word_less_nat_alt unat_mod)
  with t show ?thesis by (auto simp: chunk_def BSIZE_def word_gt_0)
qed

lemma chunk_less: "tot < n \<Longrightarrow> unat (n - (tot + chunk n tot off)) < unat (n - tot)"
proof -
  assume t: "tot < n"
  have "chunk n tot off \<le> n - tot" "0 < chunk n tot off" using chunk_pos [OF t] by (simp_all add: chunk_def)
  then have "n - tot - chunk n tot off < n - tot" by (simp add: word_less_nat_alt unat_sub word_le_nat_alt)
  then show ?thesis by (simp add: word_less_nat_alt diff_diff_eq)
qed

text \<open>The loop of \<open>readi\<close>: \<open>acc\<close> is what has been delivered so far.\<close>

function readi_loop :: "nat \<Rightarrow> dest \<Rightarrow> bytes \<Rightarrow> u32 \<Rightarrow> u32 \<Rightarrow> u32 \<Rightarrow> 'a fs_scheme \<Rightarrow>
    (int \<times> bytes \<times> 'a fs_scheme) option" where
  "readi_loop ip dst acc off n tot s =
     (if tot < n then do {
        (addr, s) \<leftarrow> bmap ip (unat off div BSIZE) s;
        if addr = 0 then Some (sint tot, acc, s)
        else do {
          (bp, s) \<leftarrow> bread (idev (itable s ip)) addr s;
          let m = chunk n tot off;
          let bs = take (unat m) (drop (unat off mod BSIZE) (bdata (bufs s bp)));
          (r, s) \<leftarrow> deliver dst tot bs s;
          s \<leftarrow> brelse bp s;
          if r = -1 then Some (-1, acc, s)
          else readi_loop ip dst (acc @ bs) (off + m) n (tot + m) s
        }
      } else Some (sint tot, acc, s))"
  by pat_completeness auto
termination
  by (relation "measure (\<lambda>(ip, dst, acc, off, n, tot, s). unat (n - tot))") (auto simp: chunk_less)

definition readi :: "nat \<Rightarrow> dest \<Rightarrow> u32 \<Rightarrow> u32 \<Rightarrow> 'a fs_scheme \<Rightarrow> (int \<times> bytes \<times> 'a fs_scheme) option" where
  "readi ip dst off n s =
     (let size = isize (itable s ip) in
      if off > size \<or> off + n < off then Some (0, [], s)
      else readi_loop ip dst [] off (if off + n > size then size - off else n) 0 s)"

text \<open>The loop of \<open>writei\<close> ends with the offset reached and the number of bytes written. A failed
  copy may have changed part of the buffer: the bytes copied before the failure are in it.\<close>

function writei_loop :: "nat \<Rightarrow> source \<Rightarrow> u32 \<Rightarrow> u32 \<Rightarrow> u32 \<Rightarrow> 'a fs_scheme \<Rightarrow>
    (u32 \<times> u32 \<times> 'a fs_scheme) option" where
  "writei_loop ip src off n tot s =
     (if tot < n then do {
        (addr, s) \<leftarrow> bmap ip (unat off div BSIZE) s;
        if addr = 0 then Some (off, tot, s)
        else do {
          (bp, s) \<leftarrow> bread (idev (itable s ip)) addr s;
          let m = chunk n tot off;
          (r, bs, s) \<leftarrow> fetch src tot (unat m) s;
          let s = set_data bp (splice (unat off mod BSIZE) bs (bdata (bufs s bp))) s;
          if r = -1 then do { s \<leftarrow> brelse bp s; Some (off, tot, s) }
          else do {
            s \<leftarrow> log_write bp s;
            s \<leftarrow> brelse bp s;
            writei_loop ip src (off + m) n (tot + m) s
          }
        }
      } else Some (off, tot, s))"
  by pat_completeness auto
termination
  by (relation "measure (\<lambda>(ip, src, off, n, tot, s). unat (n - tot))") (auto simp: chunk_less)

definition writei :: "nat \<Rightarrow> source \<Rightarrow> u32 \<Rightarrow> u32 \<Rightarrow> 'a fs_scheme \<Rightarrow> (int \<times> 'a fs_scheme) option" where
  "writei ip src off n s =
     (if off > isize (itable s ip) \<or> off + n < off then Some (-1, s)
      else if off + n > of_nat (MAXFILE * BSIZE) then Some (-1, s)
      else do {
        (off, tot, s) \<leftarrow> writei_loop ip src off n 0 s;
        let s = (if off > isize (itable s ip) then upd_inode ip (\<lambda>x. x\<lparr>isize := off\<rparr>) s else s);
        s \<leftarrow> iupdate ip s;
        Some (sint tot, s)
      })"

subsection \<open>Directories\<close>

text \<open>\<open>strncmp\<close> and \<open>strncpy\<close> on two strings, each followed by a nul.\<close>

definition two_strings :: "bytes \<Rightarrow> bytes \<Rightarrow> memory" where
  "two_strings a b = store_bytes (store_bytes (\<lambda>_. 0) 0 a) 4096 b"

definition namecmp :: "bytes \<Rightarrow> bytes \<Rightarrow> int" where
  "namecmp a b = strncmp (two_strings a b) 0 4096 (of_nat DIRSIZ)"

definition dirent_inum :: "bytes \<Rightarrow> u16" where "dirent_inum de = get16 de 0"
definition dirent_name :: "bytes \<Rightarrow> bytes" where "dirent_name de = drop 2 de"

definition dirent_bytes :: "u32 \<Rightarrow> bytes \<Rightarrow> bytes" where
  "dirent_bytes ino name = le_bytes 2 (ucast ino :: u16) @
     load_bytes (strncpy (two_strings [] name) 0 4096 (int DIRSIZ)) 0 DIRSIZ"

partial_function (option) dirlookup_loop :: "nat \<Rightarrow> bytes \<Rightarrow> u32 \<Rightarrow> 'a fs_scheme \<Rightarrow>
    ((nat \<times> u32) option \<times> 'a fs_scheme) option" where
  [code]: "dirlookup_loop dp name off s =
     (if off < isize (itable s dp) then do {
        (r, de, s) \<leftarrow> readi dp Local off 16 s;
        if r \<noteq> 16 then None
        else if dirent_inum de \<noteq> 0 \<and> namecmp name (dirent_name de) = 0 then do {
          (ip, s) \<leftarrow> iget (idev (itable s dp)) (ucast (dirent_inum de)) s;
          Some (Some (ip, off), s)
        } else dirlookup_loop dp name (off + 16) s
      } else Some (None, s))"

definition dirlookup :: "nat \<Rightarrow> bytes \<Rightarrow> 'a fs_scheme \<Rightarrow> ((nat \<times> u32) option \<times> 'a fs_scheme) option" where
  "dirlookup dp name s = (if itype (itable s dp) \<noteq> T_DIR then None else dirlookup_loop dp name 0 s)"

partial_function (option) dirlink_slot :: "nat \<Rightarrow> u32 \<Rightarrow> 'a fs_scheme \<Rightarrow> (u32 \<times> 'a fs_scheme) option" where
  [code]: "dirlink_slot dp off s =
     (if off < isize (itable s dp) then do {
        (r, de, s) \<leftarrow> readi dp Local off 16 s;
        if r \<noteq> 16 then None
        else if dirent_inum de = 0 then Some (off, s)
        else dirlink_slot dp (off + 16) s
      } else Some (off, s))"

definition dirlink :: "nat \<Rightarrow> bytes \<Rightarrow> u32 \<Rightarrow> 'a fs_scheme \<Rightarrow> (int \<times> 'a fs_scheme) option" where
  "dirlink dp name ino s = do {
     (r, s) \<leftarrow> dirlookup dp name s;
     case r of
       Some (ip, _) \<Rightarrow> do { s \<leftarrow> iput ip s; Some (-1, s) }
     | None \<Rightarrow> do {
         (off, s) \<leftarrow> dirlink_slot dp 0 s;
         (w, s) \<leftarrow> writei dp (Local_bytes (dirent_bytes ino name)) off 16 s;
         Some (if w \<noteq> 16 then -1 else 0, s)
       }
   }"

subsection \<open>Paths\<close>

text \<open>A path is its bytes without the final nul. \<open>skipelem\<close> returns the rest of the path and the new
  contents of the 14 bytes of \<open>name\<close>.\<close>

definition slash :: u8 where "slash = 47"

definition skipelem :: "bytes \<Rightarrow> bytes \<Rightarrow> (bytes \<times> bytes) option" where
  "skipelem path name =
     (let path = dropWhile (\<lambda>c. c = slash) path in
      if path = [] then None
      else let elem = takeWhile (\<lambda>c. c \<noteq> slash) path;
               path = dropWhile (\<lambda>c. c \<noteq> slash) path;
               name = (if length elem \<ge> DIRSIZ then take DIRSIZ elem
                       else splice 0 (elem @ [0]) name)
           in Some (dropWhile (\<lambda>c. c = slash) path, name))"

lemma skipelem_shorter: "skipelem path name = Some (path', name') \<Longrightarrow> length path' < length path"
proof -
  assume a: "skipelem path name = Some (path', name')"
  let ?p = "dropWhile (\<lambda>c. c = slash) path"
  have p: "?p \<noteq> []" and r: "path' = dropWhile (\<lambda>c. c = slash) (dropWhile (\<lambda>c. c \<noteq> slash) ?p)"
    using a by (auto simp: skipelem_def Let_def split: if_splits)
  have "hd ?p \<noteq> slash" using hd_dropWhile [OF p] by simp
  then have "length (dropWhile (\<lambda>c. c \<noteq> slash) ?p) < length ?p"
    using p by (cases ?p) (auto simp: length_dropWhile_le le_imp_less_Suc)
  moreover have "length path' \<le> length (dropWhile (\<lambda>c. c \<noteq> slash) ?p)" unfolding r by (rule length_dropWhile_le)
  moreover have "length ?p \<le> length path" by (rule length_dropWhile_le)
  ultimately show ?thesis by simp
qed

function namex_loop :: "bool \<Rightarrow> nat \<Rightarrow> bytes \<Rightarrow> bytes \<Rightarrow> 'a fs_scheme \<Rightarrow> (nat option \<times> bytes \<times> 'a fs_scheme) option" where
  "namex_loop par ip path name s =
     (case skipelem path name of
        None \<Rightarrow>
          if par then do { s \<leftarrow> iput ip s; Some (None, name, s) } else Some (Some ip, name, s)
      | Some (path', name') \<Rightarrow> do {
          s \<leftarrow> ilock ip s;
          if itype (itable s ip) \<noteq> T_DIR then do { s \<leftarrow> iunlockput ip s; Some (None, name', s) }
          else if par \<and> path' = [] then do { s \<leftarrow> iunlock ip s; Some (Some ip, name', s) }
          else do {
            (r, s) \<leftarrow> dirlookup ip name' s;
            case r of
              None \<Rightarrow> do { s \<leftarrow> iunlockput ip s; Some (None, name', s) }
            | Some (next, _) \<Rightarrow> do {
                s \<leftarrow> iunlockput ip s;
                namex_loop par next path' name' s
              }
          }
        })"
  by pat_completeness auto
termination
  by (relation "measure (\<lambda>(par, ip, path, name, s). length path)") (auto dest: skipelem_shorter)

definition namex :: "bytes \<Rightarrow> bool \<Rightarrow> bytes \<Rightarrow> 'a fs_scheme \<Rightarrow> (nat option \<times> bytes \<times> 'a fs_scheme) option" where
  "namex path par name s = do {
     (ip, s) \<leftarrow> (if path \<noteq> [] \<and> hd path = slash then iget ROOTDEV ROOTINO s
                 else do { (p, s) \<leftarrow> myproc s; p \<leftarrow> deref p; ip \<leftarrow> deref (cwd (procs s p)); idup ip s });
     namex_loop par ip path name s
   }"

definition namei :: "bytes \<Rightarrow> 'a fs_scheme \<Rightarrow> (nat option \<times> 'a fs_scheme) option" where
  "namei path s = do { (ip, _, s) \<leftarrow> namex path False (replicate DIRSIZ 0) s; Some (ip, s) }"

definition nameiparent :: "bytes \<Rightarrow> 'a fs_scheme \<Rightarrow> (nat option \<times> bytes \<times> 'a fs_scheme) option" where
  "nameiparent path s = namex path True (replicate DIRSIZ 0) s"

end
