(* ===== verification/Pipe.thy ===== *)
theory Pipe
  imports Fs
begin

text \<open>
  Pipes: \<^verbatim>\<open>kernel/pipe.c\<close>, apart from \<open>pipealloc\<close>, which needs the file table and is in
  \<open>File\<close>. A pipe is named by the address of its page; \<open>pipes\<close> is what the pages in use as pipes
  hold. A reader or writer that must wait returns \<open>Blocked\<close>, with the count it resumes with.
\<close>

section \<open>Definitions\<close>

definition PIPESIZE :: nat where "PIPESIZE = 512"

record pipe =
  pdata :: "nat \<Rightarrow> u8"
  nread :: u32
  nwrite :: u32
  readopen :: bool
  writeopen :: bool

record pipetab = fs +
  pipes :: "u64 \<Rightarrow> pipe"

definition upd_pipe :: "u64 \<Rightarrow> (pipe \<Rightarrow> pipe) \<Rightarrow> 'a pipetab_scheme \<Rightarrow> 'a pipetab_scheme" where
  "upd_pipe pi f s = s\<lparr>pipes := (pipes s)(pi := f (pipes s pi))\<rparr>"

definition pipeclose :: "u64 \<Rightarrow> bool \<Rightarrow> 'a pipetab_scheme \<Rightarrow> 'a pipetab_scheme option" where
  "pipeclose pi writable s = do {
     s \<leftarrow> acquire (PipeLock pi) s;
     s \<leftarrow> (if writable then wakeup (Some (ChanPipeRead pi)) (upd_pipe pi (\<lambda>x. x\<lparr>writeopen := False\<rparr>) s)
           else wakeup (Some (ChanPipeWrite pi)) (upd_pipe pi (\<lambda>x. x\<lparr>readopen := False\<rparr>) s));
     if \<not> readopen (pipes s pi) \<and> \<not> writeopen (pipes s pi)
     then do { s \<leftarrow> release (PipeLock pi) s; kfree pi s }
     else release (PipeLock pi) s
   }"

definition pipe_push :: "u8 \<Rightarrow> pipe \<Rightarrow> pipe" where
  "pipe_push c x = x\<lparr>pdata := (pdata x)(unat (nwrite x) mod PIPESIZE := c), nwrite := nwrite x + 1\<rparr>"

definition pipe_done :: "u64 \<Rightarrow> chan \<Rightarrow> int \<Rightarrow> 'a pipetab_scheme \<Rightarrow> ((int, int) outcome \<times> 'a pipetab_scheme) option" where
  "pipe_done pi ch i s = do { s \<leftarrow> wakeup (Some ch) s; s \<leftarrow> release (PipeLock pi) s; Some (Return i, s) }"

function pipewrite_loop :: "u64 \<Rightarrow> nat \<Rightarrow> u64 \<Rightarrow> int \<Rightarrow> int \<Rightarrow> 'a pipetab_scheme \<Rightarrow>
    ((int, int) outcome \<times> 'a pipetab_scheme) option" where
  "pipewrite_loop pi pr addr n i s =
     (if i < n then do {
        (k, s) \<leftarrow> (if \<not> readopen (pipes s pi) then Some (True, s) else killed pr s);
        if k then do { s \<leftarrow> release (PipeLock pi) s; Some (Return (-1), s) }
        else if nwrite (pipes s pi) = nread (pipes s pi) + of_nat PIPESIZE then do {
          s \<leftarrow> wakeup (Some (ChanPipeRead pi)) s;
          (l, s) \<leftarrow> sleep_enter (ChanPipeWrite pi) (PipeLock pi) s;
          Some (Blocked i l, s)
        } else do {
          (r, cs, s) \<leftarrow> copyin (pagetable (procs s pr)) (addr + word_of_int i) 1 s;
          if r = -1 then pipe_done pi (ChanPipeRead pi) i s
          else pipewrite_loop pi pr addr n (i + 1) (upd_pipe pi (pipe_push (hd cs)) s)
        }
      } else pipe_done pi (ChanPipeRead pi) i s)"
  by pat_completeness auto
termination
  by (relation "measure (\<lambda>(pi, pr, addr, n, i, s). nat (n - i))") auto

definition pipewrite :: "u64 \<Rightarrow> u64 \<Rightarrow> int \<Rightarrow> 'a pipetab_scheme \<Rightarrow> ((int, int) outcome \<times> 'a pipetab_scheme) option" where
  "pipewrite pi addr n s = do {
     (p, s) \<leftarrow> myproc s;
     p \<leftarrow> deref p;
     s \<leftarrow> acquire (PipeLock pi) s;
     pipewrite_loop pi p addr n 0 s
   }"

definition pipewrite_resume :: "u64 \<Rightarrow> u64 \<Rightarrow> int \<Rightarrow> int \<Rightarrow> nat \<times> bool \<Rightarrow> 'a pipetab_scheme \<Rightarrow>
    ((int, int) outcome \<times> 'a pipetab_scheme) option" where
  "pipewrite_resume pi addr n i l s = do {
     s \<leftarrow> sleep_exit l (PipeLock pi) s;
     pipewrite_loop pi (fst l) addr n i s
   }"

function piperead_copy :: "u64 \<Rightarrow> nat \<Rightarrow> u64 \<Rightarrow> int \<Rightarrow> int \<Rightarrow> 'a pipetab_scheme \<Rightarrow>
    ((int, int) outcome \<times> 'a pipetab_scheme) option" where
  "piperead_copy pi pr addr n i s =
     (if i < n then
        if nread (pipes s pi) = nwrite (pipes s pi) then pipe_done pi (ChanPipeWrite pi) i s
        else do {
          let c = pdata (pipes s pi) (unat (nread (pipes s pi)) mod PIPESIZE);
          (r, s) \<leftarrow> copyout (pagetable (procs s pr)) (addr + word_of_int i) [c] s;
          if r = -1 then pipe_done pi (ChanPipeWrite pi) (if i = 0 then -1 else i) s
          else piperead_copy pi pr addr n (i + 1) (upd_pipe pi (\<lambda>x. x\<lparr>nread := nread x + 1\<rparr>) s)
        }
      else pipe_done pi (ChanPipeWrite pi) i s)"
  by pat_completeness auto
termination
  by (relation "measure (\<lambda>(pi, pr, addr, n, i, s). nat (n - i))") auto

definition piperead_wait :: "u64 \<Rightarrow> nat \<Rightarrow> u64 \<Rightarrow> int \<Rightarrow> 'a pipetab_scheme \<Rightarrow>
    ((int, int) outcome \<times> 'a pipetab_scheme) option" where
  "piperead_wait pi pr addr n s =
     (if nread (pipes s pi) = nwrite (pipes s pi) \<and> writeopen (pipes s pi) then do {
        (k, s) \<leftarrow> killed pr s;
        if k then do { s \<leftarrow> release (PipeLock pi) s; Some (Return (-1), s) }
        else do {
          (l, s) \<leftarrow> sleep_enter (ChanPipeRead pi) (PipeLock pi) s;
          Some (Blocked 0 l, s)
        }
      } else piperead_copy pi pr addr n 0 s)"

definition piperead :: "u64 \<Rightarrow> u64 \<Rightarrow> int \<Rightarrow> 'a pipetab_scheme \<Rightarrow> ((int, int) outcome \<times> 'a pipetab_scheme) option" where
  "piperead pi addr n s = do {
     (p, s) \<leftarrow> myproc s;
     p \<leftarrow> deref p;
     s \<leftarrow> acquire (PipeLock pi) s;
     piperead_wait pi p addr n s
   }"

definition piperead_resume :: "u64 \<Rightarrow> u64 \<Rightarrow> int \<Rightarrow> nat \<times> bool \<Rightarrow> 'a pipetab_scheme \<Rightarrow>
    ((int, int) outcome \<times> 'a pipetab_scheme) option" where
  "piperead_resume pi addr n l s = do {
     s \<leftarrow> sleep_exit l (PipeLock pi) s;
     piperead_wait pi (fst l) addr n s
   }"

end
