(* ===== verification/File.thy ===== *)
theory File
  imports Pipe
begin

text \<open>
  The file table: \<^verbatim>\<open>kernel/file.c\<close>, \<open>struct file\<close> of \<^verbatim>\<open>kernel/file.h\<close>, and \<open>pipealloc\<close> of
  \<^verbatim>\<open>kernel/pipe.c\<close>. An open file is its index in \<open>ftable.file\<close>. Reads and writes that would
  wait for a pipe or the console are \<open>None\<close> at this level.
\<close>

section \<open>Definitions\<close>

definition NFILE :: nat where "NFILE = 100"

datatype ftype = FD_NONE | FD_PIPE | FD_INODE | FD_DEVICE

record file_t =
  ftype :: ftype
  fref :: int
  readable :: bool
  writable :: bool
  fpipe :: u64
  fip :: nat
  foff :: u32
  fmajor :: u16

record files = pipetab +
  ftable :: "nat \<Rightarrow> file_t"

definition upd_file :: "nat \<Rightarrow> (file_t \<Rightarrow> file_t) \<Rightarrow> 'a files_scheme \<Rightarrow> 'a files_scheme" where
  "upd_file i f s = s\<lparr>ftable := (ftable s)(i := f (ftable s i))\<rparr>"

definition fileinit :: "'a files_scheme \<Rightarrow> 'a files_scheme" where
  "fileinit s = initlock FtableLock ''ftable'' s"

definition filealloc :: "'a files_scheme \<Rightarrow> (nat option \<times> 'a files_scheme) option" where
  "filealloc s = do {
     s \<leftarrow> acquire FtableLock s;
     (case List.find (\<lambda>f. fref (ftable s f) = 0) [0..<NFILE] of
        Some f \<Rightarrow> do {
          s \<leftarrow> release FtableLock (upd_file f (\<lambda>x. x\<lparr>fref := 1\<rparr>) s);
          Some (Some f, s)
        }
      | None \<Rightarrow> do { s \<leftarrow> release FtableLock s; Some (None, s) })
   }"

definition filedup :: "nat \<Rightarrow> 'a files_scheme \<Rightarrow> (nat \<times> 'a files_scheme) option" where
  "filedup f s = do {
     s \<leftarrow> acquire FtableLock s;
     if fref (ftable s f) < 1 then None
     else do {
       s \<leftarrow> release FtableLock (upd_file f (\<lambda>x. x\<lparr>fref := fref x + 1\<rparr>) s);
       Some (f, s)
     }
   }"

definition fileclose :: "nat \<Rightarrow> 'a files_scheme \<Rightarrow> 'a files_scheme option" where
  "fileclose f s = do {
     s \<leftarrow> acquire FtableLock s;
     if fref (ftable s f) < 1 then None
     else do {
       let s = upd_file f (\<lambda>x. x\<lparr>fref := fref x - 1\<rparr>) s;
       if fref (ftable s f) > 0 then release FtableLock s
       else do {
         let ff = ftable s f;
         let s = upd_file f (\<lambda>x. x\<lparr>fref := 0, ftype := FD_NONE\<rparr>) s;
         s \<leftarrow> release FtableLock s;
         (case ftype ff of
            FD_PIPE \<Rightarrow> pipeclose (fpipe ff) (writable ff) s
          | FD_NONE \<Rightarrow> Some s
          | _ \<Rightarrow> do { s \<leftarrow> begin_op s; s \<leftarrow> iput (fip ff) s; end_op s })
       }
     }
   }"

text \<open>\<open>struct stat\<close> is 24 bytes; four bytes of padding come before \<open>size\<close> and are not written.\<close>

definition stat_bytes :: "stat \<Rightarrow> bytes \<Rightarrow> bytes" where
  "stat_bytes st pad = le_bytes 4 (st_dev st) @ le_bytes 4 (st_ino st) @ le_bytes 2 (st_type st) @
     le_bytes 2 (st_nlink st) @ pad @ le_bytes 8 (st_size st)"

definition filestat :: "nat \<Rightarrow> u64 \<Rightarrow> bytes \<Rightarrow> 'a files_scheme \<Rightarrow> (int \<times> 'a files_scheme) option" where
  "filestat f addr pad s = do {
     (p, s) \<leftarrow> myproc s;
     if ftype (ftable s f) = FD_INODE \<or> ftype (ftable s f) = FD_DEVICE then do {
       s \<leftarrow> ilock (fip (ftable s f)) s;
       let st = stati (fip (ftable s f)) s;
       s \<leftarrow> iunlock (fip (ftable s f)) s;
       p \<leftarrow> deref p;
       (r, s) \<leftarrow> copyout (pagetable (procs s p)) addr (stat_bytes st pad) s;
       Some (if r < 0 then -1 else 0, s)
     } else Some (-1, s)
   }"

definition no_wait :: "(('r, 'l) outcome \<times> 's) option \<Rightarrow> ('r \<times> 's) option" where
  "no_wait m = do { (r, s) \<leftarrow> m; (case r of Return x \<Rightarrow> Some (x, s) | Blocked _ _ \<Rightarrow> None) }"

definition bad_major :: "u16 \<Rightarrow> bool" where
  "bad_major m \<longleftrightarrow> sint m < 0 \<or> sint m \<ge> int NDEV"

definition fileread :: "nat \<Rightarrow> u64 \<Rightarrow> int \<Rightarrow> 'a files_scheme \<Rightarrow> (int \<times> 'a files_scheme) option" where
  "fileread f addr n s =
     (let x = ftable s f in
      if \<not> readable x then Some (-1, s)
      else case ftype x of
        FD_PIPE \<Rightarrow> no_wait (piperead (fpipe x) addr n s)
      | FD_DEVICE \<Rightarrow>
          if bad_major (fmajor x) then Some (-1, s)
          else (case devsw_read s (unat (fmajor x)) of
              Some Consoleread \<Rightarrow> no_wait (consoleread True addr n s)
            | Some Consolewrite \<Rightarrow> no_wait (consolewrite True addr n s)
            | None \<Rightarrow> Some (-1, s))
      | FD_INODE \<Rightarrow> do {
          s \<leftarrow> ilock (fip x) s;
          (r, _, s) \<leftarrow> readi (fip x) (Dst True addr) (foff (ftable s f)) (word_of_int n) s;
          let s = (if r > 0 then upd_file f (\<lambda>y. y\<lparr>foff := foff y + word_of_int r\<rparr>) s else s);
          s \<leftarrow> iunlock (fip x) s;
          Some (r, s)
        }
      | FD_NONE \<Rightarrow> None)"

text \<open>At most this many bytes of a file are written in one transaction.\<close>

definition max_write :: int where
  "max_write = int ((MAXOPBLOCKS - 1 - 1 - 2) div 2 * BSIZE)"

function filewrite_loop :: "nat \<Rightarrow> u64 \<Rightarrow> int \<Rightarrow> int \<Rightarrow> 'a files_scheme \<Rightarrow> (int \<times> 'a files_scheme) option" where
  "filewrite_loop f addr n i s =
     (if i < n then do {
        let n1 = (if n - i > max_write then max_write else n - i);
        s \<leftarrow> begin_op s;
        let ip = fip (ftable s f);
        s \<leftarrow> ilock ip s;
        (r, s) \<leftarrow> writei ip (Src True (addr + word_of_int i)) (foff (ftable s f)) (word_of_int n1) s;
        let s = (if r > 0 then upd_file f (\<lambda>y. y\<lparr>foff := foff y + word_of_int r\<rparr>) s else s);
        s \<leftarrow> iunlock ip s;
        s \<leftarrow> end_op s;
        if r \<noteq> n1 then Some (i, s) else filewrite_loop f addr n (i + r) s
      } else Some (i, s))"
  by pat_completeness auto
termination
  by (relation "measure (\<lambda>(f, addr, n, i, s). nat (n - i))") (auto simp: max_write_def kdefs)

definition filewrite :: "nat \<Rightarrow> u64 \<Rightarrow> int \<Rightarrow> 'a files_scheme \<Rightarrow> (int \<times> 'a files_scheme) option" where
  "filewrite f addr n s =
     (let x = ftable s f in
      if \<not> writable x then Some (-1, s)
      else case ftype x of
        FD_PIPE \<Rightarrow> no_wait (pipewrite (fpipe x) addr n s)
      | FD_DEVICE \<Rightarrow>
          if bad_major (fmajor x) then Some (-1, s)
          else (case devsw_write s (unat (fmajor x)) of
              Some Consoleread \<Rightarrow> no_wait (consoleread True addr n s)
            | Some Consolewrite \<Rightarrow> no_wait (consolewrite True addr n s)
            | None \<Rightarrow> Some (-1, s))
      | FD_INODE \<Rightarrow> do {
          (i, s) \<leftarrow> filewrite_loop f addr n 0 s;
          Some (if i = n then n else -1, s)
        }
      | FD_NONE \<Rightarrow> None)"

text \<open>\<open>pipealloc\<close>, with its error path: what has been allocated so far is given back.\<close>

definition pipealloc_bad :: "u64 \<Rightarrow> nat option \<Rightarrow> nat option \<Rightarrow> 'a files_scheme \<Rightarrow>
    ((nat \<times> nat) option \<times> 'a files_scheme) option" where
  "pipealloc_bad pi f0 f1 s = do {
     s \<leftarrow> (if pi \<noteq> 0 then kfree pi s else Some s);
     s \<leftarrow> (case f0 of Some f \<Rightarrow> fileclose f s | None \<Rightarrow> Some s);
     s \<leftarrow> (case f1 of Some f \<Rightarrow> fileclose f s | None \<Rightarrow> Some s);
     Some (None, s)
   }"

definition pipealloc :: "'a files_scheme \<Rightarrow> ((nat \<times> nat) option \<times> 'a files_scheme) option" where
  "pipealloc s = do {
     (f0, s) \<leftarrow> filealloc s;
     case f0 of
       None \<Rightarrow> pipealloc_bad 0 None None s
     | Some f0 \<Rightarrow> do {
         (f1, s) \<leftarrow> filealloc s;
         case f1 of
           None \<Rightarrow> pipealloc_bad 0 (Some f0) None s
         | Some f1 \<Rightarrow> do {
             (pi, s) \<leftarrow> kalloc s;
             if pi = 0 then pipealloc_bad 0 (Some f0) (Some f1) s
             else do {
               let s = upd_pipe pi (\<lambda>x. x\<lparr>readopen := True, writeopen := True, nwrite := 0, nread := 0\<rparr>) s;
               let s = initlock (PipeLock pi) ''pipe'' s;
               let s = upd_file f0 (\<lambda>x. x\<lparr>ftype := FD_PIPE, readable := True, writable := False, fpipe := pi\<rparr>) s;
               let s = upd_file f1 (\<lambda>x. x\<lparr>ftype := FD_PIPE, readable := False, writable := True, fpipe := pi\<rparr>) s;
               Some (Some (f0, f1), s)
             }
           }
       }
   }"

end
