(* ===== verification/Exec.thy ===== *)
theory Exec
  imports File
begin

text \<open>
  Fetching system call arguments, \<open>exec\<close>, and the parts of the process life cycle that use the
  file system: the argument functions of \<^verbatim>\<open>kernel/syscall.c\<close>, \<^verbatim>\<open>kernel/exec.c\<close>, and
  \<open>userinit\<close>, \<open>kfork\<close>, \<open>kexit\<close> of \<^verbatim>\<open>kernel/proc.c\<close>. A string in the kernel is its bytes
  without the final nul.
\<close>

section \<open>Arguments\<close>

definition fetchaddr :: "u64 \<Rightarrow> 'a ptable_scheme \<Rightarrow> (u64 option \<times> 'a ptable_scheme) option" where
  "fetchaddr addr s = do {
     (p, s) \<leftarrow> myproc s;
     p \<leftarrow> deref p;
     if addr \<ge> psz (procs s p) \<or> addr + 8 > psz (procs s p) then Some (None, s)
     else do {
       (r, bs, s) \<leftarrow> copyin (pagetable (procs s p)) addr 8 s;
       Some (if r \<noteq> 0 then None else Some (le_word bs), s)
     }
   }"

text \<open>The string fetched, or \<open>None\<close> for the error value; its length is the value returned.\<close>

definition fetchstr :: "u64 \<Rightarrow> nat \<Rightarrow> 'a ptable_scheme \<Rightarrow> (bytes option \<times> 'a ptable_scheme) option" where
  "fetchstr addr mx s = do {
     (p, s) \<leftarrow> myproc s;
     p \<leftarrow> deref p;
     (r, bs, s) \<leftarrow> copyinstr (pagetable (procs s p)) addr mx s;
     Some (if r < 0 then None else Some (cstring bs), s)
   }"

definition argraw :: "nat \<Rightarrow> 'a ptable_scheme \<Rightarrow> (u64 \<times> 'a ptable_scheme) option" where
  "argraw n s = do {
     (p, s) \<leftarrow> myproc s;
     p \<leftarrow> deref p;
     if n \<le> 5 then Some (tf_get p (Areg n) s, s) else None
   }"

definition argint :: "nat \<Rightarrow> 'a ptable_scheme \<Rightarrow> (int \<times> 'a ptable_scheme) option" where
  "argint n s = do { (v, s) \<leftarrow> argraw n s; Some (sint (ucast v :: u32), s) }"

definition argaddr :: "nat \<Rightarrow> 'a ptable_scheme \<Rightarrow> (u64 \<times> 'a ptable_scheme) option" where
  "argaddr n s = argraw n s"

definition argstr :: "nat \<Rightarrow> nat \<Rightarrow> 'a ptable_scheme \<Rightarrow> (bytes option \<times> 'a ptable_scheme) option" where
  "argstr n mx s = do { (addr, s) \<leftarrow> argaddr n s; fetchstr addr mx s }"

section \<open>Exec\<close>

definition MAXARG :: nat where "MAXARG = 32"
definition MAXPATH :: nat where "MAXPATH = 128"
definition USERSTACK :: u64 where "USERSTACK = 1"
definition ELF_MAGIC :: u32 where "ELF_MAGIC = 0x464C457F"
definition ELF_PROG_LOAD :: u32 where "ELF_PROG_LOAD = 1"

definition get64 :: "bytes \<Rightarrow> nat \<Rightarrow> u64" where
  "get64 bs i = le_word (take 8 (drop i bs))"

text \<open>Offsets in \<open>struct elfhdr\<close>, 64 bytes, and \<open>struct proghdr\<close>, 56 bytes.\<close>

record elfhdr =
  elf_magic :: u32
  elf_entry :: u64
  elf_phoff :: u64
  elf_phnum :: u16

definition elfhdr_of :: "bytes \<Rightarrow> elfhdr" where
  "elfhdr_of d = \<lparr>elf_magic = get32 d 0, elf_entry = get64 d 24, elf_phoff = get64 d 32, elf_phnum = get16 d 56\<rparr>"

record proghdr =
  ph_type :: u32
  ph_flags :: u32
  ph_off :: u64
  ph_vaddr :: u64
  ph_filesz :: u64
  ph_memsz :: u64

definition proghdr_of :: "bytes \<Rightarrow> proghdr" where
  "proghdr_of d = \<lparr>ph_type = get32 d 0, ph_flags = get32 d 4, ph_off = get64 d 8, ph_vaddr = get64 d 16,
     ph_filesz = get64 d 32, ph_memsz = get64 d 40\<rparr>"

definition flags2perm :: "u32 \<Rightarrow> u64" where
  "flags2perm flags =
     (let perm = (if flags AND 1 \<noteq> 0 then PTE_X else 0)
      in if flags AND 2 \<noteq> 0 then perm OR PTE_W else perm)"

text \<open>The counter is unbounded here. In the code it is 32 bits wide, but it does not get near its
  end: no file is that long, and \<open>readi\<close> comes up short first.\<close>

function loadseg_loop :: "u64 \<Rightarrow> u64 \<Rightarrow> nat \<Rightarrow> u32 \<Rightarrow> u32 \<Rightarrow> nat \<Rightarrow> 'a files_scheme \<Rightarrow> (int \<times> 'a files_scheme) option" where
  "loadseg_loop pt va ip offset sz i s =
     (if i < unat sz then do {
        (pa, s) \<leftarrow> walkaddr pt (va + of_nat i) s;
        if pa = 0 then None
        else do {
          let n = (if unat sz - i < 4096 then unat sz - i else 4096);
          (r, _, s) \<leftarrow> readi ip (Dst False pa) (offset + of_nat i) (of_nat n) s;
          if r \<noteq> int n then Some (-1, s) else loadseg_loop pt va ip offset sz (i + 4096) s
        }
      } else Some (0, s))"
  by pat_completeness auto
termination
  by (relation "measure (\<lambda>(pt, va, ip, offset, sz, i, s). unat sz - i)") auto

definition loadseg :: "u64 \<Rightarrow> u64 \<Rightarrow> nat \<Rightarrow> u32 \<Rightarrow> u32 \<Rightarrow> 'a files_scheme \<Rightarrow> (int \<times> 'a files_scheme) option" where
  "loadseg pt va ip offset sz s = loadseg_loop pt va ip offset sz 0 s"

text \<open>The loop over the program headers, \<open>k\<close> of them left: whether it succeeded, and the size so far.\<close>

primrec kexec_load :: "u64 \<Rightarrow> nat \<Rightarrow> nat \<Rightarrow> u32 \<Rightarrow> u64 \<Rightarrow> 'a files_scheme \<Rightarrow> (bool \<times> u64 \<times> 'a files_scheme) option" where
  "kexec_load pt ip 0 off sz s = Some (True, sz, s)"
| "kexec_load pt ip (Suc k) off sz s = do {
     (r, d, s) \<leftarrow> readi ip Local off 56 s;
     if r \<noteq> 56 then Some (False, sz, s)
     else let ph = proghdr_of d in
       if ph_type ph \<noteq> ELF_PROG_LOAD then kexec_load pt ip k (off + 56) sz s
       else if ph_memsz ph < ph_filesz ph then Some (False, sz, s)
       else if ph_vaddr ph + ph_memsz ph < ph_vaddr ph then Some (False, sz, s)
       else if ph_vaddr ph mod PGSIZE \<noteq> 0 then Some (False, sz, s)
       else do {
         (sz1, s) \<leftarrow> uvmalloc pt sz (ph_vaddr ph + ph_memsz ph) (flags2perm (ph_flags ph)) s;
         if sz1 = 0 then Some (False, sz, s)
         else do {
           (r, s) \<leftarrow> loadseg pt (ph_vaddr ph) ip (ucast (ph_off ph)) (ucast (ph_filesz ph)) s;
           if r < 0 then Some (False, sz1, s) else kexec_load pt ip k (off + 56) sz1 s
         }
       }
   }"

text \<open>The argument strings, pushed one by one: the stack pointer and the addresses, or \<open>None\<close>.\<close>

primrec kexec_args :: "u64 \<Rightarrow> u64 \<Rightarrow> bytes list \<Rightarrow> u64 \<Rightarrow> u64 list \<Rightarrow> 'a files_scheme \<Rightarrow>
    ((u64 \<times> u64 list) option \<times> 'a files_scheme) option" where
  "kexec_args pt stackbase [] sp ustack s = Some (Some (sp, ustack), s)"
| "kexec_args pt stackbase (a # as) sp ustack s =
     (if length ustack \<ge> MAXARG then Some (None, s)
      else let sp = sp - of_nat (length a + 1);
               sp = sp - sp mod 16
           in if sp < stackbase then Some (None, s)
              else do {
                (r, s) \<leftarrow> copyout pt sp (a @ [0]) s;
                if r < 0 then Some (None, s) else kexec_args pt stackbase as sp (ustack @ [sp]) s
              })"

definition kexec_bad :: "u64 \<Rightarrow> u64 \<Rightarrow> nat option \<Rightarrow> 'a files_scheme \<Rightarrow> (int \<times> 'a files_scheme) option" where
  "kexec_bad pt sz ip s = do {
     s \<leftarrow> (if pt \<noteq> 0 then proc_freepagetable pt sz s else Some s);
     s \<leftarrow> (case ip of Some ip \<Rightarrow> do { s \<leftarrow> iunlockput ip s; end_op s } | None \<Rightarrow> Some s);
     Some (-1, s)
   }"

text \<open>The part of the path after its last slash.\<close>

definition last_elem :: "bytes \<Rightarrow> bytes" where
  "last_elem path = rev (takeWhile (\<lambda>c. c \<noteq> slash) (rev path))"

definition safe_name :: "bytes \<Rightarrow> bytes \<Rightarrow> bytes" where
  "safe_name old new = load_bytes (safestrcpy (two_strings old new) 0 4096 16) 0 16"

text \<open>From the allocation of the user stack on: \<open>kexec\<close> after the file has been closed.\<close>

definition kexec_commit :: "nat \<Rightarrow> bytes \<Rightarrow> bytes list \<Rightarrow> u64 \<Rightarrow> u64 \<Rightarrow> u64 \<Rightarrow> 'a files_scheme \<Rightarrow>
    (int \<times> 'a files_scheme) option" where
  "kexec_commit p path argv entry pt sz s = do {
     let oldsz = psz (procs s p);
     let sz = PGROUNDUP sz;
     (sz1, s) \<leftarrow> uvmalloc pt sz (sz + (USERSTACK + 1) * PGSIZE) PTE_W s;
     if sz1 = 0 then kexec_bad pt sz None s
     else do {
       let sz = sz1;
       s \<leftarrow> uvmclear pt (sz - (USERSTACK + 1) * PGSIZE) s;
       let stackbase = sz - USERSTACK * PGSIZE;
       (r, s) \<leftarrow> kexec_args pt stackbase argv sz [] s;
       case r of
         None \<Rightarrow> kexec_bad pt sz None s
       | Some (sp, ustack) \<Rightarrow> do {
           let argc = length ustack;
           let sp = sp - of_nat ((argc + 1) * 8);
           let sp = sp - sp mod 16;
           if sp < stackbase then kexec_bad pt sz None s
           else do {
             (r, s) \<leftarrow> copyout pt sp (concat (map (le_bytes 8) (ustack @ [0]))) s;
             if r < 0 then kexec_bad pt sz None s
             else do {
               let s = tf_set p (Areg 1) sp s;
               let s = upd_proc p (\<lambda>q. q\<lparr>pname := safe_name (pname q) (last_elem path)\<rparr>) s;
               let oldpt = pagetable (procs s p);
               let s = upd_proc p (\<lambda>q. q\<lparr>pagetable := pt, psz := sz\<rparr>) s;
               let s = tf_set p Epc entry s;
               let s = tf_set p Sp sp s;
               s \<leftarrow> proc_freepagetable oldpt oldsz s;
               Some (int argc, s)
             }
           }
         }
     }
   }"

definition kexec :: "bytes \<Rightarrow> bytes list \<Rightarrow> 'a files_scheme \<Rightarrow> (int \<times> 'a files_scheme) option" where
  "kexec path argv s = do {
     (p, s) \<leftarrow> myproc s;
     p \<leftarrow> deref p;
     s \<leftarrow> begin_op s;
     (ip, s) \<leftarrow> namei path s;
     case ip of
       None \<Rightarrow> do { s \<leftarrow> end_op s; Some (-1, s) }
     | Some ip \<Rightarrow> do {
         s \<leftarrow> ilock ip s;
         (r, d, s) \<leftarrow> readi ip Local 0 64 s;
         if r \<noteq> 64 then kexec_bad 0 0 (Some ip) s
         else if elf_magic (elfhdr_of d) \<noteq> ELF_MAGIC then kexec_bad 0 0 (Some ip) s
         else do {
           let elf = elfhdr_of d;
           (pt, s) \<leftarrow> proc_pagetable p s;
           if pt = 0 then kexec_bad 0 0 (Some ip) s
           else do {
             (ok, sz, s) \<leftarrow> kexec_load pt ip (unat (elf_phnum elf)) (ucast (elf_phoff elf)) 0 s;
             if \<not> ok then kexec_bad pt sz (Some ip) s
             else do {
               s \<leftarrow> iunlockput ip s;
               s \<leftarrow> end_op s;
               kexec_commit p path argv (elf_entry elf) pt sz s
             }
           }
         }
       }
   }"

section \<open>Processes and their files\<close>

definition userinit :: "'a files_scheme \<Rightarrow> 'a files_scheme option" where
  "userinit s = do {
     (p, s) \<leftarrow> allocproc s;
     let s = s\<lparr>initproc := p\<rparr>;
     p \<leftarrow> deref p;
     (ip, s) \<leftarrow> namei [slash] s;
     let s = upd_proc p (\<lambda>q. q\<lparr>cwd := ip, pstate := RUNNABLE\<rparr>) s;
     release (ProcLock p) s
   }"

primrec kfork_files :: "nat \<Rightarrow> nat \<Rightarrow> nat list \<Rightarrow> 'a files_scheme \<Rightarrow> 'a files_scheme option" where
  "kfork_files p np [] s = Some s"
| "kfork_files p np (i # is) s = do {
     s \<leftarrow> (case ofile (procs s p) i of
             None \<Rightarrow> Some s
           | Some f \<Rightarrow> do {
               (f, s) \<leftarrow> filedup f s;
               Some (upd_proc np (\<lambda>q. q\<lparr>ofile := (ofile q)(i := Some f)\<rparr>) s)
             });
     kfork_files p np is s
   }"

definition kfork :: "'a files_scheme \<Rightarrow> (int \<times> 'a files_scheme) option" where
  "kfork s = do {
     (p, s) \<leftarrow> myproc s;
     p \<leftarrow> deref p;
     (np, s) \<leftarrow> allocproc s;
     case np of
       None \<Rightarrow> Some (-1, s)
     | Some np \<Rightarrow> do {
         (r, s) \<leftarrow> uvmcopy (pagetable (procs s p)) (pagetable (procs s np)) (psz (procs s p)) s;
         if r < 0 then do {
           s \<leftarrow> freeproc np s;
           s \<leftarrow> release (ProcLock np) s;
           Some (-1, s)
         } else do {
           let s = upd_proc np (\<lambda>q. q\<lparr>psz := psz (procs s p)\<rparr>) s;
           let s = s\<lparr>mem := store_bytes (mem s) (trapframe (procs s np))
                              (load_bytes (mem s) (trapframe (procs s p)) tf_size)\<rparr>;
           let s = tf_set np (Areg 0) 0 s;
           s \<leftarrow> kfork_files p np [0..<NOFILE] s;
           ip \<leftarrow> deref (cwd (procs s p));
           (ip, s) \<leftarrow> idup ip s;
           let s = upd_proc np (\<lambda>q. q\<lparr>cwd := Some ip\<rparr>) s;
           let s = upd_proc np (\<lambda>q. q\<lparr>pname := safe_name (pname q) (pname (procs s p))\<rparr>) s;
           kfork_publish p np s
         }
       }
   }"

primrec kexit_files :: "nat \<Rightarrow> nat list \<Rightarrow> 'a files_scheme \<Rightarrow> 'a files_scheme option" where
  "kexit_files p [] s = Some s"
| "kexit_files p (i # is) s = do {
     s \<leftarrow> (case ofile (procs s p) i of
             None \<Rightarrow> Some s
           | Some f \<Rightarrow> do {
               s \<leftarrow> fileclose f s;
               Some (upd_proc p (\<lambda>q. q\<lparr>ofile := (ofile q)(i := None)\<rparr>) s)
             });
     kexit_files p is s
   }"

text \<open>\<open>kexit\<close> ends in the scheduler.\<close>

definition kexit :: "int \<Rightarrow> 'a files_scheme \<Rightarrow> (bool \<times> 'a files_scheme) option" where
  "kexit status s = do {
     (p, s) \<leftarrow> myproc s;
     if p = initproc s then None
     else do {
       p \<leftarrow> deref p;
       s \<leftarrow> kexit_files p [0..<NOFILE] s;
       s \<leftarrow> begin_op s;
       ip \<leftarrow> deref (cwd (procs s p));
       s \<leftarrow> iput ip s;
       s \<leftarrow> end_op s;
       let s = upd_proc p (\<lambda>q. q\<lparr>cwd := None\<rparr>) s;
       kexit_final p status s
     }
   }"

end
