(* ===== verification/Sysfile.thy ===== *)
theory Sysfile
  imports Exec
begin

text \<open>
  The file system calls: \<^verbatim>\<open>kernel/sysfile.c\<close>. Each returns the value that goes to \<open>a0\<close>, as an
  integer. The error paths (\<open>goto bad\<close>, \<open>goto fail\<close>) are functions of their own.
\<close>

section \<open>Descriptors\<close>

definition argfd :: "nat \<Rightarrow> 'a files_scheme \<Rightarrow> ((nat \<times> nat) option \<times> 'a files_scheme) option" where
  "argfd n s = do {
     (fd, s) \<leftarrow> argint n s;
     if fd < 0 \<or> fd \<ge> int NOFILE then Some (None, s)
     else do {
       (p, s) \<leftarrow> myproc s;
       p \<leftarrow> deref p;
       Some (map_option (\<lambda>f. (nat fd, f)) (ofile (procs s p) (nat fd)), s)
     }
   }"

definition fdalloc :: "nat \<Rightarrow> 'a files_scheme \<Rightarrow> (int \<times> 'a files_scheme) option" where
  "fdalloc f s = do {
     (p, s) \<leftarrow> myproc s;
     p \<leftarrow> deref p;
     (case List.find (\<lambda>fd. ofile (procs s p) fd = None) [0..<NOFILE] of
        Some fd \<Rightarrow> Some (int fd, upd_proc p (\<lambda>q. q\<lparr>ofile := (ofile q)(fd := Some f)\<rparr>) s)
      | None \<Rightarrow> Some (-1, s))
   }"

definition sys_dup :: "'a files_scheme \<Rightarrow> (int \<times> 'a files_scheme) option" where
  "sys_dup s = do {
     (r, s) \<leftarrow> argfd 0 s;
     case r of
       None \<Rightarrow> Some (-1, s)
     | Some (_, f) \<Rightarrow> do {
         (fd, s) \<leftarrow> fdalloc f s;
         if fd < 0 then Some (-1, s)
         else do { (_, s) \<leftarrow> filedup f s; Some (fd, s) }
       }
   }"

definition sys_read :: "'a files_scheme \<Rightarrow> (int \<times> 'a files_scheme) option" where
  "sys_read s = do {
     (p, s) \<leftarrow> argaddr 1 s;
     (n, s) \<leftarrow> argint 2 s;
     (r, s) \<leftarrow> argfd 0 s;
     case r of None \<Rightarrow> Some (-1, s) | Some (_, f) \<Rightarrow> fileread f p n s
   }"

definition sys_write :: "'a files_scheme \<Rightarrow> (int \<times> 'a files_scheme) option" where
  "sys_write s = do {
     (p, s) \<leftarrow> argaddr 1 s;
     (n, s) \<leftarrow> argint 2 s;
     (r, s) \<leftarrow> argfd 0 s;
     case r of None \<Rightarrow> Some (-1, s) | Some (_, f) \<Rightarrow> filewrite f p n s
   }"

definition sys_close :: "'a files_scheme \<Rightarrow> (int \<times> 'a files_scheme) option" where
  "sys_close s = do {
     (r, s) \<leftarrow> argfd 0 s;
     case r of
       None \<Rightarrow> Some (-1, s)
     | Some (fd, f) \<Rightarrow> do {
         (p, s) \<leftarrow> myproc s;
         p \<leftarrow> deref p;
         let s = upd_proc p (\<lambda>q. q\<lparr>ofile := (ofile q)(fd := None)\<rparr>) s;
         s \<leftarrow> fileclose f s;
         Some (0, s)
       }
   }"

definition sys_fstat :: "bytes \<Rightarrow> 'a files_scheme \<Rightarrow> (int \<times> 'a files_scheme) option" where
  "sys_fstat pad s = do {
     (st, s) \<leftarrow> argaddr 1 s;
     (r, s) \<leftarrow> argfd 0 s;
     case r of None \<Rightarrow> Some (-1, s) | Some (_, f) \<Rightarrow> filestat f st pad s
   }"

section \<open>Names\<close>

definition end_op_ret :: "int \<Rightarrow> 'a files_scheme \<Rightarrow> (int \<times> 'a files_scheme) option" where
  "end_op_ret r s = do { s \<leftarrow> end_op s; Some (r, s) }"

definition sys_link_bad :: "nat \<Rightarrow> 'a files_scheme \<Rightarrow> (int \<times> 'a files_scheme) option" where
  "sys_link_bad ip s = do {
     s \<leftarrow> ilock ip s;
     let s = upd_inode ip (\<lambda>x. x\<lparr>nlink := nlink x - 1\<rparr>) s;
     s \<leftarrow> iupdate ip s;
     s \<leftarrow> iunlockput ip s;
     end_op_ret (-1) s
   }"

definition sys_link :: "'a files_scheme \<Rightarrow> (int \<times> 'a files_scheme) option" where
  "sys_link s = do {
     (old, s) \<leftarrow> argstr 0 MAXPATH s;
     case old of
       None \<Rightarrow> Some (-1, s)
     | Some old \<Rightarrow> do {
         (new, s) \<leftarrow> argstr 1 MAXPATH s;
         case new of
           None \<Rightarrow> Some (-1, s)
         | Some new \<Rightarrow> do {
             s \<leftarrow> begin_op s;
             (ip, s) \<leftarrow> namei old s;
             case ip of
               None \<Rightarrow> end_op_ret (-1) s
             | Some ip \<Rightarrow> do {
                 s \<leftarrow> ilock ip s;
                 if itype (itable s ip) = T_DIR then do { s \<leftarrow> iunlockput ip s; end_op_ret (-1) s }
                 else do {
                   let s = upd_inode ip (\<lambda>x. x\<lparr>nlink := nlink x + 1\<rparr>) s;
                   s \<leftarrow> iupdate ip s;
                   s \<leftarrow> iunlock ip s;
                   (dp, name, s) \<leftarrow> nameiparent new s;
                   case dp of
                     None \<Rightarrow> sys_link_bad ip s
                   | Some dp \<Rightarrow> do {
                       s \<leftarrow> ilock dp s;
                       (r, s) \<leftarrow> (if idev (itable s dp) \<noteq> idev (itable s ip) then Some (-1, s)
                                  else dirlink dp name (inum (itable s ip)) s);
                       if r < 0 then do { s \<leftarrow> iunlockput dp s; sys_link_bad ip s }
                       else do {
                         s \<leftarrow> iunlockput dp s;
                         s \<leftarrow> iput ip s;
                         end_op_ret 0 s
                       }
                     }
                 }
               }
           }
       }
   }"

partial_function (option) isdirempty_loop :: "nat \<Rightarrow> u32 \<Rightarrow> 'a fs_scheme \<Rightarrow> (bool \<times> 'a fs_scheme) option" where
  [code]: "isdirempty_loop dp off s =
     (if off < isize (itable s dp) then do {
        (r, de, s) \<leftarrow> readi dp Local off 16 s;
        if r \<noteq> 16 then None
        else if dirent_inum de \<noteq> 0 then Some (False, s)
        else isdirempty_loop dp (off + 16) s
      } else Some (True, s))"

definition isdirempty :: "nat \<Rightarrow> 'a fs_scheme \<Rightarrow> (bool \<times> 'a fs_scheme) option" where
  "isdirempty dp s = isdirempty_loop dp 32 s"

definition sys_unlink_bad :: "nat \<Rightarrow> 'a files_scheme \<Rightarrow> (int \<times> 'a files_scheme) option" where
  "sys_unlink_bad dp s = do { s \<leftarrow> iunlockput dp s; end_op_ret (-1) s }"

definition sys_unlink :: "'a files_scheme \<Rightarrow> (int \<times> 'a files_scheme) option" where
  "sys_unlink s = do {
     (path, s) \<leftarrow> argstr 0 MAXPATH s;
     case path of
       None \<Rightarrow> Some (-1, s)
     | Some path \<Rightarrow> do {
         s \<leftarrow> begin_op s;
         (dp, name, s) \<leftarrow> nameiparent path s;
         case dp of
           None \<Rightarrow> end_op_ret (-1) s
         | Some dp \<Rightarrow> do {
             s \<leftarrow> ilock dp s;
             if namecmp name (str ''.'') = 0 \<or> namecmp name (str ''..'') = 0 then sys_unlink_bad dp s
             else do {
               (r, s) \<leftarrow> dirlookup dp name s;
               case r of
                 None \<Rightarrow> sys_unlink_bad dp s
               | Some (ip, off) \<Rightarrow> do {
                   s \<leftarrow> ilock ip s;
                   if sint (nlink (itable s ip)) < 1 then None
                   else do {
                     (e, s) \<leftarrow> (if itype (itable s ip) = T_DIR then isdirempty ip s else Some (True, s));
                     if \<not> e then do { s \<leftarrow> iunlockput ip s; sys_unlink_bad dp s }
                     else do {
                       (w, s) \<leftarrow> writei dp (Local_bytes (replicate 16 0)) off 16 s;
                       if w \<noteq> 16 then None
                       else do {
                         s \<leftarrow> (if itype (itable s ip) = T_DIR
                               then iupdate dp (upd_inode dp (\<lambda>x. x\<lparr>nlink := nlink x - 1\<rparr>) s)
                               else Some s);
                         s \<leftarrow> iunlockput dp s;
                         let s = upd_inode ip (\<lambda>x. x\<lparr>nlink := nlink x - 1\<rparr>) s;
                         s \<leftarrow> iupdate ip s;
                         s \<leftarrow> iunlockput ip s;
                         end_op_ret 0 s
                       }
                     }
                   }
                 }
             }
           }
       }
   }"

definition create_fail :: "nat \<Rightarrow> nat \<Rightarrow> 'a fs_scheme \<Rightarrow> (nat option \<times> 'a fs_scheme) option" where
  "create_fail ip dp s = do {
     let s = upd_inode ip (\<lambda>x. x\<lparr>nlink := 0\<rparr>) s;
     s \<leftarrow> iupdate ip s;
     s \<leftarrow> iunlockput ip s;
     s \<leftarrow> iunlockput dp s;
     Some (None, s)
   }"

text \<open>The entries \<open>.\<close> and \<open>..\<close> of a new directory.\<close>

definition create_dots :: "nat \<Rightarrow> nat \<Rightarrow> 'a fs_scheme \<Rightarrow> (int \<times> 'a fs_scheme) option" where
  "create_dots ip dp s = do {
     (r, s) \<leftarrow> dirlink ip (str ''.'') (inum (itable s ip)) s;
     if r < 0 then Some (-1, s)
     else dirlink ip (str ''..'') (inum (itable s dp)) s
   }"

definition create_new :: "nat \<Rightarrow> bytes \<Rightarrow> u16 \<Rightarrow> u16 \<Rightarrow> u16 \<Rightarrow> 'a fs_scheme \<Rightarrow> (nat option \<times> 'a fs_scheme) option" where
  "create_new dp name ty maj mn s = do {
     (ip, s) \<leftarrow> ialloc (idev (itable s dp)) ty s;
     case ip of
       None \<Rightarrow> do { s \<leftarrow> iunlockput dp s; Some (None, s) }
     | Some ip \<Rightarrow> do {
         s \<leftarrow> ilock ip s;
         let s = upd_inode ip (\<lambda>x. x\<lparr>imajor := maj, iminor := mn, nlink := 1\<rparr>) s;
         s \<leftarrow> iupdate ip s;
         (r, s) \<leftarrow> (if ty = T_DIR then create_dots ip dp s else Some (0, s));
         if r < 0 then create_fail ip dp s
         else do {
           (r, s) \<leftarrow> dirlink dp name (inum (itable s ip)) s;
           if r < 0 then create_fail ip dp s
           else do {
             s \<leftarrow> (if ty = T_DIR then iupdate dp (upd_inode dp (\<lambda>x. x\<lparr>nlink := nlink x + 1\<rparr>) s) else Some s);
             s \<leftarrow> iunlockput dp s;
             Some (Some ip, s)
           }
         }
       }
   }"

definition create :: "bytes \<Rightarrow> u16 \<Rightarrow> u16 \<Rightarrow> u16 \<Rightarrow> 'a fs_scheme \<Rightarrow> (nat option \<times> 'a fs_scheme) option" where
  "create path ty maj mn s = do {
     (dp, name, s) \<leftarrow> nameiparent path s;
     case dp of
       None \<Rightarrow> Some (None, s)
     | Some dp \<Rightarrow> do {
         s \<leftarrow> ilock dp s;
         (r, s) \<leftarrow> dirlookup dp name s;
         case r of
           Some (ip, _) \<Rightarrow> do {
             s \<leftarrow> iunlockput dp s;
             s \<leftarrow> ilock ip s;
             if ty = T_FILE \<and> (itype (itable s ip) = T_FILE \<or> itype (itable s ip) = T_DEVICE)
             then Some (Some ip, s)
             else do { s \<leftarrow> iunlockput ip s; Some (None, s) }
           }
         | None \<Rightarrow> create_new dp name ty maj mn s
       }
   }"

section \<open>Open and the rest\<close>

definition O_RDONLY :: u32 where "O_RDONLY = 0"
definition O_WRONLY :: u32 where "O_WRONLY = 1"
definition O_RDWR :: u32 where "O_RDWR = 2"
definition O_CREATE :: u32 where "O_CREATE = 0x200"
definition O_TRUNC :: u32 where "O_TRUNC = 0x400"

definition open_fail :: "nat \<Rightarrow> 'a files_scheme \<Rightarrow> (int \<times> 'a files_scheme) option" where
  "open_fail ip s = do { s \<leftarrow> iunlockput ip s; end_op_ret (-1) s }"

text \<open>\<open>sys_open\<close> from the point where the inode is found and locked.\<close>

definition open_inode :: "nat \<Rightarrow> u32 \<Rightarrow> 'a files_scheme \<Rightarrow> (int \<times> 'a files_scheme) option" where
  "open_inode ip omode s =
     (if itype (itable s ip) = T_DEVICE \<and> bad_major (imajor (itable s ip)) then open_fail ip s
      else do {
        (f, s) \<leftarrow> filealloc s;
        case f of
          None \<Rightarrow> open_fail ip s
        | Some f \<Rightarrow> do {
            (fd, s) \<leftarrow> fdalloc f s;
            if fd < 0 then do { s \<leftarrow> fileclose f s; open_fail ip s }
            else do {
              let s = (if itype (itable s ip) = T_DEVICE
                       then upd_file f (\<lambda>x. x\<lparr>ftype := FD_DEVICE, fmajor := imajor (itable s ip)\<rparr>) s
                       else upd_file f (\<lambda>x. x\<lparr>ftype := FD_INODE, foff := 0\<rparr>) s);
              let s = upd_file f (\<lambda>x. x\<lparr>fip := ip, readable := (omode AND O_WRONLY = 0),
                        writable := (omode AND O_WRONLY \<noteq> 0 \<or> omode AND O_RDWR \<noteq> 0)\<rparr>) s;
              s \<leftarrow> (if omode AND O_TRUNC \<noteq> 0 \<and> itype (itable s ip) = T_FILE then itrunc ip s else Some s);
              s \<leftarrow> iunlock ip s;
              end_op_ret fd s
            }
          }
      })"

definition sys_open :: "'a files_scheme \<Rightarrow> (int \<times> 'a files_scheme) option" where
  "sys_open s = do {
     (om, s) \<leftarrow> argint 1 s;
     let omode = word_of_int om;
     (path, s) \<leftarrow> argstr 0 MAXPATH s;
     case path of
       None \<Rightarrow> Some (-1, s)
     | Some path \<Rightarrow> do {
         s \<leftarrow> begin_op s;
         if omode AND O_CREATE \<noteq> 0 then do {
           (ip, s) \<leftarrow> create path T_FILE 0 0 s;
           case ip of None \<Rightarrow> end_op_ret (-1) s | Some ip \<Rightarrow> open_inode ip omode s
         } else do {
           (ip, s) \<leftarrow> namei path s;
           case ip of
             None \<Rightarrow> end_op_ret (-1) s
           | Some ip \<Rightarrow> do {
               s \<leftarrow> ilock ip s;
               if itype (itable s ip) = T_DIR \<and> omode \<noteq> O_RDONLY then open_fail ip s
               else open_inode ip omode s
             }
         }
       }
   }"

definition sys_mkdir :: "'a files_scheme \<Rightarrow> (int \<times> 'a files_scheme) option" where
  "sys_mkdir s = do {
     s \<leftarrow> begin_op s;
     (path, s) \<leftarrow> argstr 0 MAXPATH s;
     (ip, s) \<leftarrow> (case path of None \<Rightarrow> Some (None, s) | Some path \<Rightarrow> create path T_DIR 0 0 s);
     case ip of
       None \<Rightarrow> end_op_ret (-1) s
     | Some ip \<Rightarrow> do { s \<leftarrow> iunlockput ip s; end_op_ret 0 s }
   }"

definition sys_mknod :: "'a files_scheme \<Rightarrow> (int \<times> 'a files_scheme) option" where
  "sys_mknod s = do {
     s \<leftarrow> begin_op s;
     (maj, s) \<leftarrow> argint 1 s;
     (mn, s) \<leftarrow> argint 2 s;
     (path, s) \<leftarrow> argstr 0 MAXPATH s;
     (ip, s) \<leftarrow> (case path of None \<Rightarrow> Some (None, s)
                 | Some path \<Rightarrow> create path T_DEVICE (word_of_int maj) (word_of_int mn) s);
     case ip of
       None \<Rightarrow> end_op_ret (-1) s
     | Some ip \<Rightarrow> do { s \<leftarrow> iunlockput ip s; end_op_ret 0 s }
   }"

definition sys_chdir :: "'a files_scheme \<Rightarrow> (int \<times> 'a files_scheme) option" where
  "sys_chdir s = do {
     (p, s) \<leftarrow> myproc s;
     p \<leftarrow> deref p;
     s \<leftarrow> begin_op s;
     (path, s) \<leftarrow> argstr 0 MAXPATH s;
     (ip, s) \<leftarrow> (case path of None \<Rightarrow> Some (None, s) | Some path \<Rightarrow> namei path s);
     case ip of
       None \<Rightarrow> end_op_ret (-1) s
     | Some ip \<Rightarrow> do {
         s \<leftarrow> ilock ip s;
         if itype (itable s ip) \<noteq> T_DIR then do { s \<leftarrow> iunlockput ip s; end_op_ret (-1) s }
         else do {
           s \<leftarrow> iunlock ip s;
           c \<leftarrow> deref (cwd (procs s p));
           s \<leftarrow> iput c s;
           s \<leftarrow> end_op s;
           Some (0, upd_proc p (\<lambda>q. q\<lparr>cwd := Some ip\<rparr>) s)
         }
       }
   }"

primrec kfree_all :: "u64 list \<Rightarrow> 'a kmem_scheme \<Rightarrow> 'a kmem_scheme option" where
  "kfree_all [] s = Some s"
| "kfree_all (a # as) s = do { s \<leftarrow> kfree a s; kfree_all as s }"

text \<open>The loop that copies the argument strings, each to a page of its own: whether it succeeded, the
  pages and the strings. \<open>k\<close> is the number of slots of \<open>argv\<close> left.\<close>

primrec exec_args :: "u64 \<Rightarrow> nat \<Rightarrow> u64 list \<Rightarrow> bytes list \<Rightarrow> 'a files_scheme \<Rightarrow>
    (bool \<times> u64 list \<times> bytes list \<times> 'a files_scheme) option" where
  "exec_args uargv 0 pages strs s = Some (False, pages, strs, s)"
| "exec_args uargv (Suc k) pages strs s = do {
     (u, s) \<leftarrow> fetchaddr (uargv + 8 * of_nat (length pages)) s;
     case u of
       None \<Rightarrow> Some (False, pages, strs, s)
     | Some uarg \<Rightarrow>
         if uarg = 0 then Some (True, pages, strs, s)
         else do {
           (pg, s) \<leftarrow> kalloc s;
           if pg = 0 then Some (False, pages, strs, s)
           else do {
             (a, s) \<leftarrow> fetchstr uarg 4096 s;
             case a of
               None \<Rightarrow> Some (False, pages @ [pg], strs, s)
             | Some a \<Rightarrow> exec_args uargv k (pages @ [pg]) (strs @ [a])
                          (s\<lparr>mem := store_bytes (mem s) pg (a @ [0])\<rparr>)
           }
         }
   }"

definition sys_exec :: "'a files_scheme \<Rightarrow> (int \<times> 'a files_scheme) option" where
  "sys_exec s = do {
     (uargv, s) \<leftarrow> argaddr 1 s;
     (path, s) \<leftarrow> argstr 0 MAXPATH s;
     case path of
       None \<Rightarrow> Some (-1, s)
     | Some path \<Rightarrow> do {
         (ok, pages, strs, s) \<leftarrow> exec_args uargv MAXARG [] [] s;
         (r, s) \<leftarrow> (if ok then kexec path strs s else Some (-1, s));
         s \<leftarrow> kfree_all pages s;
         Some (r, s)
       }
   }"

definition clear_fd :: "nat \<Rightarrow> int \<Rightarrow> 'a ptable_scheme \<Rightarrow> 'a ptable_scheme" where
  "clear_fd p fd s = upd_proc p (\<lambda>q. q\<lparr>ofile := (ofile q)(nat fd := None)\<rparr>) s"

definition close_both :: "nat \<Rightarrow> nat \<Rightarrow> 'a files_scheme \<Rightarrow> (int \<times> 'a files_scheme) option" where
  "close_both rf wrf s = do { s \<leftarrow> fileclose rf s; s \<leftarrow> fileclose wrf s; Some (-1, s) }"

definition sys_pipe :: "'a files_scheme \<Rightarrow> (int \<times> 'a files_scheme) option" where
  "sys_pipe s = do {
     (p, s) \<leftarrow> myproc s;
     p \<leftarrow> deref p;
     (fdarray, s) \<leftarrow> argaddr 0 s;
     (r, s) \<leftarrow> pipealloc s;
     case r of
       None \<Rightarrow> Some (-1, s)
     | Some (rf, wrf) \<Rightarrow> do {
         (fd0, s) \<leftarrow> fdalloc rf s;
         if fd0 < 0 then close_both rf wrf s
         else do {
           (fd1, s) \<leftarrow> fdalloc wrf s;
           if fd1 < 0 then close_both rf wrf (clear_fd p fd0 s)
           else do {
             (r, s) \<leftarrow> copyout (pagetable (procs s p)) fdarray (le_bytes 4 (word_of_int fd0 :: u32)) s;
             (r, s) \<leftarrow> (if r < 0 then Some (r, s)
                        else copyout (pagetable (procs s p)) (fdarray + 4) (le_bytes 4 (word_of_int fd1 :: u32)) s);
             if r < 0 then close_both rf wrf (clear_fd p fd1 (clear_fd p fd0 s))
             else Some (0, s)
           }
         }
       }
   }"

end
