(* ===== verification/Virtio.thy ===== *)
theory Virtio
  imports Sysfile
begin

text \<open>
  The disk driver: \<^verbatim>\<open>kernel/virtio_disk.c\<close>, \<^verbatim>\<open>kernel/virtio.h\<close>. The descriptor table and the
  two rings live in pages shared with the device; they are fields of the state here, and an address
  in a descriptor names the object it is the address of. A request sleeps twice at most, for
  descriptors and for completion, so \<open>virtio_disk_rw\<close> comes in three parts.

  The device itself is not part of the program. Reading one of its registers is a parameter
  (\<open>rd\<close>, a function of the register and of everything written so far).
\<close>

section \<open>State\<close>

definition NUM :: nat where "NUM = 8"

datatype dma = Dma_none | Dma_op nat | Dma_data nat | Dma_status nat

record virtq_desc =
  daddr :: dma
  dlen :: u32
  dflags :: u16
  dnext :: u16

record virtio_blk_req =
  req_type :: u32
  req_sector :: u64

record vdisk = files +
  vdesc :: "nat \<Rightarrow> virtq_desc"
  avail_ring :: "nat \<Rightarrow> u16"
  avail_idx :: u16
  used_ring :: "nat \<Rightarrow> u32"
  used_ring_idx :: u16
  vfree :: "nat \<Rightarrow> bool"
  used_idx :: u16
  info_b :: "nat \<Rightarrow> nat option"
  info_status :: "nat \<Rightarrow> u8"
  ops :: "nat \<Rightarrow> virtio_blk_req"
  queue_pages :: "u64 \<times> u64 \<times> u64"
  mmio_log :: "(nat \<times> u32) list"

definition VRING_DESC_F_NEXT :: u16 where "VRING_DESC_F_NEXT = 1"
definition VRING_DESC_F_WRITE :: u16 where "VRING_DESC_F_WRITE = 2"
definition VIRTIO_BLK_T_IN :: u32 where "VIRTIO_BLK_T_IN = 0"
definition VIRTIO_BLK_T_OUT :: u32 where "VIRTIO_BLK_T_OUT = 1"

definition mmio_write :: "nat \<Rightarrow> u32 \<Rightarrow> 'a vdisk_scheme \<Rightarrow> 'a vdisk_scheme" where
  "mmio_write r v s = s\<lparr>mmio_log := mmio_log s @ [(r, v)]\<rparr>"

section \<open>Starting the device\<close>

definition clear_bit :: "nat \<Rightarrow> u32 \<Rightarrow> u32" where
  "clear_bit n w = w AND NOT (push_bit n 1)"

definition virtio_features :: "u32 \<Rightarrow> u32" where
  "virtio_features f = clear_bit 28 (clear_bit 29 (clear_bit 27 (clear_bit 12 (clear_bit 11 (clear_bit 7 (clear_bit 5 f))))))"

text \<open>The negotiation of features up to \<open>FEATURES_OK\<close>; the registers are at the offsets of
  \<^verbatim>\<open>kernel/virtio.h\<close>.\<close>

definition virtio_negotiate :: "(nat \<Rightarrow> (nat \<times> u32) list \<Rightarrow> u32) \<Rightarrow> 'a vdisk_scheme \<Rightarrow> 'a vdisk_scheme option" where
  "virtio_negotiate rd s =
     (if rd 0x000 (mmio_log s) \<noteq> 0x74726976 \<or> rd 0x004 (mmio_log s) \<noteq> 2 \<or>
         rd 0x008 (mmio_log s) \<noteq> 2 \<or> rd 0x00c (mmio_log s) \<noteq> 0x554d4551 then None
      else let s = mmio_write 0x070 0 s;
               s = mmio_write 0x070 1 s;
               s = mmio_write 0x070 (1 OR 2) s;
               s = mmio_write 0x020 (virtio_features (rd 0x010 (mmio_log s))) s;
               s = mmio_write 0x070 (1 OR 2 OR 8) s
           in if rd 0x070 (mmio_log s) AND 8 = 0 then None else Some s)"

definition virtio_queue :: "(nat \<Rightarrow> (nat \<times> u32) list \<Rightarrow> u32) \<Rightarrow> u32 \<Rightarrow> 'a vdisk_scheme \<Rightarrow> 'a vdisk_scheme option" where
  "virtio_queue rd status s = do {
     let s = mmio_write 0x030 0 s;
     if rd 0x044 (mmio_log s) \<noteq> 0 then None
     else if rd 0x034 (mmio_log s) = 0 then None
     else if rd 0x034 (mmio_log s) < of_nat NUM then None
     else do {
       (d, s) \<leftarrow> kalloc s;
       (a, s) \<leftarrow> kalloc s;
       (u, s) \<leftarrow> kalloc s;
       if d = 0 \<or> a = 0 \<or> u = 0 then None
       else do {
         let s = s\<lparr>queue_pages := (d, a, u), vdesc := (\<lambda>_. \<lparr>daddr = Dma_none, dlen = 0, dflags = 0, dnext = 0\<rparr>),
                   avail_ring := (\<lambda>_. 0), avail_idx := 0, used_ring := (\<lambda>_. 0), used_ring_idx := 0\<rparr>;
         let s = mmio_write 0x038 (of_nat NUM) s;
         let s = mmio_write 0x080 (ucast d) s;
         let s = mmio_write 0x084 (ucast (drop_bit 32 d)) s;
         let s = mmio_write 0x090 (ucast a) s;
         let s = mmio_write 0x094 (ucast (drop_bit 32 a)) s;
         let s = mmio_write 0x0a0 (ucast u) s;
         let s = mmio_write 0x0a4 (ucast (drop_bit 32 u)) s;
         let s = mmio_write 0x044 1 s;
         let s = s\<lparr>vfree := (\<lambda>i. if i < NUM then True else vfree s i)\<rparr>;
         Some (mmio_write 0x070 (status OR 4) s)
       }
     }
   }"

definition virtio_disk_init :: "(nat \<Rightarrow> (nat \<times> u32) list \<Rightarrow> u32) \<Rightarrow> 'a vdisk_scheme \<Rightarrow> 'a vdisk_scheme option" where
  "virtio_disk_init rd s = do {
     let s = initlock VdiskLock ''virtio_disk'' s;
     s \<leftarrow> virtio_negotiate rd s;
     virtio_queue rd (rd 0x070 (mmio_log s)) s
   }"

section \<open>Descriptors\<close>

definition alloc_desc :: "'a vdisk_scheme \<Rightarrow> nat option \<times> 'a vdisk_scheme" where
  "alloc_desc s = (case List.find (vfree s) [0..<NUM] of
       Some i \<Rightarrow> (Some i, s\<lparr>vfree := (vfree s)(i := False)\<rparr>)
     | None \<Rightarrow> (None, s))"

definition free_desc :: "nat \<Rightarrow> 'a vdisk_scheme \<Rightarrow> 'a vdisk_scheme option" where
  "free_desc i s =
     (if i \<ge> NUM then None
      else if vfree s i then None
      else let s = s\<lparr>vdesc := (vdesc s)(i := \<lparr>daddr = Dma_none, dlen = 0, dflags = 0, dnext = 0\<rparr>),
                     vfree := (vfree s)(i := True)\<rparr>
           in wakeup (Some ChanDisk) s)"

partial_function (option) free_chain :: "nat \<Rightarrow> 'a vdisk_scheme \<Rightarrow> 'a vdisk_scheme option" where
  [code]: "free_chain i s = do {
     let flag = dflags (vdesc s i);
     let nxt = unat (dnext (vdesc s i));
     s \<leftarrow> free_desc i s;
     if flag AND VRING_DESC_F_NEXT \<noteq> 0 then free_chain nxt s else Some s
   }"

primrec free_descs :: "nat list \<Rightarrow> 'a vdisk_scheme \<Rightarrow> 'a vdisk_scheme option" where
  "free_descs [] s = Some s"
| "free_descs (i # is) s = do { s \<leftarrow> free_desc i s; free_descs is s }"

text \<open>Three descriptors or none; \<open>k\<close> of them are still to be found.\<close>

primrec alloc_descs :: "nat \<Rightarrow> nat list \<Rightarrow> 'a vdisk_scheme \<Rightarrow> (nat list option \<times> 'a vdisk_scheme) option" where
  "alloc_descs 0 idx s = Some (Some idx, s)"
| "alloc_descs (Suc k) idx s = (case alloc_desc s of
       (Some i, s) \<Rightarrow> alloc_descs k (idx @ [i]) s
     | (None, s) \<Rightarrow> do { s \<leftarrow> free_descs idx s; Some (None, s) })"

definition alloc3_desc :: "'a vdisk_scheme \<Rightarrow> (nat list option \<times> 'a vdisk_scheme) option" where
  "alloc3_desc s = alloc_descs 3 [] s"

section \<open>Requests\<close>

definition format_request :: "nat \<Rightarrow> bool \<Rightarrow> nat \<Rightarrow> nat \<Rightarrow> nat \<Rightarrow> 'a vdisk_scheme \<Rightarrow> 'a vdisk_scheme" where
  "format_request b write i0 i1 i2 s =
     (let sector = ucast (blockno (bufs s b) * of_nat (BSIZE div 512)) :: u64;
          s = s\<lparr>ops := (ops s)(i0 := \<lparr>req_type = (if write then VIRTIO_BLK_T_OUT else VIRTIO_BLK_T_IN),
                                       req_sector = sector\<rparr>)\<rparr>;
          s = s\<lparr>vdesc := (vdesc s)(i0 := \<lparr>daddr = Dma_op i0, dlen = 16, dflags = VRING_DESC_F_NEXT, dnext = of_nat i1\<rparr>)\<rparr>;
          s = s\<lparr>vdesc := (vdesc s)(i1 := \<lparr>daddr = Dma_data b, dlen = of_nat BSIZE,
                 dflags = (if write then 0 else VRING_DESC_F_WRITE) OR VRING_DESC_F_NEXT, dnext = of_nat i2\<rparr>)\<rparr>;
          s = s\<lparr>info_status := (info_status s)(i0 := 0xff)\<rparr>;
          s = s\<lparr>vdesc := (vdesc s)(i2 := \<lparr>daddr = Dma_status i0, dlen = 1, dflags = VRING_DESC_F_WRITE, dnext = 0\<rparr>)\<rparr>;
          s = upd_buf b (\<lambda>x. x\<lparr>bdisk := True\<rparr>) s
      in s\<lparr>info_b := (info_b s)(i0 := Some b)\<rparr>)"

definition submit_request :: "nat \<Rightarrow> 'a vdisk_scheme \<Rightarrow> 'a vdisk_scheme" where
  "submit_request i0 s =
     (let s = s\<lparr>avail_ring := (avail_ring s)(unat (avail_idx s) mod NUM := of_nat i0)\<rparr>;
          s = s\<lparr>avail_idx := avail_idx s + 1\<rparr>
      in mmio_write 0x050 0 s)"

text \<open>Waiting for completion, and what follows it. Blocked, the call keeps its first descriptor; before
  it has descriptors it keeps nothing.\<close>

definition virtio_disk_rw_wait :: "nat \<Rightarrow> nat \<Rightarrow> 'a vdisk_scheme \<Rightarrow>
    ((unit, nat option) outcome \<times> 'a vdisk_scheme) option" where
  "virtio_disk_rw_wait b i0 s =
     (if bdisk (bufs s b)
      then do { (l, s) \<leftarrow> sleep_enter (ChanBuf b) VdiskLock s; Some (Blocked (Some i0) l, s) }
      else do {
        let s = s\<lparr>info_b := (info_b s)(i0 := None)\<rparr>;
        s \<leftarrow> free_chain i0 s;
        s \<leftarrow> release VdiskLock s;
        Some (Return (), s)
      })"

definition virtio_disk_rw_start :: "nat \<Rightarrow> bool \<Rightarrow> 'a vdisk_scheme \<Rightarrow>
    ((unit, nat option) outcome \<times> 'a vdisk_scheme) option" where
  "virtio_disk_rw_start b write s = do {
     (r, s) \<leftarrow> alloc3_desc s;
     case r of
       None \<Rightarrow> do { (l, s) \<leftarrow> sleep_enter ChanDisk VdiskLock s; Some (Blocked None l, s) }
     | Some idx \<Rightarrow> do {
         let s = format_request b write (idx ! 0) (idx ! 1) (idx ! 2) s;
         let s = submit_request (idx ! 0) s;
         virtio_disk_rw_wait b (idx ! 0) s
       }
   }"

definition virtio_disk_rw :: "nat \<Rightarrow> bool \<Rightarrow> 'a vdisk_scheme \<Rightarrow>
    ((unit, nat option) outcome \<times> 'a vdisk_scheme) option" where
  "virtio_disk_rw b write s = do { s \<leftarrow> acquire VdiskLock s; virtio_disk_rw_start b write s }"

definition virtio_disk_rw_resume :: "nat \<Rightarrow> bool \<Rightarrow> nat option \<Rightarrow> nat \<times> bool \<Rightarrow> 'a vdisk_scheme \<Rightarrow>
    ((unit, nat option) outcome \<times> 'a vdisk_scheme) option" where
  "virtio_disk_rw_resume b write loc l s = do {
     s \<leftarrow> sleep_exit l VdiskLock s;
     (case loc of None \<Rightarrow> virtio_disk_rw_start b write s | Some i0 \<Rightarrow> virtio_disk_rw_wait b i0 s)
   }"

partial_function (option) disk_intr_loop :: "'a vdisk_scheme \<Rightarrow> 'a vdisk_scheme option" where
  [code]: "disk_intr_loop s =
     (if used_idx s \<noteq> used_ring_idx s then do {
        let i = unat (used_ring s (unat (used_idx s) mod NUM));
        if info_status s i \<noteq> 0 then None
        else do {
          b \<leftarrow> deref (info_b s i);
          let s = upd_buf b (\<lambda>x. x\<lparr>bdisk := False\<rparr>) s;
          s \<leftarrow> wakeup (Some (ChanBuf b)) s;
          disk_intr_loop (s\<lparr>used_idx := used_idx s + 1\<rparr>)
        }
      } else Some s)"

definition virtio_disk_intr :: "(nat \<Rightarrow> (nat \<times> u32) list \<Rightarrow> u32) \<Rightarrow> 'a vdisk_scheme \<Rightarrow> 'a vdisk_scheme option" where
  "virtio_disk_intr rd s = do {
     s \<leftarrow> acquire VdiskLock s;
     let s = mmio_write 0x064 (rd 0x060 (mmio_log s) AND 3) s;
     s \<leftarrow> disk_intr_loop s;
     release VdiskLock s
   }"

end
