(* ===== verification/Trap.thy ===== *)
theory Trap
  imports Virtio Mlfq
begin

text \<open>
  Traps and system calls: \<^verbatim>\<open>kernel/sysproc.c\<close>, the dispatch of \<^verbatim>\<open>kernel/syscall.c\<close>,
  \<^verbatim>\<open>kernel/trap.c\<close>, \<^verbatim>\<open>kernel/plic.c\<close>, \<open>forkret\<close> of \<^verbatim>\<open>kernel/proc.c\<close> and \<^verbatim>\<open>kernel/main.c\<close>.

  Each hart has its control registers. The interrupt controller is hardware: \<open>plic_irq\<close> is what the
  claim register of a hart holds, \<open>plic_log\<close> the writes to the controller. A system call that would
  wait is \<open>None\<close> in the dispatch; its parts before and after the wait are given separately.
\<close>

section \<open>State\<close>

record csr =
  stvec :: u64
  sepc :: u64
  scause :: u64
  stval :: u64
  spp :: bool
  spie :: bool
  stimecmp :: u64

record system = vdisk +
  csrs :: "nat \<Rightarrow> csr"
  rtime :: u64
  plic_irq :: "nat \<Rightarrow> u32"
  plic_log :: "(u64 \<times> u32) list"
  first :: bool
  started :: bool

definition mycsr :: "'a system_scheme \<Rightarrow> csr" where
  "mycsr s = csrs s (cpuid s)"

definition upd_csr :: "(csr \<Rightarrow> csr) \<Rightarrow> 'a system_scheme \<Rightarrow> 'a system_scheme" where
  "upd_csr f s = s\<lparr>csrs := (csrs s)(cpuid s := f (mycsr s))\<rparr>"

section \<open>Process system calls\<close>

definition sys_exit :: "'a files_scheme \<Rightarrow> (bool \<times> 'a files_scheme) option" where
  "sys_exit s = do { (n, s) \<leftarrow> argint 0 s; kexit n s }"

definition sys_getpid :: "'a ptable_scheme \<Rightarrow> (int \<times> 'a ptable_scheme) option" where
  "sys_getpid s = do { (p, s) \<leftarrow> myproc s; p \<leftarrow> deref p; Some (pid (procs s p), s) }"

definition sys_fork :: "'a files_scheme \<Rightarrow> (int \<times> 'a files_scheme) option" where
  "sys_fork s = kfork s"

definition sys_wait :: "'a ptable_scheme \<Rightarrow> (nat \<times> int resumable \<times> 'a ptable_scheme) option" where
  "sys_wait s = do { (p, s) \<leftarrow> argaddr 0 s; kwait_enter p s }"

definition SBRK_EAGER :: int where "SBRK_EAGER = 1"
definition SBRK_LAZY :: int where "SBRK_LAZY = 2"

definition sys_sbrk :: "'a ptable_scheme \<Rightarrow> (u64 \<times> 'a ptable_scheme) option" where
  "sys_sbrk s = do {
     (n, s) \<leftarrow> argint 0 s;
     (t, s) \<leftarrow> argint 1 s;
     (p, s) \<leftarrow> myproc s;
     p \<leftarrow> deref p;
     let addr = psz (procs s p);
     if t = SBRK_EAGER \<or> n < 0 then do {
       (r, s) \<leftarrow> growproc n s;
       Some (if r < 0 then -1 else addr, s)
     } else if addr + word_of_int n < addr then Some (-1, s)
     else if addr + word_of_int n > TRAPFRAME then Some (-1, s)
     else do {
       (p, s) \<leftarrow> myproc s;
       p \<leftarrow> deref p;
       Some (addr, upd_proc p (\<lambda>q. q\<lparr>psz := psz q + word_of_int n\<rparr>) s)
     }
   }"

text \<open>The loop that \<open>sys_pause\<close> and \<open>sys_sleep\<close> share. Blocked, it keeps the tick count it started at.\<close>

definition sleep_ticks :: "u32 \<Rightarrow> u32 \<Rightarrow> 'a ptable_scheme \<Rightarrow> ((int, u32) outcome \<times> 'a ptable_scheme) option" where
  "sleep_ticks n ticks0 s =
     (if ticks s - ticks0 < n then do {
        (p, s) \<leftarrow> myproc s;
        p \<leftarrow> deref p;
        (k, s) \<leftarrow> killed p s;
        if k then do { s \<leftarrow> release TicksLock s; Some (Return (-1), s) }
        else do { (l, s) \<leftarrow> sleep_enter ChanTicks TicksLock s; Some (Blocked ticks0 l, s) }
      } else do { s \<leftarrow> release TicksLock s; Some (Return 0, s) })"

definition sleep_ticks_resume :: "u32 \<Rightarrow> u32 \<Rightarrow> nat \<times> bool \<Rightarrow> 'a ptable_scheme \<Rightarrow>
    ((int, u32) outcome \<times> 'a ptable_scheme) option" where
  "sleep_ticks_resume n ticks0 l s = do { s \<leftarrow> sleep_exit l TicksLock s; sleep_ticks n ticks0 s }"

definition sys_pause :: "'a ptable_scheme \<Rightarrow> ((int, u32) outcome \<times> 'a ptable_scheme) option" where
  "sys_pause s = do {
     (n, s) \<leftarrow> argint 0 s;
     let n = (if n < 0 then 0 else n);
     s \<leftarrow> acquire TicksLock s;
     sleep_ticks (word_of_int n) (ticks s) s
   }"

definition sys_sleep :: "'a ptable_scheme \<Rightarrow> ((int, u32) outcome \<times> 'a ptable_scheme) option" where
  "sys_sleep s = do {
     (n, s) \<leftarrow> argint 0 s;
     if n < 0 then Some (Return (-1), s)
     else do {
       s \<leftarrow> acquire TicksLock s;
       sleep_ticks (word_of_int n) (ticks s) s
     }
   }"

definition sys_kill :: "'a ptable_scheme \<Rightarrow> (int \<times> 'a ptable_scheme) option" where
  "sys_kill s = do { (pd, s) \<leftarrow> argint 0 s; kkill pd s }"

definition sys_uptime :: "'a ptable_scheme \<Rightarrow> (u32 \<times> 'a ptable_scheme) option" where
  "sys_uptime s = do {
     s \<leftarrow> acquire TicksLock s;
     let xticks = ticks s;
     s \<leftarrow> release TicksLock s;
     Some (xticks, s)
   }"

definition sys_getprocinfo :: "bytes \<Rightarrow> 'a ptable_scheme \<Rightarrow> (int \<times> 'a ptable_scheme) option" where
  "sys_getprocinfo pad s = do {
     (pd, s) \<leftarrow> argint 0 s;
     (addr, s) \<leftarrow> argaddr 1 s;
     getprocinfo pd addr pad s
   }"

section \<open>System call dispatch\<close>

datatype sysno = SYS_fork | SYS_exit | SYS_wait | SYS_pipe | SYS_read | SYS_kill | SYS_exec | SYS_fstat
  | SYS_chdir | SYS_dup | SYS_getpid | SYS_sbrk | SYS_pause | SYS_uptime | SYS_open | SYS_write
  | SYS_mknod | SYS_unlink | SYS_link | SYS_mkdir | SYS_close | SYS_getprocinfo | SYS_sleep

text \<open>The table \<open>syscalls\<close>, from number 1 on.\<close>

definition syscalls :: "sysno list" where
  "syscalls = [SYS_fork, SYS_exit, SYS_wait, SYS_pipe, SYS_read, SYS_kill, SYS_exec, SYS_fstat,
     SYS_chdir, SYS_dup, SYS_getpid, SYS_sbrk, SYS_pause, SYS_uptime, SYS_open, SYS_write,
     SYS_mknod, SYS_unlink, SYS_link, SYS_mkdir, SYS_close, SYS_getprocinfo, SYS_sleep]"

definition word_ret :: "(int \<times> 's) option \<Rightarrow> (u64 \<times> 's) option" where
  "word_ret m = map_option (\<lambda>(r, s). (word_of_int r, s)) m"

text \<open>\<open>pad\<close> is what the kernel stack held where padding is copied to the user. \<open>sys_exit\<close>, which does
  not return, is not among these.\<close>

definition run_syscall :: "bytes \<Rightarrow> sysno \<Rightarrow> 'a files_scheme \<Rightarrow> (u64 \<times> 'a files_scheme) option" where
  "run_syscall pad n s = (case n of
       SYS_fork \<Rightarrow> word_ret (sys_fork s)
     | SYS_exit \<Rightarrow> None
     | SYS_wait \<Rightarrow> do { (p, r, s) \<leftarrow> sys_wait s; (case r of Done v \<Rightarrow> Some (word_of_int v, s) | Asleep _ \<Rightarrow> None) }
     | SYS_pipe \<Rightarrow> word_ret (sys_pipe s)
     | SYS_read \<Rightarrow> word_ret (sys_read s)
     | SYS_kill \<Rightarrow> word_ret (sys_kill s)
     | SYS_exec \<Rightarrow> word_ret (sys_exec s)
     | SYS_fstat \<Rightarrow> word_ret (sys_fstat pad s)
     | SYS_chdir \<Rightarrow> word_ret (sys_chdir s)
     | SYS_dup \<Rightarrow> word_ret (sys_dup s)
     | SYS_getpid \<Rightarrow> word_ret (sys_getpid s)
     | SYS_sbrk \<Rightarrow> sys_sbrk s
     | SYS_pause \<Rightarrow> word_ret (no_wait (sys_pause s))
     | SYS_uptime \<Rightarrow> map_option (\<lambda>(r, s). (ucast r, s)) (sys_uptime s)
     | SYS_open \<Rightarrow> word_ret (sys_open s)
     | SYS_write \<Rightarrow> word_ret (sys_write s)
     | SYS_mknod \<Rightarrow> word_ret (sys_mknod s)
     | SYS_unlink \<Rightarrow> word_ret (sys_unlink s)
     | SYS_link \<Rightarrow> word_ret (sys_link s)
     | SYS_mkdir \<Rightarrow> word_ret (sys_mkdir s)
     | SYS_close \<Rightarrow> word_ret (sys_close s)
     | SYS_getprocinfo \<Rightarrow> word_ret (sys_getprocinfo pad s)
     | SYS_sleep \<Rightarrow> word_ret (no_wait (sys_sleep s)))"

text \<open>Whether the call returned; after \<open>exit\<close> the hart is in the scheduler.\<close>

definition syscall :: "bytes \<Rightarrow> 'a files_scheme \<Rightarrow> (bool \<times> 'a files_scheme) option" where
  "syscall pad s = do {
     (p, s) \<leftarrow> myproc s;
     p \<leftarrow> deref p;
     let num = sint (ucast (tf_get p (Areg 7) s) :: u32);
     if 0 < num \<and> num \<le> int (length syscalls) then
       if syscalls ! nat (num - 1) = SYS_exit then do { (_, s) \<leftarrow> sys_exit s; Some (False, s) }
       else do {
         (r, s) \<leftarrow> run_syscall pad (syscalls ! nat (num - 1)) s;
         Some (True, tf_set p (Areg 0) r s)
       }
     else do {
       s \<leftarrow> printf (str ''%d %s: unknown sys call %d'' @ [10])
              [Word (word_of_int (pid (procs s p))), Str (Some (cstring (pname (procs s p)))), Word (word_of_int num)] s;
       Some (True, tf_set p (Areg 0) (-1) s)
     }
   }"

section \<open>Interrupts\<close>

definition UART0_IRQ :: u32 where "UART0_IRQ = 10"
definition VIRTIO0_IRQ :: u32 where "VIRTIO0_IRQ = 1"

definition plic_write :: "u64 \<Rightarrow> u32 \<Rightarrow> 'a system_scheme \<Rightarrow> 'a system_scheme" where
  "plic_write a v s = s\<lparr>plic_log := plic_log s @ [(a, v)]\<rparr>"

definition plicinit :: "'a system_scheme \<Rightarrow> 'a system_scheme" where
  "plicinit s = plic_write (PLIC + ucast VIRTIO0_IRQ * 4) 1 (plic_write (PLIC + ucast UART0_IRQ * 4) 1 s)"

definition PLIC_SENABLE :: "nat \<Rightarrow> u64" where "PLIC_SENABLE h = PLIC + 0x2080 + of_nat h * 0x100"
definition PLIC_SPRIORITY :: "nat \<Rightarrow> u64" where "PLIC_SPRIORITY h = PLIC + 0x201000 + of_nat h * 0x2000"
definition PLIC_SCLAIM :: "nat \<Rightarrow> u64" where "PLIC_SCLAIM h = PLIC + 0x201004 + of_nat h * 0x2000"

definition plicinithart :: "'a system_scheme \<Rightarrow> 'a system_scheme" where
  "plicinithart s =
     (let h = cpuid s
      in plic_write (PLIC_SPRIORITY h) 0 (plic_write (PLIC_SENABLE h) (push_bit 10 1 OR push_bit 1 1) s))"

definition plic_claim :: "'a system_scheme \<Rightarrow> u32 \<times> 'a system_scheme" where
  "plic_claim s = (plic_irq s (cpuid s), s\<lparr>plic_irq := (plic_irq s)(cpuid s := 0)\<rparr>)"

definition plic_complete :: "u32 \<Rightarrow> 'a system_scheme \<Rightarrow> 'a system_scheme" where
  "plic_complete irq s = plic_write (PLIC_SCLAIM (cpuid s)) irq s"

definition trapinit :: "'a machine_scheme \<Rightarrow> 'a machine_scheme" where
  "trapinit s = initlock TicksLock ''time'' s"

definition trapinithart :: "'a system_scheme \<Rightarrow> 'a system_scheme" where
  "trapinithart s = upd_csr (\<lambda>c. c\<lparr>stvec := kernelvec s\<rparr>) s"

text \<open>\<open>clockintr\<close> with its last line, which asks for the next interrupt.\<close>

definition clockintr_next :: "'a system_scheme \<Rightarrow> 'a system_scheme option" where
  "clockintr_next s = do {
     s \<leftarrow> clockintr s;
     Some (upd_csr (\<lambda>c. c\<lparr>stimecmp := rtime s + 1000000\<rparr>) s)
   }"

definition devintr :: "(nat \<Rightarrow> (nat \<times> u32) list \<Rightarrow> u32) \<Rightarrow> 'a system_scheme \<Rightarrow> (int \<times> 'a system_scheme) option" where
  "devintr rd s =
     (let cause = scause (mycsr s) in
      if cause = 0x8000000000000009 then do {
        let (irq, s) = plic_claim s;
        s \<leftarrow> (if irq = UART0_IRQ then uartintr s
              else if irq = VIRTIO0_IRQ then virtio_disk_intr rd s
              else if irq \<noteq> 0 then printf (str ''unexpected interrupt irq=%d'' @ [10]) [Word (ucast irq)] s
              else Some s);
        Some (1, if irq \<noteq> 0 then plic_complete irq s else s)
      } else if cause = 0x8000000000000005 then do { s \<leftarrow> clockintr_next s; Some (2, s) }
      else Some (0, s))"

section \<open>Traps\<close>

definition prepare_return :: "'a system_scheme \<Rightarrow> 'a system_scheme option" where
  "prepare_return s = do {
     (p, s) \<leftarrow> myproc s;
     p \<leftarrow> deref p;
     let s = intr_off s;
     let s = upd_csr (\<lambda>c. c\<lparr>stvec := TRAMPOLINE + (uservec s - trampoline s)\<rparr>) s;
     let s = tf_set p Kernel_satp (satp s (cpuid s)) s;
     let s = tf_set p Kernel_sp (kstack (procs s p) + PGSIZE) s;
     let s = tf_set p Kernel_trap (usertrap_addr s) s;
     let s = tf_set p Kernel_hartid (of_nat (cpuid s)) s;
     let s = upd_csr (\<lambda>c. c\<lparr>spp := False, spie := True\<rparr>) s;
     Some (upd_csr (\<lambda>c. c\<lparr>sepc := tf_get p Epc s\<rparr>) s)
   }"

text \<open>How a trap from user space ends: back to user space with this page table, in the scheduler
  after \<open>kexit\<close>, or in the scheduler from \<open>yield\<close>, to go on with \<open>usertrap_exit\<close>.\<close>

datatype trap_end = User u64 | Exited | Yielded_at "nat \<times> bool"

definition usertrap_exit :: "nat \<Rightarrow> 'a system_scheme \<Rightarrow> (trap_end \<times> 'a system_scheme) option" where
  "usertrap_exit p s = do { s \<leftarrow> prepare_return s; Some (User (MAKE_SATP (pagetable (procs s p))), s) }"

definition usertrap_resume :: "nat \<times> bool \<Rightarrow> 'a system_scheme \<Rightarrow> (trap_end \<times> 'a system_scheme) option" where
  "usertrap_resume l s = do { s \<leftarrow> yield_exit l s; usertrap_exit (fst l) s }"

definition usertrap_finish :: "nat \<Rightarrow> int \<Rightarrow> 'a system_scheme \<Rightarrow> (trap_end \<times> 'a system_scheme) option" where
  "usertrap_finish p which_dev s = do {
     (k, s) \<leftarrow> killed p s;
     if k then do { (_, s) \<leftarrow> kexit (-1) s; Some (Exited, s) }
     else if which_dev = 2 then do { (l, s) \<leftarrow> yield_enter s; Some (Yielded_at l, s) }
     else usertrap_exit p s
   }"

definition usertrap_fault :: "nat \<Rightarrow> 'a system_scheme \<Rightarrow> 'a system_scheme option" where
  "usertrap_fault p s = do {
     s \<leftarrow> printf (str ''usertrap(): unexpected scause 0x%lx pid=%d'' @ [10])
            [Word (scause (mycsr s)), Word (word_of_int (pid (procs s p)))] s;
     s \<leftarrow> printf (str ''            sepc=0x%lx stval=0x%lx'' @ [10]) [Word (sepc (mycsr s)), Word (stval (mycsr s))] s;
     setkilled p s
   }"

definition usertrap :: "(nat \<Rightarrow> (nat \<times> u32) list \<Rightarrow> u32) \<Rightarrow> bytes \<Rightarrow> 'a system_scheme \<Rightarrow>
    (trap_end \<times> 'a system_scheme) option" where
  "usertrap rd pad s =
     (if spp (mycsr s) then None
      else do {
        let s = upd_csr (\<lambda>c. c\<lparr>stvec := kernelvec s\<rparr>) s;
        (p, s) \<leftarrow> myproc s;
        p \<leftarrow> deref p;
        let s = tf_set p Epc (sepc (mycsr s)) s;
        if scause (mycsr s) = 8 then do {
          (k, s) \<leftarrow> killed p s;
          if k then do { (_, s) \<leftarrow> kexit (-1) s; Some (Exited, s) }
          else do {
            let s = tf_set p Epc (tf_get p Epc s + 4) s;
            let s = intr_on s;
            (ret, s) \<leftarrow> syscall pad s;
            if ret then usertrap_finish p 0 s else Some (Exited, s)
          }
        } else do {
          (which_dev, s) \<leftarrow> devintr rd s;
          if which_dev \<noteq> 0 then usertrap_finish p which_dev s
          else do {
            (pa, s) \<leftarrow> (if scause (mycsr s) = 15 \<or> scause (mycsr s) = 13
                        then vmfault (pagetable (procs s p)) (stval (mycsr s)) (scause (mycsr s) = 13) s
                        else Some (0, s));
            s \<leftarrow> (if pa \<noteq> 0 then Some s else usertrap_fault p s);
            usertrap_finish p 0 s
          }
        }
      })"

text \<open>\<open>kerneltrap\<close>, up to \<open>yield\<close> when the interrupt was the timer's and a process is running; the saved
  registers are put back at the end. Interrupts are off when it is entered, so the \<open>sstatus\<close> it puts
  back has them off.\<close>

definition kerneltrap_exit :: "csr \<Rightarrow> 'a system_scheme \<Rightarrow> 'a system_scheme" where
  "kerneltrap_exit old s = intr_off (upd_csr (\<lambda>c. c\<lparr>sepc := sepc old, spp := spp old, spie := spie old\<rparr>) s)"

definition kerneltrap :: "(nat \<Rightarrow> (nat \<times> u32) list \<Rightarrow> u32) \<Rightarrow> 'a system_scheme \<Rightarrow>
    ((nat \<times> bool) option \<times> 'a system_scheme) option" where
  "kerneltrap rd s =
     (let old = mycsr s in
      if \<not> spp old then None
      else if intr_get s then None
      else do {
        (which_dev, s) \<leftarrow> devintr rd s;
        if which_dev = 0 then None
        else do {
          (p, s) \<leftarrow> (if which_dev = 2 then myproc s else Some (None, s));
          case p of
            None \<Rightarrow> Some (None, kerneltrap_exit old s)
          | Some _ \<Rightarrow> do { (l, s) \<leftarrow> yield_enter s; Some (Some l, s) }
        }
      })"

definition kerneltrap_resume :: "csr \<Rightarrow> nat \<times> bool \<Rightarrow> 'a system_scheme \<Rightarrow> 'a system_scheme option" where
  "kerneltrap_resume old l s = do { s \<leftarrow> yield_exit l s; Some (kerneltrap_exit old s) }"

section \<open>The first process, and boot\<close>

definition init_path :: bytes where
  "init_path = str ''/init''"

definition forkret :: "'a system_scheme \<Rightarrow> (u64 \<times> u64 \<times> 'a system_scheme) option" where
  "forkret s = do {
     (p, s) \<leftarrow> myproc s;
     p \<leftarrow> deref p;
     s \<leftarrow> release (ProcLock p) s;
     s \<leftarrow> (if first s then do {
             s \<leftarrow> fsinit ROOTDEV s;
             let s = s\<lparr>first := False\<rparr>;
             (r, s) \<leftarrow> kexec init_path [init_path] s;
             let s = tf_set p (Areg 0) (word_of_int r) s;
             if tf_get p (Areg 0) s = -1 then None else Some s
           } else Some s);
     s \<leftarrow> prepare_return s;
     Some (TRAMPOLINE + (userret s - trampoline s), MAKE_SATP (pagetable (procs s p)), s)
   }"

text \<open>\<open>main\<close> up to the call of \<open>scheduler\<close>, on hart 0 and on the others. A hart that finds \<open>started\<close>
  clear spins.\<close>

definition main_boot :: "(nat \<Rightarrow> (nat \<times> u32) list \<Rightarrow> u32) \<Rightarrow> 'a system_scheme \<Rightarrow> 'a system_scheme option" where
  "main_boot rd s = do {
     let s = consoleinit s;
     let s = printfinit s;
     s \<leftarrow> printf [10] [] s;
     s \<leftarrow> printf (str ''xv6 kernel is booting'' @ [10]) [] s;
     s \<leftarrow> printf [10] [] s;
     s \<leftarrow> kinit s;
     s \<leftarrow> kvminit s;
     let s = kvminithart s;
     let s = procinit s;
     let s = trapinit s;
     let s = trapinithart s;
     let s = plicinit s;
     let s = plicinithart s;
     let s = binit s;
     let s = iinit s;
     let s = fileinit s;
     s \<leftarrow> virtio_disk_init rd s;
     s \<leftarrow> userinit s;
     Some (s\<lparr>started := True\<rparr>)
   }"

definition main_other :: "'a system_scheme \<Rightarrow> 'a system_scheme option" where
  "main_other s =
     (if \<not> started s then None
      else do {
        s \<leftarrow> printf (str ''hart %d starting'' @ [10]) [Word (of_nat (cpuid s))] s;
        let s = kvminithart s;
        let s = trapinithart s;
        Some (plicinithart s)
      })"

definition main :: "(nat \<Rightarrow> (nat \<times> u32) list \<Rightarrow> u32) \<Rightarrow> 'a system_scheme \<Rightarrow> 'a system_scheme option" where
  "main rd s = (if cpuid s = 0 then main_boot rd s else main_other s)"

end
