(* ===== verification/Start.thy ===== *)
theory Start
  imports Prelude
begin

text \<open>
  Machine-mode start-up of a hart: \<^verbatim>\<open>kernel/start.c\<close>, with the registers \<^verbatim>\<open>kernel/riscv.h\<close>
  gives access to. \<open>mret\<close> at the end of \<open>start\<close> goes to \<open>mepc\<close> in the mode \<open>MPP\<close> says.
\<close>

section \<open>Definitions\<close>

definition MSTATUS_MPP_MASK :: u64 where "MSTATUS_MPP_MASK = push_bit 11 3"
definition MSTATUS_MPP_S :: u64 where "MSTATUS_MPP_S = push_bit 11 1"
definition SIE_SEIE :: u64 where "SIE_SEIE = push_bit 9 1"
definition SIE_STIE :: u64 where "SIE_STIE = push_bit 5 1"
definition MIE_STIE :: u64 where "MIE_STIE = push_bit 5 1"

record mregs =
  mhartid :: u64
  mstatus :: u64
  mepc :: u64
  m_satp :: u64
  medeleg :: u64
  mideleg :: u64
  sie_reg :: u64
  pmpaddr0 :: u64
  pmpcfg0 :: u64
  mie :: u64
  menvcfg :: u64
  mcounteren :: u64
  m_stimecmp :: u64
  mtime :: u64
  tp :: u64

definition timerinit :: "mregs \<Rightarrow> mregs" where
  "timerinit m =
     (let m = m\<lparr>mie := mie m OR MIE_STIE\<rparr>;
          m = m\<lparr>menvcfg := menvcfg m OR push_bit 63 1\<rparr>;
          m = m\<lparr>mcounteren := mcounteren m OR 2\<rparr>
      in m\<lparr>m_stimecmp := mtime m + 1000000\<rparr>)"

definition start :: "u64 \<Rightarrow> mregs \<Rightarrow> mregs" where
  "start main_addr m =
     (let x = mstatus m;
          x = x AND NOT MSTATUS_MPP_MASK;
          x = x OR MSTATUS_MPP_S;
          m = m\<lparr>mstatus := x\<rparr>;
          m = m\<lparr>mepc := main_addr\<rparr>;
          m = m\<lparr>m_satp := 0\<rparr>;
          m = m\<lparr>medeleg := 0xffff\<rparr>;
          m = m\<lparr>mideleg := 0xffff\<rparr>;
          m = m\<lparr>sie_reg := sie_reg m OR SIE_SEIE OR SIE_STIE\<rparr>;
          m = m\<lparr>pmpaddr0 := 0x3fffffffffffff\<rparr>;
          m = m\<lparr>pmpcfg0 := 0xf\<rparr>;
          m = timerinit m
      in m\<lparr>tp := scast (ucast (mhartid m) :: u32)\<rparr>)"

section \<open>What a hart starts with\<close>


end
