(* ===== verification/Calm.thy ===== *)
theory Calm
  imports Proc
begin

text \<open>
  Total correctness of kernel code that meets no contention: the locks it takes are free, so it
  returns. \<open>runs m Q\<close> says that a call returns and its result satisfies \<open>Q\<close>; \<open>calm me A s\<close> that the
  hart runs process \<open>me\<close>, holds exactly the locks \<open>A\<close> and that every other lock is free; \<open>quiet me s t\<close>
  that \<open>t\<close> differs from \<open>s\<close> only in the bookkeeping of harts and locks and in which sleeping
  processes have been woken.
\<close>

section \<open>Calls that return\<close>

definition runs :: "'r option \<Rightarrow> ('r \<Rightarrow> bool) \<Rightarrow> bool" where
  "runs m Q \<longleftrightarrow> (\<exists>r. m = Some r \<and> Q r)"

named_theorems tot \<open>rules for calls that return\<close>

lemma runs_Some [tot]: "Q r \<Longrightarrow> runs (Some r) Q"
  by (simp add: runs_def)

lemma runs_bind: "runs m P \<Longrightarrow> (\<And>r. P r \<Longrightarrow> runs (f r) Q) \<Longrightarrow> runs (m \<bind> f) Q"
  by (auto simp: runs_def)

lemma runs_bind2:
  "runs m (\<lambda>(a, b). P a b) \<Longrightarrow> (\<And>a b. P a b \<Longrightarrow> runs (f a b) Q) \<Longrightarrow> runs (m \<bind> (\<lambda>(a, b). f a b)) Q"
  by (auto simp: runs_def)

lemma runs_mono: "runs m P \<Longrightarrow> (\<And>r. P r \<Longrightarrow> Q r) \<Longrightarrow> runs m Q"
  by (auto simp: runs_def)

lemma runs_let [tot]: "runs (f a) Q \<Longrightarrow> runs (let x = a in f x) Q"
  by simp

lemma runs_if [tot]: "(b \<Longrightarrow> runs m Q) \<Longrightarrow> (\<not> b \<Longrightarrow> runs n Q) \<Longrightarrow> runs (if b then m else n) Q"
  by simp

lemma runsE: "runs m Q \<Longrightarrow> (\<And>r. m = Some r \<Longrightarrow> Q r \<Longrightarrow> thesis) \<Longrightarrow> thesis"
  by (auto simp: runs_def)

lemma runs_eq: "m = Some r \<Longrightarrow> Q r \<Longrightarrow> runs m Q"
  by (simp add: runs_def)

section \<open>No contention\<close>

definition calm :: "nat \<Rightarrow> lockid set \<Rightarrow> 'a machine_scheme \<Rightarrow> bool" where
  "calm me A s \<longleftrightarrow> finite A \<and> cproc (cpus s (hart s)) = Some me \<and>
     noff (cpus s (hart s)) = int (card A) \<and> (A \<noteq> {} \<longrightarrow> \<not> sie (cpus s (hart s))) \<and>
     (\<forall>l. if l \<in> A then locked (locks s l) \<and> lcpu (locks s l) = Some (hart s) else free_lock (locks s l))"

definition same_procs :: "nat \<Rightarrow> (nat \<Rightarrow> proc) \<Rightarrow> (nat \<Rightarrow> proc) \<Rightarrow> bool" where
  "same_procs me f g \<longleftrightarrow> g me = f me \<and> (\<forall>q. g q = (f q)\<lparr>pstate := pstate (g q)\<rparr>)"

definition quiet :: "nat \<Rightarrow> 'a ptable_scheme \<Rightarrow> 'a ptable_scheme \<Rightarrow> bool" where
  "quiet me s t \<longleftrightarrow> (\<exists>c l p. t = s\<lparr>cpus := c, locks := l, procs := p\<rparr>) \<and> same_procs me (procs s) (procs t)"

lemma same_procs_refl [simp]: "same_procs me f f"
  by (simp add: same_procs_def)

lemma same_procs_trans: "same_procs me f g \<Longrightarrow> same_procs me g h \<Longrightarrow> same_procs me f h"
proof -
  assume a: "same_procs me f g" "same_procs me g h"
  have "h q = (f q)\<lparr>pstate := pstate (h q)\<rparr>" for q
  proof -
    have g: "g q = (f q)\<lparr>pstate := pstate (g q)\<rparr>" and h: "h q = (g q)\<lparr>pstate := pstate (h q)\<rparr>"
      using a unfolding same_procs_def by blast+
    show ?thesis by (subst h, subst g) simp
  qed
  with a show ?thesis unfolding same_procs_def by simp
qed

lemma calm_free: "calm me A s \<Longrightarrow> l \<notin> A \<Longrightarrow> free_lock (locks s l)"
  by (auto simp: calm_def split: if_splits)

lemma calm_intr_ok: "calm me A s \<Longrightarrow> intr_ok s"
  by (auto simp: calm_def cpu_ok_def card_gt_0_iff)

lemma calm_cproc: "calm me A s \<Longrightarrow> cproc (cpus s (hart s)) = Some me"
  by (simp add: calm_def)

lemma calm_cong:
  "calm me A s \<Longrightarrow> hart t = hart s \<Longrightarrow> cpus t = cpus s \<Longrightarrow> locks t = locks s \<Longrightarrow> calm me A t"
  by (simp add: calm_def)

lemma quiet_refl [simp]: "quiet me s s"
  unfolding quiet_def by (intro conjI exI [of _ "cpus s"] exI [of _ "locks s"] exI [of _ "procs s"]) simp_all

lemma quiet_trans [trans]: "quiet me s t \<Longrightarrow> quiet me t u \<Longrightarrow> quiet me s u"
proof -
  assume a: "quiet me s t" "quiet me t u"
  then obtain c l p c' l' p' where "t = s\<lparr>cpus := c, locks := l, procs := p\<rparr>"
    "u = t\<lparr>cpus := c', locks := l', procs := p'\<rparr>" by (auto simp: quiet_def)
  then have "u = s\<lparr>cpus := c', locks := l', procs := p'\<rparr>" by simp
  with a show ?thesis unfolding quiet_def by (blast intro: same_procs_trans)
qed

lemma quiet_locks: "quiet me s (s\<lparr>cpus := c, locks := l\<rparr>)"
  unfolding quiet_def by (intro conjI exI [of _ c] exI [of _ l] exI [of _ "procs s"]) simp_all

lemma quiet_cpus: "quiet me s (s\<lparr>cpus := c\<rparr>)"
  unfolding quiet_def by (intro conjI exI [of _ c] exI [of _ "locks s"] exI [of _ "procs s"]) simp_all

lemma quiet_sel:
  assumes "quiet me s t"
  shows "hart t = hart s" "mem t = mem s" "kend t = kend s" "freelist t = freelist s"
    "nextpid t = nextpid s" "initproc t = initproc s" "ticks t = ticks s"
    "starvation_counter t = starvation_counter s" "procs t me = procs s me"
    "pagetable (procs t q) = pagetable (procs s q)" "pid (procs t q) = pid (procs s q)"
    "ofile (procs t q) = ofile (procs s q)" "cwd (procs t q) = cwd (procs s q)"
    "kernel_pagetable t = kernel_pagetable s"
proof -
  have q: "procs t q = (procs s q)\<lparr>pstate := pstate (procs t q)\<rparr>" using assms unfolding quiet_def same_procs_def by blast
  show "pagetable (procs t q) = pagetable (procs s q)" "pid (procs t q) = pid (procs s q)"
    "ofile (procs t q) = ofile (procs s q)" "cwd (procs t q) = cwd (procs s q)"
    by (subst q, simp)+
qed (use assms in \<open>auto simp: quiet_def same_procs_def\<close>)

section \<open>Locks\<close>

lemma calm_acquire:
  assumes c: "calm me A s" and l: "l \<notin> A"
  shows "runs (acquire l s) (\<lambda>t. calm me (insert l A) t \<and> quiet me s t)"
proof (rule runs_eq)
  show "acquire l s = Some (s\<lparr>cpus := pushed (hart s) (cpus s), locks := taken (hart s) l (locks s)\<rparr>)"
    using calm_free [OF c l] by (simp add: acquire_free free_lock_def)
  show "calm me (insert l A) (s\<lparr>cpus := pushed (hart s) (cpus s), locks := taken (hart s) l (locks s)\<rparr>) \<and>
      quiet me s (s\<lparr>cpus := pushed (hart s) (cpus s), locks := taken (hart s) l (locks s)\<rparr>)"
    using c l by (auto simp: calm_def quiet_locks pushed_def taken_def)
qed

lemma calm_release:
  assumes c: "calm me A s" and l: "l \<in> A"
  shows "runs (release l s) (\<lambda>t. calm me (A - {l}) t \<and> quiet me s t)"
proof (rule runs_eq)
  have k: "int (card A) = int (card (A - {l})) + 1" 
    using card_Suc_Diff1 [OF _ l] c by (simp add: calm_def)
  then have n: "1 \<le> noff (cpus s (hart s))" using c by (simp add: calm_def)
  have h: "locked (locks s l)" "lcpu (locks s l) = Some (hart s)" "\<not> sie (cpus s (hart s))"
    using c l by (auto simp: calm_def split: if_splits)
  show "release l s = Some (s\<lparr>cpus := (cpus s)(hart s := popped (cpus s (hart s))), locks := dropped l (locks s)\<rparr>)"
    (is "_ = Some ?t") by (rule release_held [OF h(1,2) n h(3)])
  have "card (A - {l}) = 0 \<or> noff (cpus s (hart s)) \<noteq> 1" using c k by (simp add: calm_def)
  then have e: "A - {l} = {} \<or> noff (cpus s (hart s)) \<noteq> 1" using c by (simp add: calm_def card_eq_0_iff)
  have "calm me (A - {l}) ?t"
    unfolding calm_def
  proof (intro conjI allI)
    show "finite (A - {l})" "cproc (cpus ?t (hart ?t)) = Some me"
      using c by (simp_all add: calm_def popped_def)
    show "noff (cpus ?t (hart ?t)) = int (card (A - {l}))"
      using c k by (simp add: calm_def popped_def)
    show "A - {l} \<noteq> {} \<longrightarrow> \<not> sie (cpus ?t (hart ?t))"
      using e h(3) by (auto simp: popped_def)
    show "if x \<in> A - {l} then locked (locks ?t x) \<and> lcpu (locks ?t x) = Some (hart ?t) else free_lock (locks ?t x)" for x
      using c by (cases "x = l", simp add: dropped_def free_lock_def) (simp add: calm_def dropped_def)
  qed
  then show "calm me (A - {l}) ?t \<and> quiet me s ?t" by (simp add: quiet_locks)
qed

lemma calm_settled: "calm me A s \<Longrightarrow> calm me A (s\<lparr>cpus := settled s\<rparr>)"
  by (simp add: calm_def)

lemma calm_myproc:
  assumes "calm me A s"
  shows "runs (myproc s) (\<lambda>(p, t). p = Some me \<and> calm me A t \<and> quiet me s t)"
  using assms calm_cproc [OF assms]
  by (intro runs_eq [OF myproc_eq [OF calm_intr_ok [OF assms]]]) (simp add: calm_settled quiet_cpus)

lemma calm_wakeup:
  assumes c: "calm me A s" and p: "\<And>p. ProcLock p \<in> A \<Longrightarrow> p = me"
  shows "runs (wakeup ch s) (\<lambda>t. calm me A t \<and> quiet me s t)"
proof (rule runs_eq)
  have "\<forall>p<NPROC. Some p \<noteq> cproc (cpus s (hart s)) \<longrightarrow> free_lock (locks s (ProcLock p))"
    using calm_free [OF c] p calm_cproc [OF c] by force
  from wakeup_eq [OF this calm_intr_ok [OF c]]
  show "wakeup ch s = Some (s\<lparr>cpus := settled s, procs := wake_all ch (Some me) [0..<NPROC] (procs s)\<rparr>)"
    (is "_ = Some ?t") unfolding calm_cproc [OF c] .
  have "quiet me s ?t"
    unfolding quiet_def
    by (intro conjI exI [of _ "settled s"] exI [of _ "locks s"] exI [of _ "wake_all ch (Some me) [0..<NPROC] (procs s)"])
      (auto simp: same_procs_def wake_all_def woken_def)
  moreover have "calm me A ?t" using c by (simp add: calm_def)
  ultimately show "calm me A ?t \<and> quiet me s ?t" by simp
qed

lemma calm_killed:
  assumes c: "calm me A s" and p: "ProcLock p \<notin> A"
  shows "runs (killed p s) (\<lambda>(k, t). k = pkilled (procs s p) \<and> calm me A t \<and> quiet me s t)"
  by (rule runs_eq [OF killed_eq [OF calm_free [OF c p] calm_intr_ok [OF c]]])
    (use c in \<open>simp add: calm_settled quiet_cpus\<close>)

text \<open>In a sequence, and at the end of a body.\<close>

lemmas calm_rules [tot] =
  calm_acquire [THEN runs_bind] calm_release [THEN runs_bind] calm_wakeup [THEN runs_bind]
  calm_myproc [THEN runs_bind2] calm_killed [THEN runs_bind2]
  calm_acquire [THEN runs_mono] calm_release [THEN runs_mono] calm_wakeup [THEN runs_mono]

section \<open>What lock operations leave alone\<close>

lemma acquire_only:
  fixes s :: "'a ptable_scheme"
  assumes "calm me A s" and "l \<notin> A"
  shows "\<exists>t. acquire l s = Some t \<and> calm me (insert l A) t \<and> t = s\<lparr>cpus := cpus t, locks := locks t\<rparr>"
proof -
  have "acquire l s = Some (s\<lparr>cpus := pushed (hart s) (cpus s), locks := taken (hart s) l (locks s)\<rparr>)"
    using calm_free [OF assms] by (simp add: acquire_free free_lock_def)
  with calm_acquire [OF assms] show ?thesis by (auto simp: runs_def)
qed

lemma release_only:
  fixes s :: "'a ptable_scheme"
  assumes "calm me A s" and "l \<in> A"
  shows "\<exists>t. release l s = Some t \<and> calm me (A - {l}) t \<and> t = s\<lparr>cpus := cpus t, locks := locks t\<rparr>"
proof -
  obtain t where t: "release l s = Some t" "calm me (A - {l}) t" using calm_release [OF assms] by (auto elim!: runsE)
  then show ?thesis by (auto simp: release_def pop_off_def cpu_defs Let_def split: if_splits)
qed

lemma wakeup_only:
  assumes c: "calm me A s" and p: "\<And>p. ProcLock p \<in> A \<Longrightarrow> p = me"
  shows "wakeup ch s = Some (s\<lparr>cpus := settled s, procs := wake_all ch (Some me) [0..<NPROC] (procs s)\<rparr>)"
proof -
  have "\<forall>p<NPROC. Some p \<noteq> cproc (cpus s (hart s)) \<longrightarrow> free_lock (locks s (ProcLock p))"
    using calm_free [OF c] p calm_cproc [OF c] by force
  from wakeup_eq [OF this calm_intr_ok [OF c]] show ?thesis unfolding calm_cproc [OF c] .
qed

text \<open>No process other than \<open>me\<close> is left waiting on a channel.\<close>

definition all_woken :: "nat \<Rightarrow> chan \<Rightarrow> 'a ptable_scheme \<Rightarrow> bool" where
  "all_woken me ch s \<longleftrightarrow> (\<forall>q<NPROC. q \<noteq> me \<longrightarrow> \<not> (pstate (procs s q) = SLEEPING \<and> pchan (procs s q) = Some ch))"

lemma all_woken_wake_all: "procs t = wake_all (Some ch) (Some me) [0..<NPROC] f \<Longrightarrow> all_woken me ch t"
  by (simp add: all_woken_def wake_all_def woken_def)

text \<open>Going to sleep: the process has left the caller's lock and holds its own, for the scheduler to release.\<close>

definition asleep_on :: "nat \<Rightarrow> chan \<Rightarrow> 'a ptable_scheme \<Rightarrow> bool" where
  "asleep_on me ch s \<longleftrightarrow> calm me {ProcLock me} s \<and> pstate (procs s me) = SLEEPING \<and> pchan (procs s me) = Some ch"

lemma sleep_enter_runs:
  fixes s :: "'a ptable_scheme"
  assumes c: "calm me {lk} s" and lk: "lk \<noteq> ProcLock me"
  shows "\<exists>l t. sleep_enter ch lk s = Some (l, t) \<and> asleep_on me ch t \<and> fst l = me \<and>
    t = s\<lparr>cpus := cpus t, locks := locks t, procs := (procs s)(me := (procs s me)\<lparr>pchan := Some ch, pstate := SLEEPING\<rparr>)\<rparr>"
proof -
  let ?a = "s\<lparr>cpus := settled s\<rparr>"
  have m: "myproc s = Some (Some me, ?a)" using myproc_eq [OF calm_intr_ok [OF c]] calm_cproc [OF c] by simp
  obtain b where b: "acquire (ProcLock me) ?a = Some b" "calm me {ProcLock me, lk} b" "b = ?a\<lparr>cpus := cpus b, locks := locks b\<rparr>"
    using acquire_only [OF calm_settled [OF c], of "ProcLock me"] lk by auto
  have "{ProcLock me, lk} - {lk} = {ProcLock me}" using lk by auto
  then obtain d where d: "release lk b = Some d" "calm me {ProcLock me} d" "d = b\<lparr>cpus := cpus d, locks := locks d\<rparr>"
    using release_only [OF b(2), of lk] by auto
  have p: "procs d = procs s" by (subst d(3), subst b(3)) simp
  let ?t = "upd_proc me (\<lambda>q. q\<lparr>pchan := Some ch, pstate := SLEEPING\<rparr>) d"
  have ct: "calm me {ProcLock me} ?t" using d(2) by (simp add: calm_def)
  have h: "holding (ProcLock me) ?t" "noff (cpus ?t (hart ?t)) = 1"
    using ct by (auto simp: calm_def holding_def cpuid_def split: if_splits)
  have "sched_enter ?t = Some (intena (cpus ?t (hart ?t)), ?t)"
    by (rule sched_enter_eq [OF calm_cproc [OF ct] h _ calm_intr_ok [OF ct]]) simp
  then have "sleep_enter ch lk s = Some ((me, intena (cpus ?t (hart ?t))), ?t)" using m b(1) d(1) by (simp add: sleep_enter_def)
  moreover have "asleep_on me ch ?t" using ct by (simp add: asleep_on_def)
  moreover have "?t = s\<lparr>cpus := cpus ?t, locks := locks ?t, procs := (procs s)(me := (procs s me)\<lparr>pchan := Some ch, pstate := SLEEPING\<rparr>)\<rparr>"
    unfolding upd_proc_def p by (subst d(3), subst b(3)) simp
  ultimately show ?thesis by (intro exI conjI) (assumption | simp only: fst_conv)+
qed

end
