(* ===== verification/Bcache.thy ===== *)
theory Bcache
  imports Bio Calm
begin

text \<open>
  The contract of the buffer cache for a process that meets no contention. \<open>ring\<close> says that the
  \<open>prev\<close> and \<open>next\<close> fields form the doubly linked list of all buffers; \<open>binv me H D s\<close> is the
  invariant of the cache while \<open>me\<close> holds the buffers \<open>H\<close> and the log has pinned the blocks \<open>D\<close>;
  \<open>blk s\<close> is what the file system sees: the cached data of a block, or the disk's.
\<close>

section \<open>The list of buffers\<close>

primrec links :: "(nat \<Rightarrow> buf) \<Rightarrow> nat \<Rightarrow> nat list \<Rightarrow> bool" where
  "links bs a [] \<longleftrightarrow> True"
| "links bs a (b # ys) \<longleftrightarrow> bnext (bs a) = b \<and> bprev (bs b) = a \<and> links bs b ys"

definition ring :: "(nat \<Rightarrow> buf) \<Rightarrow> nat list \<Rightarrow> bool" where
  "ring bs xs \<longleftrightarrow> distinct xs \<and> bhead \<notin> set xs \<and> links bs bhead (xs @ [bhead])"

lemma links_append: "links bs a (ys @ b # zs) \<longleftrightarrow> links bs a (ys @ [b]) \<and> links bs b zs"
  by (induction ys arbitrary: a) auto

lemma links_cong:
  assumes "links bs a ys" and "\<forall>x \<in> set (a # butlast ys). bnext (bs' x) = bnext (bs x)"
    and "\<forall>x \<in> set ys. bprev (bs' x) = bprev (bs x)"
  shows "links bs' a ys"
  using assms by (induction ys arbitrary: a) (auto split: if_splits)

lemma links_hd: "links bs a ys \<Longrightarrow> ys \<noteq> [] \<Longrightarrow> bnext (bs a) = hd ys"
  by (cases ys) auto

lemma links_last: "links bs a (ys @ [b]) \<Longrightarrow> bprev (bs b) = last (a # ys)"
  by (induction ys arbitrary: a) auto

text \<open>The two walks of \<open>bget\<close> are searches in the list.\<close>

lemma find_cached_links:
  "links bs a (ys @ [bhead]) \<Longrightarrow> bhead \<notin> set ys \<Longrightarrow>
     find_cached bs dev n (bnext (bs a)) = Some (List.find (\<lambda>b. bdev (bs b) = dev \<and> blockno (bs b) = n) ys)"
proof (induction ys arbitrary: a)
  case Nil
  then show ?case by (subst find_cached.simps) simp
next
  case (Cons b ys)
  then show ?case by (subst find_cached.simps) (auto simp: Cons.IH [of b])
qed

lemma find_unused_links:
  "links bs bhead (ys @ [b]) \<Longrightarrow> bhead \<notin> set ys \<Longrightarrow>
     find_unused bs (bprev (bs b)) = Some (List.find (\<lambda>b. refcnt (bs b) = 0) (rev ys))"
proof (induction ys arbitrary: b rule: rev_induct)
  case Nil
  then show ?case by (subst find_unused.simps) simp
next
  case (snoc x ys)
  then have "links bs bhead (ys @ [x])" "bprev (bs b) = x" using links_append [of bs bhead ys x "[b]"] by auto
  with snoc show ?case by (subst find_unused.simps) auto
qed

lemma ring_find_cached:
  "ring bs xs \<Longrightarrow> find_cached bs dev n (bnext (bs bhead)) =
     Some (List.find (\<lambda>b. bdev (bs b) = dev \<and> blockno (bs b) = n) xs)"
  unfolding ring_def by (blast intro: find_cached_links)

lemma ring_find_unused:
  "ring bs xs \<Longrightarrow> find_unused bs (bprev (bs bhead)) = Some (List.find (\<lambda>b. refcnt (bs b) = 0) (rev xs))"
  unfolding ring_def by (blast intro: find_unused_links)

text \<open>Taking a buffer out, and putting one in behind the head.\<close>

definition unlinked :: "nat \<Rightarrow> (nat \<Rightarrow> buf) \<Rightarrow> nat \<Rightarrow> buf" where
  "unlinked b bs =
     (let bs = bs(bnext (bs b) := (bs (bnext (bs b)))\<lparr>bprev := bprev (bs b)\<rparr>)
      in bs(bprev (bs b) := (bs (bprev (bs b)))\<lparr>bnext := bnext (bs b)\<rparr>))"

definition fronted :: "nat \<Rightarrow> (nat \<Rightarrow> buf) \<Rightarrow> nat \<Rightarrow> buf" where
  "fronted b bs =
     (let bs = bs(b := (bs b)\<lparr>bnext := bnext (bs bhead), bprev := bhead\<rparr>);
          bs = bs(bnext (bs bhead) := (bs (bnext (bs bhead)))\<lparr>bprev := b\<rparr>)
      in bs(bhead := (bs bhead)\<lparr>bnext := b\<rparr>))"

lemma links_app: "links bs a (ys @ zs) \<longleftrightarrow> links bs a ys \<and> links bs (last (a # ys)) zs"
  by (induction ys arbitrary: a) auto

lemma links_remove:
  assumes l: "links bs a (ys @ b # zs @ [h])" and d: "distinct (ys @ zs)" "h \<notin> set (ys @ zs)" "a \<notin> set (ys @ zs)"
    and nx: "\<And>x. bnext (bs' x) = (if x = last (a # ys) then hd (zs @ [h]) else bnext (bs x))"
    and pv: "\<And>x. bprev (bs' x) = (if x = hd (zs @ [h]) then last (a # ys) else bprev (bs x))"
  shows "links bs' a (ys @ zs @ [h])"
proof -
  have 1: "links bs a ys" and z: "links bs b (zs @ [h])" using l by (auto simp: links_app)
  have "links bs' a ys"
  proof (cases ys rule: rev_cases)
    case (snoc xs y)
    with 1 show ?thesis
      by (rule_tac links_cong [of bs]) (use d in \<open>auto simp: nx pv hd_append split: if_splits\<close>)
  qed simp
  moreover have "links bs' (last (a # ys)) (zs @ [h])"
  proof (cases zs)
    case Nil
    then show ?thesis by (simp add: nx pv)
  next
    case (Cons c cs)
    have "links bs' c (cs @ [h])"
    proof (rule links_cong [of bs])
      show "links bs c (cs @ [h])" using z Cons by simp
      have "last (a # ys) \<notin> set (c # cs)" using d Cons by (cases ys rule: rev_cases) auto
      then show "\<forall>x\<in>set (c # butlast (cs @ [h])). bnext (bs' x) = bnext (bs x)" by (auto simp: nx)
      show "\<forall>x\<in>set (cs @ [h]). bprev (bs' x) = bprev (bs x)" using d Cons by (auto simp: pv)
    qed
    with Cons show ?thesis by (simp add: nx pv)
  qed
  ultimately show ?thesis by (subst links_app) simp
qed

lemma links_insert:
  assumes l: "links bs h (ws @ [h])" and d: "distinct ws" "h \<notin> set ws" "b \<notin> set ws" "b \<noteq> h"
    and nx: "\<And>x. bnext (bs' x) = (if x = h then b else if x = b then hd (ws @ [h]) else bnext (bs x))"
    and pv: "\<And>x. bprev (bs' x) = (if x = hd (ws @ [h]) then b else if x = b then h else bprev (bs x))"
  shows "links bs' h (b # ws @ [h])"
proof (cases ws)
  case Nil
  then show ?thesis using d(4) by (simp add: nx pv)
next
  case (Cons c cs)
  have "links bs' c (cs @ [h])"
    by (rule links_cong [of bs]) (use l d Cons in \<open>auto simp: nx pv split: if_splits\<close>)
  with Cons d show ?thesis by (auto simp: nx pv)
qed

lemma unlinked_fields:
  assumes "bnext (bs b) \<noteq> b"
  shows "bnext (unlinked b bs x) = (if x = bprev (bs b) then bnext (bs b) else bnext (bs x))"
    and "bprev (unlinked b bs x) = (if x = bnext (bs b) then bprev (bs b) else bprev (bs x))"
  using assms by (simp_all add: unlinked_def Let_def)

lemma fronted_fields:
  assumes "b \<noteq> bhead"
  shows "bnext (fronted b bs x) = (if x = bhead then b else if x = b then bnext (bs bhead) else bnext (bs x))"
    and "bprev (fronted b bs x) = (if x = bnext (bs bhead) then b else if x = b then bhead else bprev (bs x))"
  using assms by (simp_all add: fronted_def Let_def)

lemma unlinked_ring:
  assumes "ring bs (ys @ b # zs)"
  shows "ring (unlinked b bs) (ys @ zs)"
proof -
  have d: "distinct (ys @ b # zs)" "bhead \<notin> set (ys @ b # zs)" and l: "links bs bhead (ys @ b # zs @ [bhead])"
    using assms by (auto simp: ring_def)
  have p: "bprev (bs b) = last (bhead # ys)" and n: "bnext (bs b) = hd (zs @ [bhead])"
    using l links_hd [of bs b "zs @ [bhead]"] by (simp_all add: links_app)
  moreover have "hd (zs @ [bhead]) \<noteq> b" using d by (cases zs) auto
  ultimately have "bnext (bs b) \<noteq> b" by simp
  then have "links (unlinked b bs) bhead (ys @ zs @ [bhead])"
    by (intro links_remove [OF l]) (use d in \<open>simp_all add: unlinked_fields p n\<close>)
  with d show ?thesis by (simp add: ring_def)
qed

lemma fronted_ring:
  assumes "ring bs ws" and "b \<notin> set ws" and "b \<noteq> bhead"
  shows "ring (fronted b bs) (b # ws)"
proof -
  have "bnext (bs bhead) = hd (ws @ [bhead])" using assms(1) links_hd [of bs bhead "ws @ [bhead]"] by (simp add: ring_def)
  then have "links (fronted b bs) bhead (b # ws @ [bhead])"
    using assms by (intro links_insert [of bs]) (auto simp: ring_def fronted_fields)
  with assms show ?thesis by (auto simp: ring_def)
qed

text \<open>Nothing but the list changes.\<close>

lemma unlinked_data [simp]:
  "bvalid (unlinked b bs x) = bvalid (bs x)" "bdev (unlinked b bs x) = bdev (bs x)"
  "blockno (unlinked b bs x) = blockno (bs x)" "refcnt (unlinked b bs x) = refcnt (bs x)"
  "bdata (unlinked b bs x) = bdata (bs x)"
  by (simp_all add: unlinked_def Let_def)

lemma fronted_data [simp]:
  "bvalid (fronted b bs x) = bvalid (bs x)" "bdev (fronted b bs x) = bdev (bs x)"
  "blockno (fronted b bs x) = blockno (bs x)" "refcnt (fronted b bs x) = refcnt (bs x)"
  "bdata (fronted b bs x) = bdata (bs x)"
  by (simp_all add: fronted_def Let_def)

lemma link_front_eq: "link_front b s = s\<lparr>bufs := fronted b (bufs s)\<rparr>"
  by (simp add: link_front_def fronted_def upd_buf_def Let_def)

section \<open>What a call leaves alone\<close>

definition bframe :: "nat \<Rightarrow> 'a bcache_scheme \<Rightarrow> 'a bcache_scheme \<Rightarrow> bool" where
  "bframe me s t \<longleftrightarrow> t = s\<lparr>cpus := cpus t, locks := locks t, procs := procs t, slocks := slocks t,
       bufs := bufs t, disk := disk t, dtrace := dtrace t\<rparr> \<and> same_procs me (procs s) (procs t)"

lemma bframeE:
  assumes "bframe me s t"
  obtains c l p sl b d dt where
    "t = s\<lparr>cpus := c, locks := l, procs := p, slocks := sl, bufs := b, disk := d, dtrace := dt\<rparr>"
    "same_procs me (procs s) p"
proof (rule that)
  show "t = s\<lparr>cpus := cpus t, locks := locks t, procs := procs t, slocks := slocks t,
       bufs := bufs t, disk := disk t, dtrace := dtrace t\<rparr>" "same_procs me (procs s) (procs t)"
    using assms unfolding bframe_def by blast+
qed

lemma bframe_trans [trans]: "bframe me s t \<Longrightarrow> bframe me t u \<Longrightarrow> bframe me s u"
  by (elim bframeE) (auto simp: bframe_def intro: same_procs_trans)

lemma bframe_refl [simp]: "bframe me s s"
  by (simp add: bframe_def)

lemma bframe_upd [simp]:
  "bframe me s (upd_slock i f s)" "bframe me s (upd_buf b g s)" "bframe me s (s\<lparr>disk := d, dtrace := dt\<rparr>)"
  "bframe me s (s\<lparr>bufs := bs\<rparr>)"
  by (simp_all add: bframe_def upd_slock_def upd_buf_def)

lemma quiet_bframe:
  assumes "quiet me s t"
  shows "bframe me s t" "bufs t = bufs s" "slocks t = slocks s" "disk t = disk s" "dtrace t = dtrace s"
    "procs t me = procs s me"
  using assms by (auto simp: quiet_def bframe_def same_procs_def)

lemma calm_upd_slock [simp]: "calm me A (upd_slock i f s) = calm me A s"
  by (simp add: calm_def upd_slock_def)

lemma calm_upd [simp]:
  "calm me A (upd_buf b g s) = calm me A s" "calm me A (s\<lparr>disk := d, dtrace := dt\<rparr>) = calm me A s"
  by (simp_all add: calm_def upd_buf_def)

section \<open>Sleep locks\<close>

definition only_slocks :: "nat \<Rightarrow> 'a bcache_scheme \<Rightarrow> 'a bcache_scheme \<Rightarrow> bool" where
  "only_slocks me s t \<longleftrightarrow> bframe me s t \<and> bufs t = bufs s \<and> disk t = disk s \<and> dtrace t = dtrace s \<and>
     procs t me = procs s me"

lemma only_slocks_trans [trans]: "only_slocks me s t \<Longrightarrow> only_slocks me t u \<Longrightarrow> only_slocks me s u"
  by (auto simp: only_slocks_def intro: bframe_trans)

lemma only_slocks_upd [simp]: "only_slocks me s (upd_slock i f s)"
  by (simp add: only_slocks_def) (simp add: upd_slock_def)

lemma only_slocks_quiet: "quiet me s t \<Longrightarrow> only_slocks me s t"
  by (simp add: only_slocks_def quiet_bframe)

lemma acquiresleep_runs:
  assumes c: "calm me A s" and l: "SleepLk lk \<notin> A" and f: "\<not> slocked (slocks s lk)"
  shows "runs (acquiresleep lk s) (\<lambda>t. calm me A t \<and> only_slocks me s t \<and>
    slocks t = (slocks s)(lk := (slocks s lk)\<lparr>slocked := True, slpid := pid (procs s me)\<rparr>))"
proof -
  obtain s1 where s1: "acquire (SleepLk lk) s = Some s1" "calm me (insert (SleepLk lk) A) s1" "quiet me s s1"
    using calm_acquire [OF c l] by (auto elim: runsE)
  let ?s2 = "upd_slock lk (\<lambda>l. l\<lparr>slocked := True\<rparr>) s1"
  obtain s3 where s3: "myproc ?s2 = Some (Some me, s3)" "calm me (insert (SleepLk lk) A) s3" "quiet me ?s2 s3"
    using calm_myproc [of me "insert (SleepLk lk) A" ?s2] s1 by (auto elim: runsE)
  let ?s4 = "upd_slock lk (\<lambda>l. l\<lparr>slpid := pid (procs s3 me)\<rparr>) s3"
  obtain s5 where s5: "release (SleepLk lk) ?s4 = Some s5" "calm me A s5" "quiet me ?s4 s5"
    using calm_release [of me "insert (SleepLk lk) A" ?s4 "SleepLk lk"] s3 l by (auto elim: runsE)
  have "acquiresleep lk s = Some s5"
    using f s1(1) s3(1) s5(1) by (simp add: acquiresleep_def acquiresleep_enter_def acquiresleep_round_def
      deref_def quiet_bframe [OF s1(3)])
  moreover have "only_slocks me s s5"
    using s1(3) s3(3) s5(3) by (meson only_slocks_quiet only_slocks_trans only_slocks_upd)
  moreover have "slocks s5 = (slocks s)(lk := (slocks s lk)\<lparr>slocked := True, slpid := pid (procs s me)\<rparr>)"
    using s1(3) s3(3) s5(3) by (simp add: quiet_bframe quiet_bframe(6) upd_slock_def)
  ultimately show ?thesis using s5(2) by (simp add: runs_def)
qed

lemma releasesleep_runs:
  assumes c: "calm me A s" and l: "SleepLk lk \<notin> A" and p: "\<And>p. ProcLock p \<notin> A"
  shows "runs (releasesleep lk s) (\<lambda>t. calm me A t \<and> only_slocks me s t \<and>
    slocks t = (slocks s)(lk := (slocks s lk)\<lparr>slocked := False, slpid := 0\<rparr>))"
proof -
  obtain s1 where s1: "acquire (SleepLk lk) s = Some s1" "calm me (insert (SleepLk lk) A) s1" "quiet me s s1"
    using calm_acquire [OF c l] by (auto elim: runsE)
  let ?s2 = "upd_slock lk (\<lambda>l. l\<lparr>slocked := False, slpid := 0\<rparr>) s1"
  obtain s3 where s3: "wakeup (Some (ChanSleepLock lk)) ?s2 = Some s3" "calm me (insert (SleepLk lk) A) s3" "quiet me ?s2 s3"
    using calm_wakeup [of me "insert (SleepLk lk) A" ?s2 "Some (ChanSleepLock lk)"] s1 p by (auto elim: runsE)
  obtain s5 where s5: "release (SleepLk lk) s3 = Some s5" "calm me A s5" "quiet me s3 s5"
    using calm_release [of me "insert (SleepLk lk) A" s3 "SleepLk lk"] s3 l by (auto elim: runsE)
  have "releasesleep lk s = Some s5" using s1(1) s3(1) s5(1) by (simp add: releasesleep_def)
  moreover have "only_slocks me s s5"
    using s1(3) s3(3) s5(3) by (meson only_slocks_quiet only_slocks_trans only_slocks_upd)
  moreover have "slocks s5 = (slocks s)(lk := (slocks s lk)\<lparr>slocked := False, slpid := 0\<rparr>)"
    using s1(3) s3(3) s5(3) by (simp add: quiet_bframe quiet_bframe(6) upd_slock_def)
  ultimately show ?thesis using s5(2) by (simp add: runs_def)
qed

lemma holdingsleep_runs:
  assumes c: "calm me A s" and l: "SleepLk lk \<notin> A" and h: "slocked (slocks s lk)" "slpid (slocks s lk) = pid (procs s me)"
  shows "runs (holdingsleep lk s) (\<lambda>(r, t). r \<and> calm me A t \<and> only_slocks me s t \<and> slocks t = slocks s)"
proof -
  obtain s1 where s1: "acquire (SleepLk lk) s = Some s1" "calm me (insert (SleepLk lk) A) s1" "quiet me s s1"
    using calm_acquire [OF c l] by (auto elim: runsE)
  obtain s3 where s3: "myproc s1 = Some (Some me, s3)" "calm me (insert (SleepLk lk) A) s3" "quiet me s1 s3"
    using calm_myproc [of me "insert (SleepLk lk) A" s1] s1 by (auto elim: runsE)
  obtain s5 where s5: "release (SleepLk lk) s3 = Some s5" "calm me A s5" "quiet me s3 s5"
    using calm_release [of me "insert (SleepLk lk) A" s3 "SleepLk lk"] s3 l by (auto elim: runsE)
  note q = quiet_bframe [OF s1(3)] quiet_bframe [OF s3(3)] quiet_bframe [OF s5(3)]
  have "holdingsleep lk s = Some (True, s5)"
    using h s1(1) s3(1) s5(1) by (simp add: holdingsleep_def deref_def q)
  moreover have "only_slocks me s s5"
    using s1(3) s3(3) s5(3) by (meson only_slocks_quiet only_slocks_trans)
  ultimately show ?thesis using s5(2) q by (simp add: runs_def)
qed

section \<open>The invariant and the view of the blocks\<close>

definition caches :: "(nat \<Rightarrow> buf) \<Rightarrow> nat \<Rightarrow> u32 \<Rightarrow> bool" where
  "caches bs b n \<longleftrightarrow> b < NBUF \<and> bdev (bs b) = ROOTDEV \<and> blockno (bs b) = n"

definition slot_ok :: "buf \<Rightarrow> bool \<Rightarrow> u32 set \<Rightarrow> bool" where
  "slot_ok x h D \<longleftrightarrow> length (bdata x) = BSIZE \<and>
     refcnt x = of_bool h + of_bool (bdev x = ROOTDEV \<and> blockno x \<in> D) \<and>
     (if bdev x = ROOTDEV then bvalid x else bdev x = 0 \<and> \<not> bvalid x \<and> \<not> h)"

definition slots_ok :: "(nat \<Rightarrow> buf) \<Rightarrow> nat set \<Rightarrow> u32 set \<Rightarrow> bool" where
  "slots_ok bs H D \<longleftrightarrow>
     (\<forall>b<NBUF. slot_ok (bs b) (b \<in> H) D) \<and>
     (\<forall>a b n. caches bs a n \<and> caches bs b n \<longrightarrow> a = b) \<and>
     (\<forall>n\<in>D. \<exists>b. caches bs b n)"

definition owns :: "int \<Rightarrow> nat set \<Rightarrow> (sleeplock_id \<Rightarrow> sleeplock) \<Rightarrow> bool" where
  "owns i H sl \<longleftrightarrow> (\<forall>b<NBUF. if b \<in> H then slocked (sl (BufLock b)) \<and> slpid (sl (BufLock b)) = i
     else \<not> slocked (sl (BufLock b)))"

definition binv :: "nat \<Rightarrow> nat set \<Rightarrow> u32 set \<Rightarrow> 'a bcache_scheme \<Rightarrow> bool" where
  "binv me H D s \<longleftrightarrow> H \<subseteq> {..<NBUF} \<and> finite D \<and>
     (\<exists>xs. ring (bufs s) xs \<and> set xs = {..<NBUF}) \<and>
     slots_ok (bufs s) H D \<and> owns (pid (procs s me)) H (slocks s) \<and>
     (\<forall>n. length (disk s n) = BSIZE) \<and>
     (\<forall>b n. caches (bufs s) b n \<and> b \<notin> H \<and> n \<notin> D \<longrightarrow> bdata (bufs s b) = disk s n)"

definition blk :: "'a bcache_scheme \<Rightarrow> u32 \<Rightarrow> bytes" where
  "blk s n = (case List.find (\<lambda>b. caches (bufs s) b n) [0..<NBUF] of
     Some b \<Rightarrow> bdata (bufs s b) | None \<Rightarrow> disk s n)"

lemma slots_inj: "slots_ok bs H D \<Longrightarrow> caches bs a n \<Longrightarrow> caches bs b n \<Longrightarrow> a = b"
  unfolding slots_ok_def by blast

lemma find_caches:
  assumes "\<And>a b. caches bs a n \<Longrightarrow> caches bs b n \<Longrightarrow> a = b"
  shows "caches bs b n \<Longrightarrow> List.find (\<lambda>b. caches bs b n) [0..<NBUF] = Some b"
    and "\<not> (\<exists>b. caches bs b n) \<Longrightarrow> List.find (\<lambda>b. caches bs b n) [0..<NBUF] = None"
proof -
  assume b: "caches bs b n"
  then have "b \<in> set [0..<NBUF]" by (simp add: caches_def)
  then obtain c where "List.find (\<lambda>b. caches bs b n) [0..<NBUF] = Some c"
    using b by (cases "List.find (\<lambda>b. caches bs b n) [0..<NBUF]") (auto simp: find_None_iff)
  moreover from this have "caches bs c n" by (auto simp: find_Some_iff)
  ultimately show "List.find (\<lambda>b. caches bs b n) [0..<NBUF] = Some b" using assms b by simp
qed (auto simp: find_None_iff)

lemma blk_caches: "slots_ok (bufs s) H D \<Longrightarrow> caches (bufs s) b n \<Longrightarrow> blk s n = bdata (bufs s b)"
  by (simp add: blk_def find_caches(1) [OF slots_inj])

lemma blk_disk: "\<not> (\<exists>b. caches (bufs s) b n) \<Longrightarrow> blk s n = disk s n"
  by (auto simp: blk_def find_None_iff split: option.split dest!: find_Some_iff [THEN iffD1])

lemma blk_eqI:
  assumes "slots_ok (bufs s) H D" "slots_ok (bufs t) H' D'"
    and "\<And>b n. caches (bufs s) b n \<Longrightarrow> (caches (bufs t) b n \<and> bdata (bufs t b) = bdata (bufs s b)) \<or>
       (\<not> (\<exists>b. caches (bufs t) b n) \<and> disk t n = bdata (bufs s b))"
    and "\<And>n. \<not> (\<exists>b. caches (bufs s) b n) \<Longrightarrow> (\<exists>b. caches (bufs t) b n \<and> bdata (bufs t b) = disk s n) \<or>
       (\<not> (\<exists>b. caches (bufs t) b n) \<and> disk t n = disk s n)"
  shows "blk t = blk s"
proof
  fix n
  show "blk t n = blk s n"
  proof (cases "\<exists>b. caches (bufs s) b n")
    case True
    then obtain b where b: "caches (bufs s) b n" by blast
    with assms(3) [OF b] show ?thesis
      by (auto simp: blk_caches [OF assms(1)] blk_caches [OF assms(2)] blk_disk)
  next
    case False
    with assms(4) [OF False] show ?thesis
      by (auto simp: blk_caches [OF assms(2)] blk_disk)
  qed
qed

lemma caches_upd:
  "caches (bs(b := x)) a n \<longleftrightarrow> (if a = b then b < NBUF \<and> bdev x = ROOTDEV \<and> blockno x = n else caches bs a n)"
  by (simp add: caches_def)

lemma slot_unused: "slot_ok x h D \<Longrightarrow> refcnt x = 0 \<longleftrightarrow> \<not> h \<and> \<not> (bdev x = ROOTDEV \<and> blockno x \<in> D)"
  by (auto simp: slot_ok_def)

lemma slots_slot: "slots_ok bs H D \<Longrightarrow> b < NBUF \<Longrightarrow> slot_ok (bs b) (b \<in> H) D"
  by (simp add: slots_ok_def)

lemma slots_hit:
  assumes "slots_ok bs H D" and "caches bs b n" and "b \<notin> H"
  shows "slots_ok (bs(b := (bs b)\<lparr>refcnt := refcnt (bs b) + 1\<rparr>)) (insert b H) D"
proof -
  have c: "caches (bs(b := (bs b)\<lparr>refcnt := refcnt (bs b) + 1\<rparr>)) a m = caches bs a m" for a m
    by (simp add: caches_def)
  have "\<forall>x<NBUF. slot_ok ((bs(b := (bs b)\<lparr>refcnt := refcnt (bs b) + 1\<rparr>)) x) (x \<in> insert b H) D"
    using assms unfolding slots_ok_def by (simp add: slot_ok_def caches_def add.commute)
  with assms show ?thesis unfolding slots_ok_def c by blast
qed

lemma slots_load:
  assumes s: "slots_ok bs H D" and n: "\<not> (\<exists>b. caches bs b n)" and b: "b < NBUF" "refcnt (bs b) = 0" and d: "length d = BSIZE"
  shows "slots_ok (bs(b := (bs b)\<lparr>bdev := ROOTDEV, blockno := n, refcnt := 1, bdata := d, bvalid := True\<rparr>)) (insert b H) D"
    (is "slots_ok ?bs _ _")
proof -
  have z: "b \<notin> H" "\<not> (bdev (bs b) = ROOTDEV \<and> blockno (bs b) \<in> D)"
    using slot_unused [OF slots_slot [OF s b(1)]] b(2) by simp_all
  have nD: "n \<notin> D" using s n unfolding slots_ok_def by blast
  have c: "caches ?bs a m \<longleftrightarrow> (if a = b then m = n else caches bs a m)" for a m
    using b by (auto simp: caches_def)
  have "\<forall>m\<in>D. \<exists>a. caches ?bs a m"
  proof
    fix m assume m: "m \<in> D"
    then obtain a where a: "caches bs a m" using s unfolding slots_ok_def by blast
    with z(2) m have "a \<noteq> b" by (auto simp: caches_def)
    with a c show "\<exists>a. caches ?bs a m" by auto
  qed
  moreover have "\<forall>x y m. caches ?bs x m \<and> caches ?bs y m \<longrightarrow> x = y"
    using slots_inj [OF s] n by (auto simp: c split: if_splits)
  moreover have "\<forall>x<NBUF. slot_ok (?bs x) (x \<in> insert b H) D"
    using s nD d unfolding slots_ok_def by (simp add: slot_ok_def)
  ultimately show ?thesis unfolding slots_ok_def by blast
qed

lemma owns_take:
  "owns i H sl \<Longrightarrow> owns i (insert b H) (sl(BufLock b := (sl (BufLock b))\<lparr>slocked := True, slpid := i\<rparr>))"
  by (auto simp: owns_def)

lemma owns_drop:
  "owns i H sl \<Longrightarrow> owns i (H - {b}) (sl(BufLock b := (sl (BufLock b))\<lparr>slocked := False, slpid := 0\<rparr>))"
  by (auto simp: owns_def)

text \<open>A cache with more buffers than are held or pinned has one that is not in use.\<close>

lemma unused_exists:
  assumes s: "slots_ok bs H D" and f: "finite D" "finite H" and r: "card D + card H < NBUF"
  shows "\<exists>b<NBUF. refcnt (bs b) = 0"
proof (rule ccontr)
  assume "\<not> ?thesis"
  then have "\<forall>b<NBUF. b \<in> H \<or> bdev (bs b) = ROOTDEV \<and> blockno (bs b) \<in> D"
    using slot_unused [OF slots_slot [OF s]] by auto
  then have sub: "{..<NBUF} \<subseteq> H \<union> {b. caches bs b (blockno (bs b)) \<and> blockno (bs b) \<in> D}"
    by (auto simp: caches_def)
  let ?P = "{b. caches bs b (blockno (bs b)) \<and> blockno (bs b) \<in> D}"
  have i: "inj_on (\<lambda>b. blockno (bs b)) ?P" using slots_inj [OF s] by (auto simp: inj_on_def)
  have "card ?P \<le> card D" using card_inj_on_le [OF i _ f(1)] by blast
  moreover have "finite ?P" by (rule finite_subset [of _ "{..<NBUF}"]) (auto simp: caches_def)
  ultimately have "card (H \<union> ?P) \<le> card H + card D" using card_Un_le [of H ?P] by linarith
  moreover have "NBUF \<le> card (H \<union> ?P)" using card_mono [OF _ sub] f(2) \<open>finite ?P\<close> by simp
  ultimately show False using r by simp
qed

definition fs_free :: "lockid set \<Rightarrow> bool" where
  "fs_free A \<longleftrightarrow> BcacheLock \<notin> A \<and> (\<forall>i. SleepLk i \<notin> A) \<and> (\<forall>p. ProcLock p \<notin> A)"

definition untouched :: "nat \<Rightarrow> nat set \<Rightarrow> 'a bcache_scheme \<Rightarrow> 'a bcache_scheme \<Rightarrow> bool" where
  "untouched me H s t \<longleftrightarrow> bframe me s t \<and> disk t = disk s \<and> dtrace t = dtrace s \<and> blk t = blk s \<and>
     (\<forall>h\<in>H. blockno (bufs t h) = blockno (bufs s h) \<and> bdata (bufs t h) = bdata (bufs s h))"

lemma bcache_locked:
  assumes "calm me A s" and "BcacheLock \<notin> A"
  obtains s1 where "acquire BcacheLock s = Some s1" "calm me (insert BcacheLock A) s1" "quiet me s s1"
    "\<forall>bs. runs (release BcacheLock (s1\<lparr>bufs := bs\<rparr>)) (\<lambda>t. calm me A t \<and> quiet me (s1\<lparr>bufs := bs\<rparr>) t)"
proof -
  obtain s1 where s1: "acquire BcacheLock s = Some s1" "calm me (insert BcacheLock A) s1" "quiet me s s1"
    using calm_acquire [OF assms] by (auto elim: runsE)
  moreover have "runs (release BcacheLock (s1\<lparr>bufs := bs\<rparr>)) (\<lambda>t. calm me A t \<and> quiet me (s1\<lparr>bufs := bs\<rparr>) t)" for bs
    using calm_release [of me "insert BcacheLock A" "s1\<lparr>bufs := bs\<rparr>" BcacheLock] s1(2) assms(2)
    by (simp add: calm_def)
  ultimately show ?thesis using that by blast
qed

text \<open>The tail of \<open>bget\<close>: the buffers are updated under the lock, then the buffer's lock is taken.\<close>

lemma bget_tail:
  assumes c: "calm me A s" and l: "fs_free A" and f: "\<not> slocked (slocks s (BufLock b))"
    and eq: "\<And>s1. acquire BcacheLock s = Some s1 \<Longrightarrow> bufs s1 = bufs s \<Longrightarrow>
      bget dev n s = do { s \<leftarrow> release BcacheLock (s1\<lparr>bufs := bs\<rparr>); s \<leftarrow> acquiresleep (BufLock b) s; Some (b, s) }"
  shows "runs (bget dev n s) (\<lambda>(b', t). b' = b \<and> calm me A t \<and> bframe me s t \<and> bufs t = bs \<and> disk t = disk s \<and>
    dtrace t = dtrace s \<and> procs t me = procs s me \<and>
    slocks t = (slocks s)(BufLock b := (slocks s (BufLock b))\<lparr>slocked := True, slpid := pid (procs s me)\<rparr>))"
proof -
  have free: "BcacheLock \<notin> A" "SleepLk (BufLock b) \<notin> A" using l by (auto simp: fs_free_def)
  obtain s1 where s1: "acquire BcacheLock s = Some s1" "calm me (insert BcacheLock A) s1" "quiet me s s1"
      "\<forall>bs. runs (release BcacheLock (s1\<lparr>bufs := bs\<rparr>)) (\<lambda>t. calm me A t \<and> quiet me (s1\<lparr>bufs := bs\<rparr>) t)"
    by (rule bcache_locked [OF c free(1)])
  note q1 = quiet_bframe [OF s1(3)]
  obtain s2 where s2: "release BcacheLock (s1\<lparr>bufs := bs\<rparr>) = Some s2" "calm me A s2" "quiet me (s1\<lparr>bufs := bs\<rparr>) s2"
    using spec [OF s1(4), of bs] by (auto elim: runsE)
  note q2 = quiet_bframe [OF s2(3)]
  obtain t where t: "acquiresleep (BufLock b) s2 = Some t" "calm me A t" "only_slocks me s2 t"
    "slocks t = (slocks s2)(BufLock b := (slocks s2 (BufLock b))\<lparr>slocked := True, slpid := pid (procs s2 me)\<rparr>)"
    using acquiresleep_runs [OF s2(2) free(2)] f q1 q2 by (auto elim: runsE)
  have "bframe me s s1" "bframe me s1 (s1\<lparr>bufs := bs\<rparr>)" "bframe me (s1\<lparr>bufs := bs\<rparr>) s2" "bframe me s2 t"
    using q1(1) q2(1) t(3) by (simp_all add: only_slocks_def)
  then have "bframe me s t" by (meson bframe_trans)
  with t q1 q2 eq [OF s1(1) q1(2)] s2(1) show ?thesis by (simp add: runs_def only_slocks_def)
qed

lemma ring_cong:
  "ring bs xs \<Longrightarrow> (\<And>x. bnext (bs' x) = bnext (bs x) \<and> bprev (bs' x) = bprev (bs x)) \<Longrightarrow> ring bs' xs"
  unfolding ring_def by (auto intro: links_cong)

lemma ringed_cong:
  "\<exists>xs. ring bs xs \<and> set xs = S \<Longrightarrow> (\<And>x. bnext (bs' x) = bnext (bs x) \<and> bprev (bs' x) = bprev (bs x)) \<Longrightarrow>
     \<exists>xs. ring bs' xs \<and> set xs = S"
  by (blast intro: ring_cong)

lemma find_in_ring:
  assumes "slots_ok bs H D" and "set xs = {..<NBUF}"
  shows "caches bs b n \<Longrightarrow> List.find (\<lambda>b. bdev (bs b) = ROOTDEV \<and> blockno (bs b) = n) xs = Some b"
    and "\<not> (\<exists>b. caches bs b n) \<Longrightarrow> List.find (\<lambda>b. bdev (bs b) = ROOTDEV \<and> blockno (bs b) = n) xs = None"
proof -
  assume b: "caches bs b n"
  then have "b \<in> set xs" "bdev (bs b) = ROOTDEV \<and> blockno (bs b) = n" using assms(2) by (auto simp: caches_def)
  then obtain c where c: "List.find (\<lambda>b. bdev (bs b) = ROOTDEV \<and> blockno (bs b) = n) xs = Some c"
    by (cases "List.find (\<lambda>b. bdev (bs b) = ROOTDEV \<and> blockno (bs b) = n) xs") (auto simp: find_None_iff)
  then have "caches bs c n" using assms(2) by (auto simp: find_Some_iff caches_def)
  with c show "List.find (\<lambda>b. bdev (bs b) = ROOTDEV \<and> blockno (bs b) = n) xs = Some b"
    using slots_inj [OF assms(1) b] by simp
qed (use assms(2) in \<open>auto simp: find_None_iff caches_def\<close>)

text \<open>The state after \<open>bread\<close>, from what \<open>bget\<close> and the transfer did to the buffers.\<close>

lemma binvD:
  assumes "binv me H D s"
  shows "H \<subseteq> {..<NBUF}" "finite D" "slots_ok (bufs s) H D" "owns (pid (procs s me)) H (slocks s)"
    "length (disk s n) = BSIZE" "caches (bufs s) b n \<Longrightarrow> b \<notin> H \<Longrightarrow> n \<notin> D \<Longrightarrow> bdata (bufs s b) = disk s n" "finite H"
    "\<exists>xs. ring (bufs s) xs \<and> set xs = {..<NBUF}"
  using assms finite_subset [of H "{..<NBUF}"] by (auto simp: binv_def)

lemma binv_hit:
  assumes i: "binv me H D s" and b: "caches (bufs s) b n" "b \<notin> H"
    and t: "bufs t = (bufs s)(b := (bufs s b)\<lparr>refcnt := refcnt (bufs s b) + 1\<rparr>)" "disk t = disk s"
      "procs t me = procs s me"
      "slocks t = (slocks s)(BufLock b := (slocks s (BufLock b))\<lparr>slocked := True, slpid := pid (procs s me)\<rparr>)"
  shows "binv me (insert b H) D t \<and> blk t = blk s \<and> caches (bufs t) b n \<and> bdata (bufs t b) = blk s n"
proof -
  have c: "caches (bufs t) a m = caches (bufs s) a m" and d: "bdata (bufs t a) = bdata (bufs s a)" for a m
    by (simp_all add: t caches_def)
  have s: "slots_ok (bufs t) (insert b H) D" unfolding t(1) by (rule slots_hit [OF binvD(3) [OF i] b])
  have "\<exists>xs. ring (bufs t) xs \<and> set xs = {..<NBUF}"
    by (rule ringed_cong [OF binvD(8) [OF i]]) (simp add: t(1))
  moreover have "owns (pid (procs t me)) (insert b H) (slocks t)" unfolding t(3,4) by (rule owns_take [OF binvD(4) [OF i]])
  moreover have "insert b H \<subseteq> {..<NBUF}" using b(1) binvD(1) [OF i] by (simp add: caches_def)
  moreover have "\<forall>x m. caches (bufs t) x m \<and> x \<notin> insert b H \<and> m \<notin> D \<longrightarrow> bdata (bufs t x) = disk t m"
    using binvD(6) [OF i] by (simp add: c d t(2))
  ultimately have "binv me (insert b H) D t"
    using binvD(2,5) [OF i] s unfolding binv_def t(2) by blast
  moreover have "blk t = blk s" by (rule blk_eqI [OF binvD(3) [OF i] s]) (auto simp: c d t(2))
  ultimately show ?thesis using b c d blk_caches [OF binvD(3) [OF i] b(1)] by simp
qed

lemma binv_load:
  assumes i: "binv me H D s" and n: "\<not> (\<exists>b. caches (bufs s) b n)" and b: "b < NBUF" "refcnt (bufs s b) = 0"
    and t: "bufs t = (bufs s)(b := (bufs s b)\<lparr>bdev := ROOTDEV, blockno := n, refcnt := 1, bdata := disk s n, bvalid := True\<rparr>)"
      "disk t = disk s" "procs t me = procs s me"
      "slocks t = (slocks s)(BufLock b := (slocks s (BufLock b))\<lparr>slocked := True, slpid := pid (procs s me)\<rparr>)"
  shows "binv me (insert b H) D t \<and> blk t = blk s \<and> caches (bufs t) b n \<and> bdata (bufs t b) = blk s n"
proof -
  have z: "b \<notin> H" "\<not> (bdev (bufs s b) = ROOTDEV \<and> blockno (bufs s b) \<in> D)"
    using slot_unused [OF slots_slot [OF binvD(3) [OF i] b(1)]] b(2) by simp_all
  have c: "caches (bufs t) a m \<longleftrightarrow> (if a = b then m = n else caches (bufs s) a m)"
    and d: "a \<noteq> b \<Longrightarrow> bufs t a = bufs s a" for a m
    using b by (auto simp: t caches_def)
  have db: "bdata (bufs t b) = disk s n" by (simp add: t(1))
  have s: "slots_ok (bufs t) (insert b H) D"
    unfolding t(1) by (rule slots_load [OF binvD(3) [OF i] n b binvD(5) [OF i]])
  have "\<exists>xs. ring (bufs t) xs \<and> set xs = {..<NBUF}"
    by (rule ringed_cong [OF binvD(8) [OF i]]) (simp add: t(1))
  moreover have "owns (pid (procs t me)) (insert b H) (slocks t)" unfolding t(3,4) by (rule owns_take [OF binvD(4) [OF i]])
  moreover have "\<forall>x m. caches (bufs t) x m \<and> x \<notin> insert b H \<and> m \<notin> D \<longrightarrow> bdata (bufs t x) = disk t m"
    using binvD(6) [OF i] d by (auto simp: c t(2))
  moreover have "insert b H \<subseteq> {..<NBUF}" using b(1) binvD(1) [OF i] by simp
  ultimately have "binv me (insert b H) D t"
    using binvD(2,5) [OF i] s unfolding binv_def t(2) by blast
  moreover have "blk t = blk s"
  proof (rule blk_eqI [OF binvD(3) [OF i] s])
    fix x m assume x: "caches (bufs s) x m"
    show "caches (bufs t) x m \<and> bdata (bufs t x) = bdata (bufs s x) \<or> \<not> (\<exists>b. caches (bufs t) b m) \<and> disk t m = bdata (bufs s x)"
    proof (cases "x = b")
      case True
      then have "m \<notin> D" "m \<noteq> n" using z(2) n x by (auto simp: caches_def)
      then have "\<not> caches (bufs t) y m" for y using slots_inj [OF binvD(3) [OF i] x] True by (auto simp: c)
      with binvD(6) [OF i x] True z(1) \<open>m \<notin> D\<close> show ?thesis by (simp add: t(2))
    qed (use x c d in auto)
  qed (use c db in \<open>auto simp: t(2)\<close>)
  ultimately show ?thesis using c blk_disk [of s n] n by (auto simp: t)
qed

lemma bread_runs:
  assumes c: "calm me A s" "fs_free A" and i: "binv me H D s" and nh: "\<forall>b\<in>H. blockno (bufs s b) \<noteq> n"
    and room: "(\<exists>b. caches (bufs s) b n) \<or> card D + card H < NBUF"
  shows "runs (bread ROOTDEV n s) (\<lambda>(b, t). b \<notin> H \<and> caches (bufs t) b n \<and> bdata (bufs t b) = blk s n \<and>
    calm me A t \<and> binv me (insert b H) D t \<and> untouched me H s t)"
proof -
  obtain xs where xs: "ring (bufs s) xs" "set xs = {..<NBUF}" using binvD(8) [OF i] by blast
  note ok = binvD(3) [OF i]
  have fr: "b < NBUF \<Longrightarrow> b \<notin> H \<Longrightarrow> \<not> slocked (slocks s (BufLock b))" for b
    using binvD(4) [OF i] by (auto simp: owns_def)
  show ?thesis
  proof (cases "\<exists>b. caches (bufs s) b n")
    case True
    then obtain b where b: "caches (bufs s) b n" by blast
    then have h: "b \<notin> H" "b < NBUF" and v: "bvalid (bufs s b)"
      using nh slots_slot [OF ok, of b] by (auto simp: caches_def slot_ok_def)
    let ?bs = "(bufs s)(b := (bufs s b)\<lparr>refcnt := refcnt (bufs s b) + 1\<rparr>)"
    have "bget ROOTDEV n s = do { s \<leftarrow> release BcacheLock (s1\<lparr>bufs := ?bs\<rparr>); s \<leftarrow> acquiresleep (BufLock b) s; Some (b, s) }"
      if "acquire BcacheLock s = Some s1" "bufs s1 = bufs s" for s1
      using that by (simp add: bget_def ring_find_cached [OF xs(1)] find_in_ring(1) [OF ok xs(2) b] upd_buf_def)
    then obtain t where t: "bget ROOTDEV n s = Some (b, t)" "calm me A t" "bframe me s t" "bufs t = ?bs" "disk t = disk s"
      "dtrace t = dtrace s" "procs t me = procs s me"
      "slocks t = (slocks s)(BufLock b := (slocks s (BufLock b))\<lparr>slocked := True, slpid := pid (procs s me)\<rparr>)"
      using bget_tail [OF c fr [OF h(2,1)], of ROOTDEV n ?bs] by (auto elim: runsE)
    have "bread ROOTDEV n s = Some (b, t)" using t(1,4) v by (simp add: bread_def)
    with t(2,3,6) h binv_hit [OF i b h(1) t(4,5,7,8)] show ?thesis
      by (simp add: runs_def untouched_def t(4,5))
  next
    case False
    then obtain b0 where "b0 < NBUF" "refcnt (bufs s b0) = 0"
      using room unused_exists [OF ok binvD(2,7) [OF i]] by blast
    then obtain b where fd: "List.find (\<lambda>b. refcnt (bufs s b) = 0) (rev xs) = Some b"
      using xs(2) by (cases "List.find (\<lambda>b. refcnt (bufs s b) = 0) (rev xs)") (auto simp: find_None_iff)
    then have b: "b < NBUF" "refcnt (bufs s b) = 0" using xs(2) by (auto simp: find_Some_iff) (metis nth_mem set_rev lessThan_iff length_rev)
    have h: "b \<notin> H" using slot_unused [OF slots_slot [OF ok b(1)]] b(2) by simp
    let ?bs = "(bufs s)(b := (bufs s b)\<lparr>bdev := ROOTDEV, blockno := n, bvalid := False, refcnt := 1\<rparr>)"
    have "bget ROOTDEV n s = do { s \<leftarrow> release BcacheLock (s1\<lparr>bufs := ?bs\<rparr>); s \<leftarrow> acquiresleep (BufLock b) s; Some (b, s) }"
      if "acquire BcacheLock s = Some s1" "bufs s1 = bufs s" for s1
      using that by (simp add: bget_def ring_find_cached [OF xs(1)] ring_find_unused [OF xs(1)]
          find_in_ring(2) [OF ok xs(2) False] fd deref_def upd_buf_def)
    then obtain u where u: "bget ROOTDEV n s = Some (b, u)" "calm me A u" "bframe me s u" "bufs u = ?bs" "disk u = disk s"
      "dtrace u = dtrace s" "procs u me = procs s me"
      "slocks u = (slocks s)(BufLock b := (slocks s (BufLock b))\<lparr>slocked := True, slpid := pid (procs s me)\<rparr>)"
      using bget_tail [OF c fr [OF b(1) h], of ROOTDEV n ?bs] by (auto elim: runsE)
    let ?t = "upd_buf b (\<lambda>x. x\<lparr>bvalid := True\<rparr>) (upd_buf b (\<lambda>x. x\<lparr>bdata := disk u (blockno x)\<rparr>) u)"
    have "bread ROOTDEV n s = Some (b, ?t)" using u(1,4) by (simp add: bread_def disk_transfer_def)
    moreover have "bufs ?t = (bufs s)(b := (bufs s b)\<lparr>bdev := ROOTDEV, blockno := n, refcnt := 1, bdata := disk s n, bvalid := True\<rparr>)"
      "disk ?t = disk s" "dtrace ?t = dtrace s" "procs ?t me = procs s me"
      "slocks ?t = (slocks s)(BufLock b := (slocks s (BufLock b))\<lparr>slocked := True, slpid := pid (procs s me)\<rparr>)"
      using u by (simp_all add: upd_buf_def)
    moreover have "bframe me s ?t" using u(3) by (meson bframe_trans bframe_upd)
    ultimately show ?thesis using binv_load [OF i False b, of ?t] u(2) h by (auto simp: runs_def untouched_def)
  qed
qed

section \<open>Writing, pinning and letting go\<close>

definition payload :: "buf \<Rightarrow> bool \<times> u32 \<times> u32 \<times> bytes" where
  "payload x = (bvalid x, bdev x, blockno x, bdata x)"

lemma payload_fields:
  assumes "payload x = payload y"
  shows "bvalid x = bvalid y" "bdev x = bdev y" "blockno x = blockno y" "bdata x = bdata y"
  using assms by (simp_all add: payload_def)

lemma payload_caches: "(\<And>x. payload (bs' x) = payload (bs x)) \<Longrightarrow> caches bs' = caches bs"
  by (simp add: fun_eq_iff caches_def payload_def)

text \<open>Only the counts, the list and the locks change.\<close>

lemma binv_recount:
  assumes i: "binv me H D s" and p: "\<And>x. payload (bufs t x) = payload (bufs s x)"
    and r: "\<And>x. x < NBUF \<Longrightarrow> refcnt (bufs t x) =
       of_bool (x \<in> H') + of_bool (bdev (bufs s x) = ROOTDEV \<and> blockno (bufs s x) \<in> D')"
    and H: "H' \<subseteq> H" and D: "finite D'" "\<forall>n\<in>D'. \<exists>b. caches (bufs s) b n"
    and l: "\<exists>xs. ring (bufs t) xs \<and> set xs = {..<NBUF}" and w: "owns (pid (procs t me)) H' (slocks t)"
    and d: "disk t = disk s"
    and cl: "\<And>b n. caches (bufs s) b n \<Longrightarrow> b \<notin> H' \<Longrightarrow> n \<notin> D' \<Longrightarrow> bdata (bufs s b) = disk s n"
  shows "binv me H' D' t \<and> blk t = blk s"
proof -
  note pf = payload_fields [OF p]
  have c: "caches (bufs t) = caches (bufs s)" by (rule payload_caches [OF p])
  have "slot_ok (bufs t x) (x \<in> H') D'" if "x < NBUF" for x
    using slots_slot [OF binvD(3) [OF i] that] r [OF that] H unfolding slot_ok_def pf
    by (auto split: if_splits)
  then have s: "slots_ok (bufs t) H' D'"
    using D(2) slots_inj [OF binvD(3) [OF i]] unfolding slots_ok_def c by blast
  have "blk t = blk s"
    by (rule blk_eqI [OF binvD(3) [OF i] s]) (auto simp: c pf d)
  moreover have "\<forall>b n. caches (bufs t) b n \<and> b \<notin> H' \<and> n \<notin> D' \<longrightarrow> bdata (bufs t b) = disk t n"
    using cl by (simp add: c pf d)
  ultimately show ?thesis
    using s w l D(1) H binvD(1,5) [OF i] unfolding binv_def d by blast
qed

definition recounted :: "nat \<Rightarrow> u32 \<Rightarrow> (nat \<Rightarrow> buf) \<Rightarrow> nat \<Rightarrow> buf" where
  "recounted b k bs = bs(b := (bs b)\<lparr>refcnt := refcnt (bs b) + k\<rparr>)"

lemma recounted_fields [simp]:
  "payload (recounted b k bs x) = payload (bs x)" "bnext (recounted b k bs x) = bnext (bs x)"
  "bprev (recounted b k bs x) = bprev (bs x)"
  "refcnt (recounted b k bs x) = (if x = b then refcnt (bs b) + k else refcnt (bs x))"
  by (simp_all add: recounted_def payload_def)

lemma count_runs:
  assumes c: "calm me A s" "BcacheLock \<notin> A"
  shows "runs (do { s \<leftarrow> acquire BcacheLock s; release BcacheLock (s\<lparr>bufs := f (bufs s)\<rparr>) })
    (\<lambda>t. calm me A t \<and> bframe me s t \<and> bufs t = f (bufs s) \<and> disk t = disk s \<and> dtrace t = dtrace s \<and>
      procs t me = procs s me \<and> slocks t = slocks s)"
proof -
  obtain s1 where s1: "acquire BcacheLock s = Some s1" "calm me (insert BcacheLock A) s1" "quiet me s s1"
      "\<forall>bs. runs (release BcacheLock (s1\<lparr>bufs := bs\<rparr>)) (\<lambda>t. calm me A t \<and> quiet me (s1\<lparr>bufs := bs\<rparr>) t)"
    by (rule bcache_locked [OF c])
  note q1 = quiet_bframe [OF s1(3)]
  obtain t where t: "release BcacheLock (s1\<lparr>bufs := f (bufs s)\<rparr>) = Some t" "calm me A t" "quiet me (s1\<lparr>bufs := f (bufs s)\<rparr>) t"
    using spec [OF s1(4), of "f (bufs s)"] by (auto elim: runsE)
  note q2 = quiet_bframe [OF t(3)]
  have "bframe me s t" using bframe_trans [OF bframe_trans [OF q1(1) bframe_upd(4)] q2(1)] .
  with s1(1) t(1,2) q1 q2 show ?thesis by (simp add: runs_def)
qed

lemma bpin_eq: "bpin b s = do { s \<leftarrow> acquire BcacheLock s; release BcacheLock (s\<lparr>bufs := recounted b 1 (bufs s)\<rparr>) }"
  by (simp add: bpin_def upd_buf_def recounted_def)

lemma bunpin_eq: "bunpin b s = do { s \<leftarrow> acquire BcacheLock s; release BcacheLock (s\<lparr>bufs := recounted b (- 1) (bufs s)\<rparr>) }"
  by (simp add: bunpin_def upd_buf_def recounted_def)

lemma held_caches: "binv me H D s \<Longrightarrow> b \<in> H \<Longrightarrow> caches (bufs s) b (blockno (bufs s b))"
  using binvD(1) [of me H D s] slots_slot [OF binvD(3), of me H D s b]
  by (auto simp: caches_def slot_ok_def split: if_splits)

lemma pinned_iff:
  assumes i: "binv me H D s" and b: "b \<in> H" and x: "x < NBUF"
  shows "bdev (bufs s x) = ROOTDEV \<and> blockno (bufs s x) = blockno (bufs s b) \<longleftrightarrow> x = b"
  using slots_inj [OF binvD(3) [OF i] held_caches [OF i b], of x] held_caches [OF i b] x by (auto simp: caches_def)

lemma bpin_runs:
  assumes c: "calm me A s" "fs_free A" and i: "binv me H D s" and b: "b \<in> H" "blockno (bufs s b) \<notin> D"
  shows "runs (bpin b s) (\<lambda>t. calm me A t \<and> binv me H (insert (blockno (bufs s b)) D) t \<and> untouched me H s t)"
proof -
  obtain t where t: "bpin b s = Some t" "calm me A t" "bframe me s t" "bufs t = recounted b 1 (bufs s)" "disk t = disk s"
    "dtrace t = dtrace s" "procs t me = procs s me" "slocks t = slocks s"
    using count_runs [of me A s "recounted b 1"] c by (auto simp: fs_free_def bpin_eq elim: runsE)
  let ?D = "insert (blockno (bufs s b)) D"
  have "binv me H ?D t \<and> blk t = blk s"
  proof (rule binv_recount [OF i])
    fix x assume x: "x < NBUF"
    have "refcnt (bufs s x) = of_bool (x \<in> H) + of_bool (bdev (bufs s x) = ROOTDEV \<and> blockno (bufs s x) \<in> D)"
      using slots_slot [OF binvD(3) [OF i] x] by (simp add: slot_ok_def)
    then show "refcnt (bufs t x) = of_bool (x \<in> H) + of_bool (bdev (bufs s x) = ROOTDEV \<and> blockno (bufs s x) \<in> ?D)"
      using pinned_iff [OF i b(1) x] b by (auto simp: t(4))
  next
    show "\<forall>n\<in>?D. \<exists>b. caches (bufs s) b n" using held_caches [OF i b(1)] binvD(3) [OF i] by (auto simp: slots_ok_def)
    show "\<exists>xs. ring (bufs t) xs \<and> set xs = {..<NBUF}" by (rule ringed_cong [OF binvD(8) [OF i]]) (simp add: t(4))
    show "owns (pid (procs t me)) H (slocks t)" using binvD(4) [OF i] by (simp add: t)
  qed (use binvD(2,6) [OF i] t(4,5) in auto)
  with t show ?thesis by (simp add: runs_def untouched_def payload_fields [OF recounted_fields(1)])
qed

lemma bunpin_runs:
  assumes c: "calm me A s" "fs_free A" and i: "binv me H D s" and b: "b \<in> H" "blockno (bufs s b) \<in> D"
  shows "runs (bunpin b s) (\<lambda>t. calm me A t \<and> binv me H (D - {blockno (bufs s b)}) t \<and> untouched me H s t)"
proof -
  obtain t where t: "bunpin b s = Some t" "calm me A t" "bframe me s t" "bufs t = recounted b (- 1) (bufs s)" "disk t = disk s"
    "dtrace t = dtrace s" "procs t me = procs s me" "slocks t = slocks s"
    using count_runs [of me A s "recounted b (- 1)"] c by (auto simp: fs_free_def bunpin_eq elim: runsE)
  let ?D = "D - {blockno (bufs s b)}"
  have "binv me H ?D t \<and> blk t = blk s"
  proof (rule binv_recount [OF i])
    fix x assume x: "x < NBUF"
    have "refcnt (bufs s x) = of_bool (x \<in> H) + of_bool (bdev (bufs s x) = ROOTDEV \<and> blockno (bufs s x) \<in> D)"
      using slots_slot [OF binvD(3) [OF i] x] by (simp add: slot_ok_def)
    then show "refcnt (bufs t x) = of_bool (x \<in> H) + of_bool (bdev (bufs s x) = ROOTDEV \<and> blockno (bufs s x) \<in> ?D)"
      using pinned_iff [OF i b(1) x] b by (auto simp: t(4))
  next
    show "\<forall>n\<in>?D. \<exists>b. caches (bufs s) b n" using binvD(3) [OF i] by (auto simp: slots_ok_def)
    show "\<exists>xs. ring (bufs t) xs \<and> set xs = {..<NBUF}" by (rule ringed_cong [OF binvD(8) [OF i]]) (simp add: t(4))
    show "owns (pid (procs t me)) H (slocks t)" using binvD(4) [OF i] by (simp add: t)
    fix x n assume x: "caches (bufs s) x n" "x \<notin> H" "n \<notin> ?D"
    then have "n \<noteq> blockno (bufs s b)" using slots_inj [OF binvD(3) [OF i] held_caches [OF i b(1)]] b(1) by blast
    with x show "bdata (bufs s x) = disk s n" using binvD(6) [OF i] by simp
  qed (use binvD(2) [OF i] t(4,5) in auto)
  with t show ?thesis by (simp add: runs_def untouched_def payload_fields [OF recounted_fields(1)])
qed

definition released :: "nat \<Rightarrow> (nat \<Rightarrow> buf) \<Rightarrow> nat \<Rightarrow> buf" where
  "released b bs = (let bs = recounted b (- 1) bs in if refcnt (bs b) = 0 then fronted b (unlinked b bs) else bs)"

lemma released_fields [simp]:
  "payload (released b bs x) = payload (bs x)"
  "refcnt (released b bs x) = (if x = b then refcnt (bs b) - 1 else refcnt (bs x))"
proof -
  show "payload (released b bs x) = payload (bs x)"
    using recounted_fields(1) [of b "- 1" bs x] by (simp add: released_def Let_def payload_def)
qed (simp add: released_def Let_def)

lemma released_ring:
  assumes "ring bs xs" and "b \<in> set xs"
  shows "\<exists>ys. ring (released b bs) ys \<and> set ys = set xs"
proof -
  have r: "ring (recounted b (- 1) bs) xs" by (rule ring_cong [OF assms(1)]) simp
  obtain ys zs where x: "xs = ys @ b # zs" using split_list [OF assms(2)] by blast
  have "ring (fronted b (unlinked b (recounted b (- 1) bs))) (b # ys @ zs)"
    by (rule fronted_ring [OF unlinked_ring]) (use r assms x in \<open>auto simp: ring_def\<close>)
  with r x show ?thesis by (auto simp: released_def Let_def)
qed

lemma brelse_eq:
  "brelse b s = do {
     (h, s) \<leftarrow> holdingsleep (BufLock b) s;
     if \<not> h then None
     else do {
       s \<leftarrow> releasesleep (BufLock b) s;
       do { s \<leftarrow> acquire BcacheLock s; release BcacheLock (s\<lparr>bufs := released b (bufs s)\<rparr>) } } }"
proof -
  have e: "do {
      let s = upd_buf b (\<lambda>x. x\<lparr>refcnt := refcnt x - 1\<rparr>) s;
      let s = (if refcnt (bufs s b) = 0
               then let s = upd_buf (bnext (bufs s b)) (\<lambda>x. x\<lparr>bprev := bprev (bufs s b)\<rparr>) s;
                        s = upd_buf (bprev (bufs s b)) (\<lambda>x. x\<lparr>bnext := bnext (bufs s b)\<rparr>) s
                    in link_front b s
               else s);
      release BcacheLock s } = release BcacheLock (s\<lparr>bufs := released b (bufs s)\<rparr>)" for s :: "'a bcache_scheme"
    by (simp add: upd_buf_def released_def recounted_def unlinked_def link_front_eq Let_def)
  show ?thesis unfolding brelse_def e by (rule refl)
qed

lemma brelse_runs:
  assumes c: "calm me A s" "fs_free A" and i: "binv me H D s" and b: "b \<in> H"
    and cl: "blockno (bufs s b) \<in> D \<or> bdata (bufs s b) = disk s (blockno (bufs s b))"
  shows "runs (brelse b s) (\<lambda>t. calm me A t \<and> binv me (H - {b}) D t \<and> untouched me H s t \<and> bufs t = released b (bufs s))"
proof -
  have bn: "b < NBUF" using binvD(1) [OF i] b by auto
  have l: "SleepLk (BufLock b) \<notin> A" "BcacheLock \<notin> A" "\<And>p. ProcLock p \<notin> A" using c(2) by (auto simp: fs_free_def)
  have h: "slocked (slocks s (BufLock b))" "slpid (slocks s (BufLock b)) = pid (procs s me)"
    using binvD(4) [OF i] b bn by (auto simp: owns_def)
  obtain s1 where s1: "holdingsleep (BufLock b) s = Some (True, s1)" "calm me A s1" "only_slocks me s s1" "slocks s1 = slocks s"
    using holdingsleep_runs [OF c(1) l(1) h] by (auto elim: runsE)
  obtain s2 where s2: "releasesleep (BufLock b) s1 = Some s2" "calm me A s2" "only_slocks me s1 s2"
    "slocks s2 = (slocks s1)(BufLock b := (slocks s1 (BufLock b))\<lparr>slocked := False, slpid := 0\<rparr>)"
    using releasesleep_runs [OF s1(2) l(1,3)] by (auto elim: runsE)
  have o: "only_slocks me s s2" using only_slocks_trans [OF s1(3) s2(3)] .
  obtain t where t: "do { s \<leftarrow> acquire BcacheLock s2; release BcacheLock (s\<lparr>bufs := released b (bufs s)\<rparr>) } = Some t"
    "calm me A t" "bframe me s2 t" "bufs t = released b (bufs s2)" "disk t = disk s2"
    "dtrace t = dtrace s2" "procs t me = procs s2 me" "slocks t = slocks s2"
    using count_runs [OF s2(2) l(2), of "released b"] by (auto elim: runsE)
  have bt: "bufs t = released b (bufs s)" and dt: "disk t = disk s" "dtrace t = dtrace s" "procs t me = procs s me"
    using t o by (simp_all add: only_slocks_def)
  have "binv me (H - {b}) D t \<and> blk t = blk s"
  proof (rule binv_recount [OF i])
    fix x assume x: "x < NBUF"
    have "refcnt (bufs s x) = of_bool (x \<in> H) + of_bool (bdev (bufs s x) = ROOTDEV \<and> blockno (bufs s x) \<in> D)"
      using slots_slot [OF binvD(3) [OF i] x] by (simp add: slot_ok_def)
    then show "refcnt (bufs t x) = of_bool (x \<in> H - {b}) + of_bool (bdev (bufs s x) = ROOTDEV \<and> blockno (bufs s x) \<in> D)"
      using b by (auto simp: bt)
  next
    show "\<forall>n\<in>D. \<exists>b. caches (bufs s) b n" using binvD(3) [OF i] by (auto simp: slots_ok_def)
    obtain xs where xs: "ring (bufs s) xs" "set xs = {..<NBUF}" using binvD(8) [OF i] by blast
    then show "\<exists>xs. ring (bufs t) xs \<and> set xs = {..<NBUF}" using released_ring [OF xs(1), of b] bn by (simp add: bt)
    show "owns (pid (procs t me)) (H - {b}) (slocks t)"
      using owns_drop [OF binvD(4) [OF i]] s1(4) s2(4) t(8) dt(3) by simp
    fix x n assume x: "caches (bufs s) x n" "x \<notin> H - {b}" "n \<notin> D"
    then show "bdata (bufs s x) = disk s n" using binvD(6) [OF i x(1)] cl by (cases "x = b") (auto simp: caches_def)
  qed (use binvD(2) [OF i] dt in \<open>auto simp: bt\<close>)
  moreover have "brelse b s = Some t" using s1(1) s2(1) t(1) by (simp add: brelse_eq)
  moreover have "bframe me s t" using bframe_trans [OF _ t(3)] o by (simp add: only_slocks_def)
  ultimately show ?thesis using t(2) dt by (simp add: runs_def untouched_def bt payload_fields [OF released_fields(1)])
qed

lemma bwrite_runs:
  assumes c: "calm me A s" "fs_free A" and i: "binv me H D s" and b: "b \<in> H"
  shows "runs (bwrite b s) (\<lambda>t. calm me A t \<and> binv me H D t \<and> bframe me s t \<and> bufs t = bufs s \<and> blk t = blk s \<and>
    disk t = (disk s)(blockno (bufs s b) := bdata (bufs s b)) \<and> dtrace t = dtrace s @ [(blockno (bufs s b), bdata (bufs s b))])"
proof -
  have bn: "b < NBUF" using binvD(1) [OF i] b by auto
  have l: "SleepLk (BufLock b) \<notin> A" using c(2) by (auto simp: fs_free_def)
  have h: "slocked (slocks s (BufLock b))" "slpid (slocks s (BufLock b)) = pid (procs s me)"
    using binvD(4) [OF i] b bn by (auto simp: owns_def)
  obtain s1 where s1: "holdingsleep (BufLock b) s = Some (True, s1)" "calm me A s1" "only_slocks me s s1" "slocks s1 = slocks s"
    using holdingsleep_runs [OF c(1) l h] by (auto elim: runsE)
  let ?n = "blockno (bufs s b)" and ?d = "bdata (bufs s b)"
  let ?t = "s1\<lparr>disk := (disk s)(?n := ?d), dtrace := dtrace s @ [(?n, ?d)]\<rparr>"
  have e: "bufs s1 = bufs s" "disk s1 = disk s" "dtrace s1 = dtrace s" "procs s1 me = procs s me" "bframe me s s1"
    using s1(3) by (simp_all add: only_slocks_def)
  have w: "bwrite b s = Some ?t" using s1(1) by (simp add: bwrite_def disk_transfer_def e)
  have cb: "caches (bufs s) b ?n" by (rule held_caches [OF i b])
  have ok: "slots_ok (bufs ?t) H D" using binvD(3) [OF i] by (simp add: e)
  have un: "x = b" if "caches (bufs s) x ?n" for x using slots_inj [OF binvD(3) [OF i] that cb] .
  have v: "blk ?t = blk s"
    by (rule blk_eqI [OF binvD(3) [OF i] ok]) (use cb in \<open>auto simp: e\<close>)
  have "length ?d = BSIZE" using slots_slot [OF binvD(3) [OF i] bn] by (simp add: slot_ok_def)
  then have "\<forall>n. length (disk ?t n) = BSIZE" using binvD(5) [OF i] by simp
  moreover have "\<forall>x n. caches (bufs ?t) x n \<and> x \<notin> H \<and> n \<notin> D \<longrightarrow> bdata (bufs ?t x) = disk ?t n"
    using binvD(6) [OF i] un b by (auto simp: e)
  ultimately have "binv me H D ?t"
    using binvD(1,2,3,4,8) [OF i] unfolding binv_def by (simp add: e s1(4))
  moreover have "bframe me s ?t" using bframe_trans [OF e(5) bframe_upd(3)] .
  ultimately show ?thesis using s1(2) w v by (simp add: runs_def e)
qed

text \<open>Writing into a held buffer.\<close>

lemma binv_set_data:
  assumes i: "binv me H D s" and b: "b \<in> H" and d: "length d = BSIZE"
  defines "t \<equiv> upd_buf b (\<lambda>x. x\<lparr>bdata := d\<rparr>) s"
  shows "binv me H D t" "blk t = (blk s)(blockno (bufs s b) := d)"
proof -
  have f: "bufs t x = (bufs s x)\<lparr>bdata := (if x = b then d else bdata (bufs s x))\<rparr>" "disk t = disk s"
    "slocks t = slocks s" "procs t = procs s" for x
    by (simp_all add: t_def upd_buf_def)
  have cb: "caches (bufs s) b (blockno (bufs s b))" by (rule held_caches [OF i b])
  have c: "caches (bufs t) = caches (bufs s)" by (simp add: fun_eq_iff caches_def f)
  have "slot_ok (bufs t x) (x \<in> H) D" if "x < NBUF" for x
    using slots_slot [OF binvD(3) [OF i] that] d by (simp add: slot_ok_def f)
  then have ok: "slots_ok (bufs t) H D"
    using binvD(3) [OF i] unfolding slots_ok_def c by blast
  have r: "\<exists>xs. ring (bufs t) xs \<and> set xs = {..<NBUF}" by (rule ringed_cong [OF binvD(8) [OF i]]) (simp add: f)
  have "\<forall>x n. caches (bufs t) x n \<and> x \<notin> H \<and> n \<notin> D \<longrightarrow> bdata (bufs t x) = disk t n"
    using binvD(6) [OF i] b by (auto simp: c f)
  with r ok show "binv me H D t" using binvD(1,2,4,5) [OF i] unfolding binv_def f by blast
  show "blk t = (blk s)(blockno (bufs s b) := d)"
  proof
    fix n
    show "blk t n = ((blk s)(blockno (bufs s b) := d)) n"
    proof (cases "\<exists>x. caches (bufs s) x n")
      case True
      then obtain x where x: "caches (bufs s) x n" by blast
      then have "x = b \<longleftrightarrow> n = blockno (bufs s b)" using slots_inj [OF binvD(3) [OF i] _ cb] by (auto simp: caches_def)
      with x show ?thesis using blk_caches [OF ok, of x n] blk_caches [OF binvD(3) [OF i] x] by (simp add: c f)
    next
      case False
      then have "n \<noteq> blockno (bufs s b)" using cb by blast
      with False show ?thesis using blk_disk [of t n] blk_disk [of s n] by (simp add: c f)
    qed
  qed
qed

lemma untouched_trans [trans]: "untouched me H s t \<Longrightarrow> untouched me H t u \<Longrightarrow> untouched me H s u"
  by (auto simp: untouched_def intro: bframe_trans)

lemma untouched_mono: "untouched me H s t \<Longrightarrow> H' \<subseteq> H \<Longrightarrow> untouched me H' s t"
  by (auto simp: untouched_def)

section \<open>Initialisation\<close>

lemma calm_initlock: "calm me {} s \<Longrightarrow> calm me {} (initlock l nm s)"
  by (simp add: calm_def initlock_def free_lock_def)

lemma calm_initsleeplock: "calm me {} s \<Longrightarrow> calm me {} (initsleeplock l nm s)"
  by (simp add: initsleeplock_def calm_initlock Let_def)

lemma initsleeplock_fields [simp]:
  "bufs (initsleeplock l nm s) = bufs s" "disk (initsleeplock l nm s) = disk s" "procs (initsleeplock l nm s) = procs s"
  "dtrace (initsleeplock l nm s) = dtrace s"
  "slocked (slocks (initsleeplock l nm s) k) \<longleftrightarrow> k \<noteq> l \<and> slocked (slocks s k)"
  by (simp_all add: initsleeplock_def initlock_def upd_slock_def Let_def)

lemma binit_loop_fields:
  "distinct bs \<Longrightarrow> ring (bufs s) xs \<Longrightarrow> set bs \<inter> set xs = {} \<Longrightarrow> bhead \<notin> set bs \<Longrightarrow> calm me {} s \<Longrightarrow>
     ring (bufs (binit_loop bs s)) (rev bs @ xs) \<and> calm me {} (binit_loop bs s) \<and>
     (\<forall>x. payload (bufs (binit_loop bs s) x) = payload (bufs s x) \<and> refcnt (bufs (binit_loop bs s) x) = refcnt (bufs s x)) \<and>
     disk (binit_loop bs s) = disk s \<and> procs (binit_loop bs s) = procs s \<and>
     (\<forall>b. slocked (slocks (binit_loop bs s) (BufLock b)) \<longleftrightarrow> b \<notin> set bs \<and> slocked (slocks s (BufLock b)))"
proof (induction bs arbitrary: s xs)
  case (Cons b bs)
  let ?s = "link_front b (initsleeplock (BufLock b) ''buffer'' s)"
  have e: "bufs ?s = fronted b (bufs s)" by (simp add: link_front_eq)
  have "ring (bufs ?s) (b # xs)" unfolding e by (rule fronted_ring) (use Cons.prems in auto)
  moreover have "calm me {} ?s" using calm_initsleeplock [OF Cons.prems(5)] by (simp add: link_front_eq calm_def)
  ultimately have "ring (bufs (binit_loop bs ?s)) (rev bs @ b # xs) \<and> calm me {} (binit_loop bs ?s) \<and>
     (\<forall>x. payload (bufs (binit_loop bs ?s) x) = payload (bufs ?s x) \<and> refcnt (bufs (binit_loop bs ?s) x) = refcnt (bufs ?s x)) \<and>
     disk (binit_loop bs ?s) = disk ?s \<and> procs (binit_loop bs ?s) = procs ?s \<and>
     (\<forall>c. slocked (slocks (binit_loop bs ?s) (BufLock c)) \<longleftrightarrow> c \<notin> set bs \<and> slocked (slocks ?s (BufLock c)))"
    by (intro Cons.IH) (use Cons.prems in auto)
  moreover have "payload (bufs ?s x) = payload (bufs s x)" "refcnt (bufs ?s x) = refcnt (bufs s x)" for x
    unfolding e by (simp_all add: payload_def)
  moreover have "disk ?s = disk s" "procs ?s = procs s"
    "slocked (slocks ?s (BufLock c)) \<longleftrightarrow> c \<noteq> b \<and> slocked (slocks s (BufLock c))" for c
    by (simp_all add: link_front_eq)
  ultimately show ?case by auto
qed (simp add: ring_def)

text \<open>Memory the loader has cleared: no buffer in use.\<close>

definition cold :: "'a bcache_scheme \<Rightarrow> bool" where
  "cold s \<longleftrightarrow> (\<forall>b<NBUF. length (bdata (bufs s b)) = BSIZE \<and> refcnt (bufs s b) = 0 \<and> bdev (bufs s b) = 0 \<and> \<not> bvalid (bufs s b)) \<and>
     (\<forall>n. length (disk s n) = BSIZE)"

lemma binit_ok:
  assumes c: "calm me {} s" and cold: "cold s"
  shows "calm me {} (binit s) \<and> binv me {} {} (binit s) \<and> disk (binit s) = disk s"
proof -
  let ?s = "upd_buf bhead (\<lambda>x. x\<lparr>bnext := bhead\<rparr>) (upd_buf bhead (\<lambda>x. x\<lparr>bprev := bhead\<rparr>) (initlock BcacheLock ''bcache'' s))"
  have r: "ring (bufs ?s) []" by (simp add: ring_def upd_buf_def)
  have e: "payload (bufs ?s x) = payload (bufs s x)" "refcnt (bufs ?s x) = refcnt (bufs s x)"
    "disk ?s = disk s" "procs ?s = procs s" for x
    by (simp_all add: upd_buf_def initlock_def payload_def)
  have b: "binit s = binit_loop [0..<NBUF] ?s" by (simp add: binit_def Let_def)
  have f: "ring (bufs (binit s)) (rev [0..<NBUF]) \<and> calm me {} (binit s) \<and>
     (\<forall>x. payload (bufs (binit s) x) = payload (bufs s x) \<and> refcnt (bufs (binit s) x) = refcnt (bufs s x)) \<and>
     disk (binit s) = disk s \<and> (\<forall>b<NBUF. \<not> slocked (slocks (binit s) (BufLock b)))"
    using binit_loop_fields [of "[0..<NBUF]" ?s "[]" me] r calm_initlock [OF c] unfolding b e by auto
  have nc: "\<not> caches (bufs (binit s)) b n" for b n
    using f cold payload_fields(2) [of "bufs (binit s) b" "bufs s b"] by (auto simp: caches_def cold_def ROOTDEV_def)
  have "slot_ok (bufs (binit s) x) False {}" if "x < NBUF" for x
  proof -
    have p: "payload (bufs (binit s) x) = payload (bufs s x)" using f by blast
    show ?thesis using f cold that by (simp add: slot_ok_def payload_fields [OF p] cold_def ROOTDEV_def)
  qed
  then have "slots_ok (bufs (binit s)) {} {}" using nc by (simp add: slots_ok_def)
  moreover have "\<exists>xs. ring (bufs (binit s)) xs \<and> set xs = {..<NBUF}"
    using f by (intro exI [of _ "rev [0..<NBUF]"]) auto
  ultimately show ?thesis
    using f nc cold unfolding binv_def by (simp add: owns_def cold_def)
qed

section \<open>The cache is a map of blocks\<close>

datatype request = Get u32 | Put u32 bytes

text \<open>What a client of the cache does for one request, and what it should see.\<close>

definition get_block :: "u32 \<Rightarrow> 'a bcache_scheme \<Rightarrow> (bytes \<times> 'a bcache_scheme) option" where
  "get_block n s = do { (b, s) \<leftarrow> bread ROOTDEV n s; let d = bdata (bufs s b); s \<leftarrow> brelse b s; Some (d, s) }"

definition write_block :: "u32 \<Rightarrow> bytes \<Rightarrow> 'a bcache_scheme \<Rightarrow> 'a bcache_scheme option" where
  "write_block n d s = do {
     (b, s) \<leftarrow> bread ROOTDEV n s;
     let s = upd_buf b (\<lambda>x. x\<lparr>bdata := d\<rparr>) s;
     s \<leftarrow> bwrite b s;
     brelse b s }"

primrec serve :: "(u32 \<Rightarrow> 's \<Rightarrow> (bytes \<times> 's) option) \<Rightarrow> (u32 \<Rightarrow> bytes \<Rightarrow> 's \<Rightarrow> 's option) \<Rightarrow> request list \<Rightarrow> 's \<Rightarrow>
    (bytes list \<times> 's) option" where
  "serve get put [] s = Some ([], s)"
| "serve get put (q # qs) s = (case q of
     Get n \<Rightarrow> do { (d, s) \<leftarrow> get n s; (ds, s) \<leftarrow> serve get put qs s; Some (d # ds, s) }
   | Put n d \<Rightarrow> do { s \<leftarrow> put n d s; serve get put qs s })"

primrec serve_map :: "request list \<Rightarrow> (u32 \<Rightarrow> bytes) \<Rightarrow> bytes list \<times> (u32 \<Rightarrow> bytes)" where
  "serve_map [] m = ([], m)"
| "serve_map (q # qs) m = (case q of
     Get n \<Rightarrow> (let (ds, m') = serve_map qs m in (m n # ds, m'))
   | Put n d \<Rightarrow> serve_map qs (m(n := d)))"

locale block_store =
  fixes inv :: "'s \<Rightarrow> bool" and view :: "'s \<Rightarrow> u32 \<Rightarrow> bytes"
    and get :: "u32 \<Rightarrow> 's \<Rightarrow> (bytes \<times> 's) option" and put :: "u32 \<Rightarrow> bytes \<Rightarrow> 's \<Rightarrow> 's option"
  assumes get_runs: "inv s \<Longrightarrow> runs (get n s) (\<lambda>(d, t). d = view s n \<and> inv t \<and> view t = view s)"
    and put_runs: "inv s \<Longrightarrow> length d = BSIZE \<Longrightarrow> runs (put n d s) (\<lambda>t. inv t \<and> view t = (view s)(n := d))"
begin

lemma serve_refines:
  "inv s \<Longrightarrow> \<forall>n d. Put n d \<in> set qs \<longrightarrow> length d = BSIZE \<Longrightarrow>
     runs (serve get put qs s) (\<lambda>(ds, t). inv t \<and> serve_map qs (view s) = (ds, view t))"
proof (induction qs arbitrary: s)
  case (Cons q qs)
  show ?case
  proof (cases q)
    case (Get n)
    obtain t where t: "get n s = Some (view s n, t)" "inv t" "view t = view s"
      using get_runs [OF Cons.prems(1), of n] by (auto elim!: runsE)
    with Cons.IH [OF t(2)] Cons.prems(2) Get show ?thesis by (auto simp: runs_def)
  next
    case (Put n d)
    obtain t where t: "put n d s = Some t" "inv t" "view t = (view s)(n := d)"
      using put_runs [OF Cons.prems(1), of d n] Cons.prems(2) Put by (auto elim!: runsE)
    with Cons.IH [OF t(2)] Cons.prems(2) Put show ?thesis by (auto simp: runs_def simp del: fun_upd_apply)
  qed
qed (simp add: runs_def)

end

text \<open>The cache of the kernel provides this, whichever blocks it evicts on the way.\<close>

definition idle :: "'a bcache_scheme \<Rightarrow> bool" where
  "idle s \<longleftrightarrow> (\<exists>me. calm me {} s \<and> binv me {} {} s)"

lemma fs_free_empty [simp]: "fs_free {}"
  by (simp add: fs_free_def)

lemma blk_clean: "binv me {} D s \<Longrightarrow> n \<notin> D \<Longrightarrow> blk s n = disk s n"
  using binvD(6) [of me "{}" D s _ n] blk_caches [OF binvD(3), of me "{}" D s _ n] blk_disk [of s n]
  by (cases "\<exists>b. caches (bufs s) b n") auto

lemma untouchedD:
  assumes "untouched me H s t"
  shows "bframe me s t" "disk t = disk s" "dtrace t = dtrace s" "blk t = blk s"
  using assms by (auto simp: untouched_def)

lemma get_block_runs: "idle s \<Longrightarrow> runs (get_block n s) (\<lambda>(d, t). d = disk s n \<and> idle t \<and> disk t = disk s)"
proof -
  assume "idle s"
  then obtain me where c: "calm me {} s" "binv me {} {} s" by (auto simp: idle_def)
  obtain b s1 where 1: "bread ROOTDEV n s = Some (b, s1)" "caches (bufs s1) b n" "bdata (bufs s1 b) = blk s n" "calm me {} s1"
    "binv me {b} {} s1" "untouched me {} s s1"
    using bread_runs [OF c(1) fs_free_empty c(2), of n] by (auto simp: bio_defs elim!: runsE)
  note u = untouchedD [OF 1(6)]
  have d: "blk s n = disk s n" using blk_clean [OF c(2)] by simp
  obtain t where 2: "brelse b s1 = Some t" "calm me {} t" "binv me ({b} - {b}) {} t" "untouched me {b} s1 t"
    using brelse_runs [OF 1(4) fs_free_empty 1(5), of b] 1(2,3) u d by (auto simp: caches_def elim!: runsE)
  with 1(1,3) u d untouchedD(2) [OF 2(4)] show ?thesis by (auto simp: runs_def get_block_def idle_def)
qed

lemma write_block_runs:
  "idle s \<Longrightarrow> length d = BSIZE \<Longrightarrow> runs (write_block n d s) (\<lambda>t. idle t \<and> disk t = (disk s)(n := d))"
proof -
  assume "idle s" and len: "length d = BSIZE"
  then obtain me where c: "calm me {} s" "binv me {} {} s" by (auto simp: idle_def)
  obtain b s1 where 1: "bread ROOTDEV n s = Some (b, s1)" "caches (bufs s1) b n" "calm me {} s1" "binv me {b} {} s1" "untouched me {} s s1"
    using bread_runs [OF c(1) fs_free_empty c(2), of n] by (auto simp: bio_defs elim!: runsE)
  let ?s2 = "upd_buf b (\<lambda>x. x\<lparr>bdata := d\<rparr>) s1"
  have f: "disk ?s2 = disk s" "bdata (bufs ?s2 b) = d" "blockno (bufs ?s2 b) = n" "calm me {} ?s2"
    using 1 untouchedD [OF 1(5)] by (simp_all add: caches_def) (simp_all add: upd_buf_def)
  have i: "binv me {b} {} ?s2" using binv_set_data(1) [OF 1(4) _ len] by simp
  obtain s3 where 3: "bwrite b ?s2 = Some s3" "calm me {} s3" "binv me {b} {} s3" "bufs s3 = bufs ?s2" "disk s3 = (disk s)(n := d)"
    using bwrite_runs [OF f(4) fs_free_empty i, of b] f by (auto elim!: runsE)
  obtain t where 4: "brelse b s3 = Some t" "calm me {} t" "binv me ({b} - {b}) {} t" "untouched me {b} s3 t"
    using brelse_runs [OF 3(2) fs_free_empty 3(3), of b] 3(4,5) f by (auto elim!: runsE)
  with 1(1) 3 untouchedD(2) [OF 4(4)] show ?thesis by (auto simp: runs_def write_block_def idle_def)
qed

interpretation cache: block_store idle disk get_block write_block
  by unfold_locales (rule get_block_runs, assumption, rule write_block_runs)

section \<open>Properties\<close>

text \<open>C5. The buffer cache is transparent. From \<open>binit\<close> on, any sequence of block reads and
  written-through block writes returns, whatever the cache evicts, yields what the same requests yield
  on a plain map of blocks, and leaves that map on the disk.\<close>

theorem cache_refines_map:
  assumes "calm me {} s" and "cold s" and "\<forall>n d. Put n d \<in> set qs \<longrightarrow> length d = BSIZE"
  shows "\<exists>ds t. serve get_block write_block qs (binit s) = Some (ds, t) \<and> serve_map qs (disk s) = (ds, disk t)"
proof -
  have "idle (binit s)" "disk (binit s) = disk s" using binit_ok [OF assms(1,2)] by (auto simp: idle_def)
  with cache.serve_refines [of "binit s" qs] assms(3) show ?thesis by (auto simp: runs_def)
qed

definition boot_cache :: "(u32 \<Rightarrow> bytes) \<Rightarrow> 'a \<Rightarrow> 'a bcache_scheme" where
  "boot_cache d m = \<lparr>hart = 0, cpus = (\<lambda>_. \<lparr>cproc = Some 0, noff = 0, intena = False, sie = True\<rparr>),
     locks = (\<lambda>_. \<lparr>locked = False, lname = [], lcpu = None\<rparr>), mem = (\<lambda>_. 0), kend = PHYSTOP - 65536, freelist = 0,
     etext = KERNBASE + 32768, trampoline = KERNBASE + 28672, uservec = KERNBASE + 28672,
     userret = KERNBASE + 28828, forkret_addr = KERNBASE + 8192, usertrap_addr = KERNBASE + 12288,
     kernelvec = KERNBASE + 16384, kernel_pagetable = 0, satp = (\<lambda>_. 0),
     procs = (\<lambda>_. no_proc)(0 := no_proc\<lparr>pstate := RUNNING, pid := 1\<rparr>), nextpid = 2, initproc = Some 0, ticks = 0,
     starvation_counter = 0, panicking = False, panicked = False, uart_log = [], uart_in = [], uart_idle = True, tx_busy = False,
     cons_buf = (\<lambda>_. 0), cons_r = 0, cons_w = 0, cons_e = 0, devsw_read = (\<lambda>_. None), devsw_write = (\<lambda>_. None),
     slocks = (\<lambda>_. \<lparr>slocked = False, slname = [], slpid = 0\<rparr>),
     bufs = (\<lambda>_. \<lparr>bvalid = False, bdisk = False, bdev = 0, blockno = 0, refcnt = 0, bprev = 0, bnext = 0, bdata = replicate BSIZE 0\<rparr>),
     disk = d, dtrace = [], \<dots> = m\<rparr>"

definition zero_disk :: "u32 \<Rightarrow> bytes" where
  "zero_disk = (\<lambda>_. replicate BSIZE 0)"

lemma boot_cache_cold:
  "\<forall>n. length (d n) = BSIZE \<Longrightarrow> calm 0 {} (boot_cache d m) \<and> cold (boot_cache d m) \<and> disk (boot_cache d m) = d"
  by (simp add: boot_cache_def calm_def cold_def free_lock_def)

lemma zero_disk_length: "\<forall>n. length (zero_disk n) = BSIZE"
  by (simp add: zero_disk_def)

theorem cache_refines_map_witness:
  "\<exists>t. serve get_block write_block [Get 3, Put 3 (replicate BSIZE 7), Get 3] (binit (boot_cache zero_disk ())) =
     Some ([replicate BSIZE 0, replicate BSIZE 7], t) \<and> disk t 3 = replicate BSIZE 7"
proof -
  note c = boot_cache_cold [OF zero_disk_length, of "()"]
  have "\<forall>n d. Put n d \<in> set [Get 3, Put 3 (replicate BSIZE 7), Get 3] \<longrightarrow> length d = BSIZE" by simp
  from cache_refines_map [OF conjunct1 [OF c] conjunct1 [OF conjunct2 [OF c]] this] c
  obtain ds t where t: "serve get_block write_block [Get 3, Put 3 (replicate BSIZE 7), Get 3] (binit (boot_cache zero_disk ())) = Some (ds, t)"
    "serve_map [Get 3, Put 3 (replicate BSIZE 7), Get 3] zero_disk = (ds, disk t)" by auto
  have "serve_map [Get 3, Put 3 (replicate BSIZE 7), Get 3] zero_disk =
      ([replicate BSIZE 0, replicate BSIZE 7], zero_disk(3 := replicate BSIZE 7))" by (simp add: zero_disk_def)
  with t(2) have "ds = [replicate BSIZE 0, replicate BSIZE 7]" "disk t = zero_disk(3 := replicate BSIZE 7)" by (simp_all only: prod.inject)
  then have "ds = [replicate BSIZE 0, replicate BSIZE 7]" "disk t 3 = replicate BSIZE 7" by simp_all
  with t(1) show ?thesis by blast
qed

text \<open>C11. Least recently used. \<open>brelse\<close> of the last reference moves the buffer to the front of the list
  and keeps the order of the others, and the buffer that the next miss will take is the one nearest to
  the tail that nobody uses.\<close>

theorem lru_order:
  assumes "calm me A s" and "fs_free A" and "binv me H D s" and "b \<in> H" and "blockno (bufs s b) \<notin> D"
    and "bdata (bufs s b) = disk s (blockno (bufs s b))" and "ring (bufs s) (ys @ b # zs)"
  shows "\<exists>t. brelse b s = Some t \<and> ring (bufs t) (b # ys @ zs) \<and>
    find_unused (bufs t) (bprev (bufs t bhead)) = Some (List.find (\<lambda>x. refcnt (bufs t x) = 0) (rev (ys @ zs) @ [b]))"
proof -
  obtain t where t: "brelse b s = Some t" "bufs t = released b (bufs s)"
    using brelse_runs [OF assms(1-4)] assms(6) by (auto elim!: runsE)
  have "b < NBUF" using binvD(1) [OF assms(3)] assms(4) by auto
  then have "refcnt (bufs s b) = 1" using slots_slot [OF binvD(3) [OF assms(3)]] assms(4,5) by (simp add: slot_ok_def)
  then have e: "released b (bufs s) = fronted b (unlinked b (recounted b (- 1) (bufs s)))" by (simp add: released_def Let_def)
  have "ring (recounted b (- 1) (bufs s)) (ys @ b # zs)" by (rule ring_cong [OF assms(7)]) simp
  then have "ring (bufs t) (b # ys @ zs)"
    unfolding t(2) e by (intro fronted_ring unlinked_ring) (use assms(7) in \<open>auto simp: ring_def\<close>)
  with ring_find_unused [OF this] t(1) show ?thesis by simp
qed

theorem lru_order_witness:
  "\<exists>b s t zs. bread ROOTDEV 3 (binit (boot_cache zero_disk ())) = Some (b, s) \<and> brelse b s = Some t \<and> ring (bufs t) (b # zs)"
proof -
  note c = boot_cache_cold [OF zero_disk_length, of "()"]
  let ?s = "binit (boot_cache zero_disk ())"
  have i: "calm 0 {} ?s" "binv 0 {} {} ?s" using binit_ok c by blast+
  obtain b s where s: "bread ROOTDEV 3 ?s = Some (b, s)" "caches (bufs s) b 3" "bdata (bufs s b) = blk ?s 3" "calm 0 {} s"
    "binv 0 {b} {} s" "untouched 0 {} ?s s"
    using bread_runs [OF i(1) fs_free_empty i(2), of 3] by (auto simp: bio_defs elim!: runsE)
  obtain xs where xs: "ring (bufs s) xs" "set xs = {..<NBUF}" using binvD(8) [OF s(5)] by blast
  then obtain ys zs where "xs = ys @ b # zs" using s(2) by (metis caches_def lessThan_iff split_list)
  with lru_order [OF s(4) fs_free_empty s(5), of b ys zs] s xs blk_clean [OF i(2), of 3] untouchedD(2) [OF s(6)] show ?thesis
    by (auto simp: caches_def)
qed

end
