(* ===== verification/Logging.thy ===== *)
theory Logging
  imports Log Bcache
begin

text \<open>
  What a commit and a recovery do to the disk, write by write. \<open>put_block\<close> applied to a list of
  writes gives the disk after them; the writes of \<open>commit\<close> are the logged blocks, the header, the
  home blocks and the cleared header, and recovery of the disk left by any prefix of them finds the
  state before the transaction or the state after it.
\<close>

section \<open>Words in blocks\<close>

lemma splice_length [simp]: "i + length new \<le> length d \<Longrightarrow> length (splice i new d) = length d"
  by (simp add: splice_def)

lemma splice_take: "i + length new \<le> length d \<Longrightarrow> take (length new) (drop i (splice i new d)) = new"
  by (simp add: splice_def)

lemma splice_other:
  assumes "i + length new \<le> length d" and "j + k \<le> i \<or> i + length new \<le> j"
  shows "take k (drop j (splice i new d)) = take k (drop j d)"
proof (rule nth_equalityI)
  show "length (take k (drop j (splice i new d))) = length (take k (drop j d))" using assms(1) by simp
  fix x assume "x < length (take k (drop j (splice i new d)))"
  then have x: "x < k" "j + x < length d" using assms(1) by auto
  have "splice i new d ! (j + x) = d ! (j + x)"
    using assms x by (cases "j + k \<le> i") (auto simp: splice_def nth_append)
  with x assms(1) show "take k (drop j (splice i new d)) ! x = take k (drop j d) ! x" by simp
qed

lemma put32_length [simp]: "i + 4 \<le> length d \<Longrightarrow> length (put32 i v d) = length d"
  by (simp add: put32_def)

lemma get_put32 [simp]: "i + 4 \<le> length d \<Longrightarrow> get32 (put32 i v d) i = v"
  using splice_take [of i "le_bytes 4 v" d] by (simp add: get32_def put32_def le_word_le_bytes)

lemma get_put32_other: "i + 4 \<le> length d \<Longrightarrow> j + 4 \<le> i \<or> i + 4 \<le> j \<Longrightarrow> get32 (put32 i v d) j = get32 d j"
  using splice_other [of i "le_bytes 4 v" d j 4] by (simp add: get32_def put32_def)

lemma put_blocks_length [simp]: "4 + 4 * (i + length bs) \<le> length d \<Longrightarrow> length (put_blocks i bs d) = length d"
  by (induction bs arbitrary: i d) simp_all

lemma get_put_blocks_before:
  "4 + 4 * (i + length bs) \<le> length d \<Longrightarrow> j + 4 \<le> 4 + 4 * i \<Longrightarrow> get32 (put_blocks i bs d) j = get32 d j"
  by (induction bs arbitrary: i d) (simp_all add: get_put32_other)

lemma get_put_blocks:
  "4 + 4 * (i + length bs) \<le> length d \<Longrightarrow> k < length bs \<Longrightarrow> get32 (put_blocks i bs d) (4 + 4 * (i + k)) = bs ! k"
proof (induction bs arbitrary: i d k)
  case (Cons b bs)
  show ?case
  proof (cases k)
    case 0
    with Cons.prems show ?thesis by (simp add: get_put_blocks_before)
  next
    case (Suc m)
    with Cons.prems Cons.IH [of "i + 1" "put32 (4 + 4 * i) b d" m] show ?thesis by (simp add: add.commute)
  qed
qed simp

section \<open>Sequences of disk writes\<close>

definition put_block :: "(u32 \<times> bytes) \<Rightarrow> (u32 \<Rightarrow> bytes) \<Rightarrow> u32 \<Rightarrow> bytes" where
  "put_block w d = d(fst w := snd w)"

abbreviation after :: "(u32 \<times> bytes) list \<Rightarrow> (u32 \<Rightarrow> bytes) \<Rightarrow> u32 \<Rightarrow> bytes" where
  "after ws \<equiv> fold put_block ws"

lemma put_block_pair [simp]: "put_block (a, x) d = d(a := x)"
  by (simp add: put_block_def)

lemma after_other: "n \<notin> fst ` set ws \<Longrightarrow> after ws d n = d n"
  by (induction ws arbitrary: d) auto

lemma after_cong: "d n = e n \<Longrightarrow> after ws d n = after ws e n"
proof (induction ws arbitrary: d e)
  case (Cons w ws)
  obtain a x where w: "w = (a, x)" by (cases w)
  have "after ws (d(a := x)) n = after ws (e(a := x)) n"
    by (rule Cons.IH) (use Cons.prems in \<open>simp add: fun_upd_def\<close>)
  then show ?case by (simp only: w fold_simps put_block_pair)
qed simp

lemma after_map:
  "distinct (map f xs) \<Longrightarrow> x \<in> set xs \<Longrightarrow> after (map (\<lambda>x. (f x, g x)) xs) d (f x) = g x"
proof (induction xs arbitrary: d)
  case (Cons y xs)
  show ?case
  proof (cases "x = y")
    case True
    then have "f x \<notin> fst ` set (map (\<lambda>x. (f x, g x)) xs)" using Cons.prems(1) by (auto simp: image_iff)
    from after_other [OF this] show ?thesis using True by simp
  next
    case False
    with Cons.prems Cons.IH show ?thesis by simp
  qed
qed simp

lemma blk_length: "binv me H D s \<Longrightarrow> length (blk s n) = BSIZE"
  using binvD(5) [of me H D s n] blk_caches [OF binvD(3), of me H D s _ n] blk_disk [of s n]
    slots_slot [OF binvD(3), of me H D s]
  by (cases "\<exists>b. caches (bufs s) b n") (auto simp: caches_def slot_ok_def)

lemma bframe_log:
  assumes "bframe me s t"
  shows "lh_n t = lh_n s" "lh_block t = lh_block s" "lstart t = lstart s" "ldev t = ldev s"
    "outstanding t = outstanding s" "committing t = committing s" "lh_list t = lh_list s"
proof -
  obtain c l p sl b d dt where t: "t = s\<lparr>cpus := c, locks := l, procs := p, slocks := sl, bufs := b, disk := d, dtrace := dt\<rparr>"
    using assms by (rule bframeE)
  then show "lh_n t = lh_n s" "lh_block t = lh_block s" "lstart t = lstart s" "ldev t = ldev s"
    "outstanding t = outstanding s" "committing t = committing s" "lh_list t = lh_list s"
    by (simp_all add: lh_list_def)
qed

text \<open>The state between two calls of the log: nothing held, the blocks \<open>D\<close> pinned.\<close>

definition rest :: "nat \<Rightarrow> u32 set \<Rightarrow> 'a bcache_scheme \<Rightarrow> bool" where
  "rest me D s \<longleftrightarrow> calm me {} s \<and> binv me {} D s"

text \<open>What one write through the cache leaves.\<close>

definition wrote :: "nat \<Rightarrow> (u32 \<times> bytes) list \<Rightarrow> 'a bcache_scheme \<Rightarrow> 'a bcache_scheme \<Rightarrow> bool" where
  "wrote me ws s t \<longleftrightarrow> bframe me s t \<and> blk t = after ws (blk s) \<and> disk t = after ws (disk s) \<and> dtrace t = dtrace s @ ws"

lemma wrote_trans: "wrote me ws s t \<Longrightarrow> wrote me vs t u \<Longrightarrow> wrote me (ws @ vs) s u"
  by (auto simp: wrote_def intro: bframe_trans)

lemma wrote_refl: "wrote me [] s s"
  by (simp add: wrote_def)

lemma pinned_cached: "binv me H D s \<Longrightarrow> n \<in> D \<Longrightarrow> \<exists>b. caches (bufs s) b n"
  using binvD(3) [of me H D s] by (auto simp: slots_ok_def)

lemma caches_blockno: "caches bs b n \<Longrightarrow> blockno (bs b) = n"
  by (simp add: caches_def)

lemma untouched_held:
  assumes "untouched me H s t" and "h \<in> H"
  shows "blockno (bufs t h) = blockno (bufs s h)" "bdata (bufs t h) = bdata (bufs s h)"
  using assms by (auto simp: untouched_def)

lemma set_data_fields [simp]:
  "bufs (set_data b d s) = (bufs s)(b := (bufs s b)\<lparr>bdata := d\<rparr>)" "disk (set_data b d s) = disk s"
  "dtrace (set_data b d s) = dtrace s" "calm me A (set_data b d s) = calm me A s" "bframe me s (set_data b d s)"
  by (simp_all add: set_data_def) (simp_all add: upd_buf_def)

lemma binv_set_data': "binv me H D s \<Longrightarrow> b \<in> H \<Longrightarrow> length d = BSIZE \<Longrightarrow>
    binv me H D (set_data b d s) \<and> blk (set_data b d s) = (blk s)(blockno (bufs s b) := d)"
  using binv_set_data [of me H D s b d] by (simp add: set_data_def)

text \<open>Two blocks in hand: the first one that is written is not pinned, or is.\<close>

lemma two_reads:
  assumes r: "rest me D s" and ne: "m \<noteq> n"
    and room: "(\<exists>b. caches (bufs s) b m) \<or> card D < NBUF"
    and room2: "n \<in> D \<or> card D + 1 < NBUF"
  obtains a s1 b s2 where "bread ROOTDEV m s = Some (a, s1)" "bframe me s s1" "bread ROOTDEV n s1 = Some (b, s2)"
    "a \<noteq> b" "calm me {} s2" "binv me {b, a} D s2" "bframe me s s2" "disk s2 = disk s" "dtrace s2 = dtrace s" "blk s2 = blk s"
    "blockno (bufs s2 a) = m" "blockno (bufs s2 b) = n" "bdata (bufs s2 a) = blk s m" "bdata (bufs s2 b) = blk s n"
proof -
  have c: "calm me {} s" "binv me {} D s" using r by (auto simp: rest_def)
  obtain a s1 where 1: "bread ROOTDEV m s = Some (a, s1)" "caches (bufs s1) a m" "bdata (bufs s1 a) = blk s m"
    "calm me {} s1" "binv me {a} D s1" "untouched me {} s s1"
    using bread_runs [OF c(1) fs_free_empty c(2), of m] room by (auto elim!: runsE)
  have nh: "\<forall>h\<in>{a}. blockno (bufs s1 h) \<noteq> n" using 1(2) ne by (simp add: caches_def)
  have rm: "(\<exists>b. caches (bufs s1) b n) \<or> card D + card {a} < NBUF" using room2 pinned_cached [OF 1(5)] by auto
  obtain b s2 where 2: "bread ROOTDEV n s1 = Some (b, s2)" "b \<notin> {a}" "caches (bufs s2) b n" "bdata (bufs s2 b) = blk s1 n"
    "calm me {} s2" "binv me {b, a} D s2" "untouched me {a} s1 s2"
    using bread_runs [OF 1(4) fs_free_empty 1(5) nh rm] by (auto elim!: runsE)
  note u1 = untouchedD [OF 1(6)] and u2 = untouchedD [OF 2(7)] and h2 = untouched_held [OF 2(7), of a]
  show ?thesis
  proof (rule that [OF 1(1) u1(1) 2(1) _ 2(5,6) bframe_trans [OF u1(1) u2(1)]])
    show "blockno (bufs s2 a) = m" using h2 1(2) by (simp add: caches_def)
  qed (use 1 2 u1 u2 h2 in \<open>simp_all add: caches_def\<close>)
qed

lemma write_log_one_runs:
  assumes r: "rest me D s" and dev: "ldev s = ROOTDEV" and room: "card D < NBUF"
    and n: "lh_block s tail \<in> D" and lo: "lstart s + of_nat tail + 1 \<notin> D"
  shows "runs (write_log_one tail s) (\<lambda>t. rest me D t \<and> wrote me [(lstart s + of_nat tail + 1, blk s (lh_block s tail))] s t)"
proof -
  let ?m = "lstart s + of_nat tail + 1" and ?n = "lh_block s tail"
  have ne: "?m \<noteq> ?n" using n lo by auto
  obtain a s1 b s2 where 2: "bread ROOTDEV ?m s = Some (a, s1)" "bframe me s s1" "bread ROOTDEV ?n s1 = Some (b, s2)"
    "a \<noteq> b" "calm me {} s2" "binv me {b, a} D s2" "bframe me s s2" "disk s2 = disk s" "dtrace s2 = dtrace s" "blk s2 = blk s"
    "blockno (bufs s2 a) = ?m" "blockno (bufs s2 b) = ?n" "bdata (bufs s2 a) = blk s ?m" "bdata (bufs s2 b) = blk s ?n"
    by (rule two_reads [OF r ne]) (use room n in auto)
  let ?s3 = "set_data a (blk s ?n) s2"
  have len: "length (blk s ?n) = BSIZE" using r by (auto simp: rest_def intro: blk_length)
  have 3: "binv me {b, a} D ?s3" "blk ?s3 = (blk s)(?m := blk s ?n)"
    using binv_set_data' [OF 2(6) _ len, of a] 2(10,11) by auto
  obtain s4 where 4: "bwrite a ?s3 = Some s4" "calm me {} s4" "binv me {b, a} D s4" "bframe me ?s3 s4" "bufs s4 = bufs ?s3"
    "blk s4 = blk ?s3" "disk s4 = (disk s)(?m := blk s ?n)" "dtrace s4 = dtrace s @ [(?m, blk s ?n)]"
    using bwrite_runs [OF _ fs_free_empty 3(1), of a] 2(5,8,9,11) by (auto elim!: runsE)
  obtain s5 where 5: "brelse b s4 = Some s5" "calm me {} s5" "binv me ({b, a} - {b}) D s5" "untouched me {b, a} s4 s5"
    using brelse_runs [OF 4(2) fs_free_empty 4(3), of b] 4(5) 2(4,12) n by (auto elim!: runsE)
  have ba: "{b, a} - {b} = {a}" using 2(4) by auto
  note u5 = untouchedD [OF 5(4)] and h5 = untouched_held [OF 5(4), of a]
  have cl: "blockno (bufs s5 a) \<in> D \<or> bdata (bufs s5 a) = disk s5 (blockno (bufs s5 a))"
    using h5 u5 4(5,7) 2(11) by simp
  obtain t where 6: "brelse a s5 = Some t" "calm me {} t" "binv me ({a} - {a}) D t" "untouched me {a} s5 t"
    using brelse_runs [OF 5(2) fs_free_empty 5(3) [unfolded ba] _ cl] by (auto elim!: runsE)
  note u6 = untouchedD [OF 6(4)]
  have "write_log_one tail s = Some t"
    using 2(1,3) bframe_log [OF 2(2)] 2(14) 4(1) 5(1) 6(1) dev by (simp add: write_log_one_def)
  moreover have "bframe me s t"
    using 2(7) set_data_fields(5) 4(4) u5(1) u6(1) by (meson bframe_trans)
  ultimately show ?thesis
    using 6(2,3) u5 u6 3 4 by (simp add: runs_def rest_def wrote_def)
qed

definition log_writes :: "'a log_scheme \<Rightarrow> nat list \<Rightarrow> (u32 \<times> bytes) list" where
  "log_writes s ts = map (\<lambda>i. (lstart s + of_nat i + 1, blk s (lh_block s i))) ts"

lemma wrote_bframe: "wrote me ws s t \<Longrightarrow> bframe me s t"
  by (simp add: wrote_def)

lemma write_log_loop_runs:
  "rest me D s \<Longrightarrow> ldev s = ROOTDEV \<Longrightarrow> card D < NBUF \<Longrightarrow>
     \<forall>i\<in>set ts. lh_block s i \<in> D \<and> lstart s + of_nat i + 1 \<notin> D \<Longrightarrow>
     runs (write_log_loop ts s) (\<lambda>t. rest me D t \<and> wrote me (log_writes s ts) s t)"
proof (induction ts arbitrary: s)
  case Nil
  then show ?case by (simp add: runs_def log_writes_def wrote_refl)
next
  case (Cons i ts)
  let ?w = "(lstart s + of_nat i + 1, blk s (lh_block s i))"
  obtain s1 where 1: "write_log_one i s = Some s1" "rest me D s1" "wrote me [?w] s s1"
    using write_log_one_runs [OF Cons.prems(1-3), of i] Cons.prems(4) by (auto elim!: runsE)
  note f = bframe_log [OF wrote_bframe [OF 1(3)]]
  obtain t where 2: "write_log_loop ts s1 = Some t" "rest me D t" "wrote me (log_writes s1 ts) s1 t"
    using Cons.IH [OF 1(2)] Cons.prems f by (auto elim!: runsE)
  have "blk s1 n = blk s n" if "n \<in> D" for n
    using 1(3) Cons.prems(4) that by (auto simp: wrote_def)
  then have "log_writes s (i # ts) = [?w] @ log_writes s1 ts" using Cons.prems(4) by (simp add: log_writes_def f)
  with wrote_trans [OF 1(3) 2(3)] have "wrote me (log_writes s (i # ts)) s t" by simp
  with 1(1) 2(1,2) show ?case by (simp add: runs_def)
qed

text \<open>The header as \<open>write_head\<close> puts it into the block that held \<open>d\<close>.\<close>

definition head_block :: "u32 list \<Rightarrow> bytes \<Rightarrow> bytes" where
  "head_block bs d = put_blocks 0 bs (put32 0 (word_of_int (int (length bs))) d)"

lemma head_block_length: "length bs \<le> LOGBLOCKS \<Longrightarrow> length d = BSIZE \<Longrightarrow> length (head_block bs d) = BSIZE"
  by (simp add: head_block_def LOGBLOCKS_def bio_defs)

lemma lh_list_length: "0 \<le> lh_n s \<Longrightarrow> int (length (lh_list s)) = lh_n s"
  by (simp add: lh_list_def)

lemma write_head_runs:
  assumes r: "rest me D s" and dev: "ldev s = ROOTDEV" and room: "card D < NBUF" and n: "0 \<le> lh_n s" "lh_n s \<le> int LOGBLOCKS"
    and l: "lstart s \<notin> D"
  shows "runs (write_head s) (\<lambda>t. rest me D t \<and> wrote me [(lstart s, head_block (lh_list s) (blk s (lstart s)))] s t)"
proof -
  have c: "calm me {} s" "binv me {} D s" using r by (auto simp: rest_def)
  let ?h = "head_block (lh_list s) (blk s (lstart s))"
  obtain a s1 where 1: "bread ROOTDEV (lstart s) s = Some (a, s1)" "caches (bufs s1) a (lstart s)" "bdata (bufs s1 a) = blk s (lstart s)"
    "calm me {} s1" "binv me {a} D s1" "untouched me {} s s1"
    using bread_runs [OF c(1) fs_free_empty c(2), of "lstart s"] room by (auto elim!: runsE)
  note u1 = untouchedD [OF 1(6)] and f1 = bframe_log [OF untouchedD(1) [OF 1(6)]]
  have "length ?h = BSIZE"
    using lh_list_length [OF n(1)] n blk_length [OF c(2)] by (intro head_block_length) auto
  then have 2: "binv me {a} D (set_data a ?h s1)" "blk (set_data a ?h s1) = (blk s)(lstart s := ?h)"
    using binv_set_data' [OF 1(5), of a ?h] 1(2) u1(4) by (auto simp: caches_def)
  obtain s4 where 4: "bwrite a (set_data a ?h s1) = Some s4" "calm me {} s4" "binv me {a} D s4" "bframe me (set_data a ?h s1) s4"
    "bufs s4 = bufs (set_data a ?h s1)" "blk s4 = blk (set_data a ?h s1)" "disk s4 = (disk s)(lstart s := ?h)"
    "dtrace s4 = dtrace s @ [(lstart s, ?h)]"
    using bwrite_runs [OF _ fs_free_empty 2(1), of a] 1(2,4) u1 by (auto simp: caches_def elim!: runsE)
  have cl: "blockno (bufs s4 a) \<in> D \<or> bdata (bufs s4 a) = disk s4 (blockno (bufs s4 a))"
    using 4(5,7) 1(2) by (simp add: caches_def)
  obtain t where 6: "brelse a s4 = Some t" "calm me {} t" "binv me ({a} - {a}) D t" "untouched me {a} s4 t"
    using brelse_runs [OF 4(2) fs_free_empty 4(3) _ cl] by (auto elim!: runsE)
  note u6 = untouchedD [OF 6(4)]
  have "write_head s = Some t"
    using 1(1,3) 4(1) 6(1) dev f1 lh_list_length [OF n(1)] by (simp add: write_head_def head_block_def)
  moreover have "bframe me s t" using u1(1) set_data_fields(5) 4(4) u6(1) by (meson bframe_trans)
  ultimately show ?thesis using 6(2,3) u6 2 4 by (simp add: runs_def rest_def wrote_def)
qed

lemma install_one_runs:
  assumes r: "rest me D s" and dev: "ldev s = ROOTDEV"
    and room: "if recovering then card D + 1 < NBUF \<and> lh_block s tail \<notin> D else card D < NBUF \<and> lh_block s tail \<in> D"
    and lo: "lstart s + of_nat tail + 1 \<notin> D" and ne: "lstart s + of_nat tail + 1 \<noteq> lh_block s tail"
  shows "runs (install_one recovering tail s) (\<lambda>t. rest me (if recovering then D else D - {lh_block s tail}) t \<and>
    wrote me [(lh_block s tail, blk s (lstart s + of_nat tail + 1))] s t)"
proof -
  let ?m = "lstart s + of_nat tail + 1" and ?n = "lh_block s tail" and ?D = "if recovering then D else D - {lh_block s tail}"
  obtain a s1 b s2 where 2: "bread ROOTDEV ?m s = Some (a, s1)" "bframe me s s1" "bread ROOTDEV ?n s1 = Some (b, s2)"
    "a \<noteq> b" "calm me {} s2" "binv me {b, a} D s2" "bframe me s s2" "disk s2 = disk s" "dtrace s2 = dtrace s" "blk s2 = blk s"
    "blockno (bufs s2 a) = ?m" "blockno (bufs s2 b) = ?n" "bdata (bufs s2 a) = blk s ?m" "bdata (bufs s2 b) = blk s ?n"
    by (rule two_reads [OF r ne]) (use room in \<open>auto split: if_splits\<close>)
  let ?s3 = "set_data b (blk s ?m) s2"
  have ri: "binv me {} D s" using r by (simp add: rest_def)
  have len: "length (blk s ?m) = BSIZE" using blk_length [OF ri] .
  have 3: "binv me {b, a} D ?s3" "blk ?s3 = (blk s)(?n := blk s ?m)"
    using binv_set_data' [OF 2(6) _ len, of b] 2(10,12) by auto
  obtain s4 where 4: "bwrite b ?s3 = Some s4" "calm me {} s4" "binv me {b, a} D s4" "bframe me ?s3 s4" "bufs s4 = bufs ?s3"
    "blk s4 = blk ?s3" "disk s4 = (disk s)(?n := blk s ?m)" "dtrace s4 = dtrace s @ [(?n, blk s ?m)]"
    using bwrite_runs [OF _ fs_free_empty 3(1), of b] 2(5,8,9,12) by (auto elim!: runsE)
  obtain s4' where p4: "(if \<not> recovering then bunpin b s4 else Some s4) = Some s4'" "calm me {} s4'" "binv me {b, a} ?D s4'"
    "untouched me {b, a} s4 s4'"
  proof (cases recovering)
    case True
    then show ?thesis using that [of s4] 4(2,3) by (simp add: untouched_def)
  next
    case False
    have "b \<in> {b, a}" "blockno (bufs s4 b) = ?n" "?n \<in> D" using 4(5) 2(12) room False by simp_all
    then show ?thesis using bunpin_runs [OF 4(2) fs_free_empty 4(3), of b] that False by (auto elim!: runsE)
  qed
  note u4 = untouchedD [OF p4(4)] and h4 = untouched_held [OF p4(4)]
  have "bdata (bufs s4' a) = disk s4' (blockno (bufs s4' a))"
    using h4 [of a] u4 4(5,7) 2(4,11,13) blk_clean [OF ri lo] ne by simp
  then obtain s5 where 5: "brelse a s4' = Some s5" "calm me {} s5" "binv me ({b, a} - {a}) ?D s5" "untouched me {b, a} s4' s5"
    using brelse_runs [OF p4(2) fs_free_empty p4(3), of a] by (auto elim!: runsE)
  have ba: "{b, a} - {a} = {b}" using 2(4) by auto
  note u5 = untouchedD [OF 5(4)] and h5 = untouched_held [OF 5(4), of b]
  have "bdata (bufs s5 b) = disk s5 (blockno (bufs s5 b))"
    using h5 h4 [of b] u4 u5 4(5,7) 2(12) by simp
  then obtain t where 6: "brelse b s5 = Some t" "calm me {} t" "binv me ({b} - {b}) ?D t" "untouched me {b} s5 t"
    using brelse_runs [OF 5(2) fs_free_empty 5(3) [unfolded ba], of b] by (auto elim!: runsE)
  note u6 = untouchedD [OF 6(4)]
  have "install_one recovering tail s = Some t"
    using 2(1,3) bframe_log [OF 2(2)] 2(13) 4(1) p4(1) 5(1) 6(1) dev by (simp add: install_one_def)
  moreover have "bframe me s t"
    using 2(7) set_data_fields(5) 4(4) u4(1) u5(1) u6(1) by (meson bframe_trans)
  ultimately show ?thesis
    using 6(2,3) u4 u5 u6 3 4 by (simp add: runs_def rest_def wrote_def)
qed

definition home_writes :: "'a log_scheme \<Rightarrow> nat list \<Rightarrow> (u32 \<times> bytes) list" where
  "home_writes s ts = map (\<lambda>i. (lh_block s i, blk s (lstart s + of_nat i + 1))) ts"

lemma install_loop_runs:
  "rest me D s \<Longrightarrow> ldev s = ROOTDEV \<Longrightarrow> (if recovering then card D + 1 < NBUF else card D < NBUF) \<Longrightarrow>
     \<forall>i\<in>set ts. lstart s + of_nat i + 1 \<notin> D \<and> (\<forall>j\<in>set ts. lstart s + of_nat i + 1 \<noteq> lh_block s j) \<and>
       (lh_block s i \<in> D \<longleftrightarrow> \<not> recovering) \<Longrightarrow>
     recovering \<or> distinct (map (lh_block s) ts) \<Longrightarrow>
     runs (install_loop recovering ts s) (\<lambda>t. rest me (if recovering then D else D - lh_block s ` set ts) t \<and>
       wrote me (home_writes s ts) s t)"
proof (induction ts arbitrary: s D)
  case Nil
  then show ?case by (simp add: runs_def home_writes_def wrote_refl)
next
  case (Cons i ts)
  let ?w = "(lh_block s i, blk s (lstart s + of_nat i + 1))" and ?D = "if recovering then D else D - {lh_block s i}"
  obtain s1 where 1: "install_one recovering i s = Some s1" "rest me ?D s1" "wrote me [?w] s s1"
    using install_one_runs [OF Cons.prems(1,2), of recovering i] Cons.prems(3,4) by (auto elim!: runsE)
  note f = bframe_log [OF wrote_bframe [OF 1(3)]]
  have fin: "finite D" using Cons.prems(1) by (auto simp: rest_def binv_def)
  have card: "card ?D \<le> card D" using fin by (simp add: card_mono)
  have "runs (install_loop recovering ts s1) (\<lambda>t. rest me (if recovering then ?D else ?D - lh_block s1 ` set ts) t \<and>
      wrote me (home_writes s1 ts) s1 t)"
  proof (rule Cons.IH [OF 1(2)])
    show "if recovering then card ?D + 1 < NBUF else card ?D < NBUF" using Cons.prems(3) card by (auto split: if_splits)
    show "\<forall>i\<in>set ts. lstart s1 + of_nat i + 1 \<notin> ?D \<and> (\<forall>j\<in>set ts. lstart s1 + of_nat i + 1 \<noteq> lh_block s1 j) \<and>
       (lh_block s1 i \<in> ?D \<longleftrightarrow> \<not> recovering)"
      using Cons.prems(4,5) unfolding f by (auto simp: image_iff split: if_splits)
  qed (use Cons.prems f in auto)
  then obtain t where 2: "install_loop recovering ts s1 = Some t"
    "rest me (if recovering then ?D else ?D - lh_block s1 ` set ts) t" "wrote me (home_writes s1 ts) s1 t"
    by (auto elim!: runsE)
  have "blk s1 (lstart s + of_nat j + 1) = blk s (lstart s + of_nat j + 1)" if "j \<in> set ts" for j
    using 1(3) Cons.prems(4) that by (auto simp: wrote_def)
  then have "home_writes s (i # ts) = [?w] @ home_writes s1 ts" by (simp add: home_writes_def f)
  with wrote_trans [OF 1(3) 2(3)] have "wrote me (home_writes s (i # ts)) s t" by simp
  moreover have "(if recovering then ?D else ?D - lh_block s1 ` set ts) = (if recovering then D else D - lh_block s ` set (i # ts))"
    by (auto simp: f)
  ultimately show ?case using 1(1) 2(1,2) by (simp add: runs_def)
qed

section \<open>Commit\<close>

text \<open>The area of the log: the header and one block for every entry.\<close>

definition log_area :: "u32 \<Rightarrow> u32 set" where
  "log_area ls = {ls} \<union> (\<lambda>i. ls + of_nat i + 1) ` {..<LOGBLOCKS}"

definition log_fits :: "u32 \<Rightarrow> bool" where
  "log_fits ls \<longleftrightarrow> unat ls + LOGBLOCKS < 2 ^ 32"

lemma unat_log_block:
  assumes "log_fits ls" and "k < LOGBLOCKS"
  shows "unat (ls + of_nat k + 1) = unat ls + k + 1"
proof -
  have "ls + of_nat k + 1 = of_nat (unat ls + k + 1)" by simp
  moreover have "unat ls + k + 1 < 2 ^ LENGTH(32)" using assms by (simp add: log_fits_def)
  ultimately show ?thesis by (simp only: unat_of_nat mod_less)
qed

lemma log_area_inj:
  assumes "log_fits ls" and "i < LOGBLOCKS" and "j < LOGBLOCKS" and "ls + of_nat i + 1 = ls + of_nat j + 1"
  shows "i = j"
proof -
  have "unat (ls + of_nat i + 1) = unat (ls + of_nat j + 1)" using assms(4) by (rule arg_cong)
  then show ?thesis unfolding unat_log_block [OF assms(1,2)] unat_log_block [OF assms(1,3)] by simp
qed

lemma log_area_ne:
  assumes "log_fits ls" and "i < LOGBLOCKS"
  shows "ls + of_nat i + 1 \<noteq> ls"
proof
  assume "ls + of_nat i + 1 = ls"
  then have "unat (ls + of_nat i + 1) = unat ls" by (rule arg_cong)
  then show False unfolding unat_log_block [OF assms] by simp
qed

lemma blk_log_upd [simp]:
  "blk (s\<lparr>lh_n := n\<rparr>) = blk s" "blk (s\<lparr>lh_block := f\<rparr>) = blk s" "blk (s\<lparr>outstanding := k\<rparr>) = blk s" "blk (s\<lparr>committing := c\<rparr>) = blk s"
  by (rule ext, simp add: blk_def split: option.split)+

lemma rest_log_upd [simp]:
  "rest me D (s\<lparr>lh_n := n\<rparr>) = rest me D s" "rest me D (s\<lparr>lh_block := f\<rparr>) = rest me D s"
  "rest me D (s\<lparr>outstanding := k\<rparr>) = rest me D s" "rest me D (s\<lparr>committing := c\<rparr>) = rest me D s"
  by (simp_all add: rest_def calm_def binv_def)

text \<open>A transaction ready to commit.\<close>

definition log_ok :: "nat \<Rightarrow> 'a log_scheme \<Rightarrow> bool" where
  "log_ok me s \<longleftrightarrow> rest me (set (lh_list s)) s \<and> ldev s = ROOTDEV \<and> log_fits (lstart s) \<and>
     0 \<le> lh_n s \<and> lh_n s \<le> int LOGBLOCKS \<and> distinct (lh_list s) \<and> set (lh_list s) \<inter> log_area (lstart s) = {}"

definition commit_writes :: "'a log_scheme \<Rightarrow> (u32 \<times> bytes) list" where
  "commit_writes s = (let bs = lh_list s; h = head_block bs (disk s (lstart s)) in
     map (\<lambda>i. (lstart s + of_nat i + 1, blk s (bs ! i))) [0..<length bs] @ [(lstart s, h)] @
     map (\<lambda>b. (b, blk s b)) bs @ [(lstart s, head_block [] h)])"

lemma lh_list_nth: "i < nat (lh_n s) \<Longrightarrow> lh_list s ! i = lh_block s i"
  by (simp add: lh_list_def)

lemma commit_runs:
  assumes ok: "log_ok me s" and n: "0 < lh_n s" "lh_n s < int NBUF"
  shows "runs (commit s) (\<lambda>t. log_ok me t \<and> lh_n t = 0 \<and> dtrace t = dtrace s @ commit_writes s \<and>
    disk t = after (commit_writes s) (disk s) \<and> blk t = after (commit_writes s) (blk s) \<and> lstart t = lstart s \<and>
    outstanding t = outstanding s \<and> committing t = committing s)"
proof -
  let ?bs = "lh_list s" and ?ls = "lstart s" and ?ts = "[0..<nat (lh_n s)]"
  let ?D = "set ?bs"
  have len: "length ?bs = nat (lh_n s)" by (simp add: lh_list_def)
  have card: "card ?D < NBUF" using card_length [of ?bs] len n by linarith
  have r: "rest me ?D s" and dev: "ldev s = ROOTDEV" and fits: "log_fits ?ls" and nl: "lh_n s \<le> int LOGBLOCKS"
    and dis: "distinct ?bs" "?D \<inter> log_area ?ls = {}" using ok by (auto simp: log_ok_def)
  have area: "?ls \<in> log_area ?ls" "\<And>i. i < nat (lh_n s) \<Longrightarrow> ?ls + of_nat i + 1 \<in> log_area ?ls"
    using nl by (auto simp: log_area_def)
  have inD: "i < nat (lh_n s) \<Longrightarrow> lh_block s i \<in> ?D" for i by (auto simp: lh_list_def)
  have ne: "?ls \<noteq> ?ls + of_nat i + 1" if "i < nat (lh_n s)" for i using log_area_ne [OF fits, of i] that nl by force
  have notD: "?ls \<notin> ?D" "\<And>i. i < nat (lh_n s) \<Longrightarrow> ?ls + of_nat i + 1 \<notin> ?D" using area dis(2) by blast+
  obtain s1 where 1: "write_log s = Some s1" "rest me ?D s1" "wrote me (log_writes s ?ts) s s1"
    using write_log_loop_runs [OF r dev card, of ?ts] inD notD(2) by (auto simp: write_log_def elim!: runsE)
  note f1 = bframe_log [OF wrote_bframe [OF 1(3)]]
  have b1: "blk s1 ?ls = disk s ?ls"
  proof -
    have "?ls \<notin> fst ` set (log_writes s ?ts)" using ne by (auto simp: log_writes_def)
    then have "blk s1 ?ls = blk s ?ls" using 1(3) by (simp add: wrote_def after_other)
    also have "\<dots> = disk s ?ls" using r notD(1) by (auto simp: rest_def intro: blk_clean)
    finally show ?thesis .
  qed
  let ?h = "head_block ?bs (disk s ?ls)"
  obtain s2 where 2: "write_head s1 = Some s2" "rest me ?D s2" "wrote me [(?ls, ?h)] s1 s2"
    using write_head_runs [OF 1(2)] dev card nl n(1) notD(1) by (auto simp: f1 b1 elim!: runsE)
  note f2 = bframe_log [OF wrote_bframe [OF 2(3)], unfolded f1]
  have lo: "blk s2 (?ls + of_nat i + 1) = blk s (lh_block s i)" if "i < nat (lh_n s)" for i
  proof -
    have "inj_on (\<lambda>i. ?ls + of_nat i + 1) (set ?ts)"
      using nl by (intro inj_onI log_area_inj [OF fits]) auto
    then have "distinct (map (\<lambda>i. ?ls + of_nat i + 1) ?ts)" by (simp add: distinct_map)
    from after_map [OF this, of i] have "blk s1 (?ls + of_nat i + 1) = blk s (lh_block s i)"
      using 1(3) that by (simp add: wrote_def log_writes_def)
    then show ?thesis using 2(3) ne [OF that] by (simp add: wrote_def)
  qed
  have map_eq: "map (\<lambda>i. f (lh_block s i)) ?ts = map f ?bs" for f :: "u32 \<Rightarrow> u32 \<times> bytes"
    by (simp add: lh_list_def)
  have hw: "home_writes s2 ?ts = map (\<lambda>b. (b, blk s b)) ?bs"
    unfolding map_eq [of "\<lambda>b. (b, blk s b)", symmetric] home_writes_def f2 using lo by simp
  obtain s3 where 3: "install_trans False s2 = Some s3" "rest me (?D - lh_block s2 ` set ?ts) s3" "wrote me (home_writes s2 ?ts) s2 s3"
  proof -
    have "runs (install_loop False ?ts s2) (\<lambda>t. rest me (if False then ?D else ?D - lh_block s2 ` set ?ts) t \<and> wrote me (home_writes s2 ?ts) s2 t)"
    proof (rule install_loop_runs [OF 2(2)])
      show "\<forall>i\<in>set ?ts. lstart s2 + of_nat i + 1 \<notin> ?D \<and> (\<forall>j\<in>set ?ts. lstart s2 + of_nat i + 1 \<noteq> lh_block s2 j) \<and>
         (lh_block s2 i \<in> ?D \<longleftrightarrow> \<not> False)"
        unfolding f2 using inD notD(2) by (metis atLeastLessThan_iff set_upt)
      show "False \<or> distinct (map (lh_block s2) ?ts)" using dis(1) by (simp add: f2 lh_list_def)
    qed (use dev card f2 in simp_all)
    then show ?thesis using that by (auto simp: install_trans_def f2 elim!: runsE)
  qed
  note f3 = bframe_log [OF wrote_bframe [OF 3(3)], unfolded f2]
  have e: "?D - lh_block s2 ` set ?ts = {}" by (simp add: f2 lh_list_def)
  let ?s4 = "s3\<lparr>lh_n := 0\<rparr>"
  have r4: "rest me {} ?s4" using 3(2) unfolding e by simp
  have b3: "blk s3 ?ls = ?h"
  proof -
    have "?ls \<notin> fst ` set (home_writes s2 ?ts)" using notD(1) unfolding hw by auto
    then have "blk s3 ?ls = blk s2 ?ls" using 3(3) by (simp add: wrote_def after_other)
    then show ?thesis using 2(3) by (simp add: wrote_def)
  qed
  have bl4: "blk ?s4 = blk s3" "disk ?s4 = disk s3" "dtrace ?s4 = dtrace s3" "lh_list ?s4 = []" by (simp_all add: lh_list_def)
  obtain t where 4: "write_head ?s4 = Some t" "rest me {} t" "wrote me [(?ls, head_block [] ?h)] ?s4 t"
    using write_head_runs [OF r4] dev by (auto simp: f3 bl4 b3 bio_defs elim!: runsE)
  note f4 = bframe_log [OF wrote_bframe [OF 4(3)]]
  have "commit s = Some t" using n(1) 1(1) 2(1) 3(1) 4(1) by (simp add: commit_def)
  moreover have "wrote me (log_writes s ?ts @ [(?ls, ?h)] @ home_writes s2 ?ts) s s3"
    using wrote_trans [OF 1(3) wrote_trans [OF 2(3) 3(3)]] .
  moreover have cw: "commit_writes s = (log_writes s ?ts @ [(?ls, ?h)] @ home_writes s2 ?ts) @ [(?ls, head_block [] ?h)]"
    by (simp add: commit_writes_def Let_def hw log_writes_def len lh_list_nth)
  moreover have "log_ok me t" using 4(2) f4 f3 fits dev bl4(4) by (simp add: log_ok_def)
  ultimately show ?thesis using 4(3) f4 f3 unfolding runs_def wrote_def bl4 by simp
qed

lemma quiet_log:
  assumes "quiet me s t"
  shows "lh_n t = lh_n s" "lh_block t = lh_block s" "lstart t = lstart s" "ldev t = ldev s"
    "outstanding t = outstanding s" "committing t = committing s" "lh_list t = lh_list s" "blk t = blk s" "binv me H D t = binv me H D s"
proof -
  note q = quiet_bframe [OF assms]
  show "lh_n t = lh_n s" "lh_block t = lh_block s" "lstart t = lstart s" "ldev t = ldev s"
    "outstanding t = outstanding s" "committing t = committing s" "lh_list t = lh_list s" using bframe_log [OF q(1)] by simp_all
  show "blk t = blk s" by (rule ext) (simp add: blk_def q split: option.split)
  show "binv me H D t = binv me H D s" by (simp add: binv_def q)
qed

lemma calm_log_upd [simp]:
  "calm me A (s\<lparr>outstanding := k\<rparr>) = calm me A s" "calm me A (s\<lparr>committing := c\<rparr>) = calm me A s"
  by (simp_all add: calm_def)

lemma log_locked:
  assumes "calm me {} s"
  obtains s1 where "acquire LogLock s = Some s1" "calm me {LogLock} s1" "quiet me s s1"
  using calm_acquire [OF assms, of LogLock] by (auto elim!: runsE)

lemma log_unlock: "calm me {LogLock} s \<Longrightarrow> runs (release LogLock s) (\<lambda>t. calm me {} t \<and> quiet me s t)"
  using calm_release [of me "{LogLock}" s LogLock] by simp

section \<open>Inside an operation\<close>

text \<open>\<open>me\<close> holds the buffers \<open>H\<close>; the blocks of the in-memory header are pinned.\<close>

definition log_inv :: "nat \<Rightarrow> nat set \<Rightarrow> 'a log_scheme \<Rightarrow> bool" where
  "log_inv me H s \<longleftrightarrow> calm me {} s \<and> binv me H (set (lh_list s)) s \<and> ldev s = ROOTDEV \<and> log_fits (lstart s) \<and>
     0 \<le> lh_n s \<and> lh_n s \<le> int LOGBLOCKS \<and> distinct (lh_list s) \<and> set (lh_list s) \<inter> log_area (lstart s) = {}"

lemma log_ok_inv: "log_ok me s \<longleftrightarrow> log_inv me {} s"
  by (auto simp: log_ok_def log_inv_def rest_def)

definition tframe :: "nat \<Rightarrow> 'a log_scheme \<Rightarrow> 'a log_scheme \<Rightarrow> bool" where
  "tframe me s t \<longleftrightarrow> t = s\<lparr>cpus := cpus t, locks := locks t, procs := procs t, slocks := slocks t,
       bufs := bufs t, disk := disk t, dtrace := dtrace t, lh_n := lh_n t, lh_block := lh_block t\<rparr> \<and> same_procs me (procs s) (procs t)"

lemma tframeE:
  assumes "tframe me s t"
  obtains c l p sl b d dt n f where
    "t = s\<lparr>cpus := c, locks := l, procs := p, slocks := sl, bufs := b, disk := d, dtrace := dt, lh_n := n, lh_block := f\<rparr>"
    "same_procs me (procs s) p"
proof (rule that)
  show "t = s\<lparr>cpus := cpus t, locks := locks t, procs := procs t, slocks := slocks t,
       bufs := bufs t, disk := disk t, dtrace := dtrace t, lh_n := lh_n t, lh_block := lh_block t\<rparr>" "same_procs me (procs s) (procs t)"
    using assms unfolding tframe_def by blast+
qed

lemma tframe_trans [trans]: "tframe me s t \<Longrightarrow> tframe me t u \<Longrightarrow> tframe me s u"
  by (elim tframeE) (auto simp: tframe_def intro: same_procs_trans)

lemma tframe_refl [simp]: "tframe me s s"
  by (simp add: tframe_def)

lemma bframe_tframe: "bframe me s t \<Longrightarrow> tframe me s t"
  by (elim bframeE) (simp add: tframe_def)

lemma tframe_hdr: "tframe me s (s\<lparr>lh_block := f\<rparr>)" "tframe me s (s\<lparr>lh_n := n\<rparr>)"
  by (simp_all add: tframe_def)

lemma absorb_found: "absorb n xs < length xs \<longleftrightarrow> n \<in> set xs"
  by (induction xs) auto

lemma absorb_nth: "n \<in> set xs \<Longrightarrow> xs ! absorb n xs = n"
  by (induction xs) auto

lemma absorb_le: "absorb n xs \<le> length xs"
  by (induction xs) auto

lemma absorb_list:
  fixes n :: u32
  assumes "0 \<le> lh_n s"
  defines "i \<equiv> absorb n (lh_list s)"
  shows "n \<in> set (lh_list s) \<Longrightarrow> int i \<noteq> lh_n s \<and> lh_list (s\<lparr>lh_block := (lh_block s)(i := n)\<rparr>) = lh_list s"
    and "n \<notin> set (lh_list s) \<Longrightarrow> int i = lh_n s \<and> lh_list (s\<lparr>lh_block := (lh_block s)(i := n), lh_n := lh_n s + 1\<rparr>) = lh_list s @ [n]
      \<and> lh_list (s\<lparr>lh_block := (lh_block s)(i := n)\<rparr>) = lh_list s"
proof -
  have len: "length (lh_list s) = nat (lh_n s)" by (simp add: lh_list_def)
  show "int i \<noteq> lh_n s \<and> lh_list (s\<lparr>lh_block := (lh_block s)(i := n)\<rparr>) = lh_list s" if "n \<in> set (lh_list s)"
  proof -
    have l: "i < nat (lh_n s)" using that absorb_found [of n "lh_list s"] len by (simp add: i_def)
    moreover have "lh_block s i = n" using absorb_nth [OF that] lh_list_nth [OF l] by (simp add: i_def)
    then have "(lh_block s)(i := n) = lh_block s" by auto
    ultimately show ?thesis by auto
  qed
  show "int i = lh_n s \<and> lh_list (s\<lparr>lh_block := (lh_block s)(i := n), lh_n := lh_n s + 1\<rparr>) = lh_list s @ [n]
      \<and> lh_list (s\<lparr>lh_block := (lh_block s)(i := n)\<rparr>) = lh_list s" if "n \<notin> set (lh_list s)"
  proof -
    have i: "i = nat (lh_n s)" using that absorb_found [of n "lh_list s"] absorb_le [of n "lh_list s"] len by (simp add: i_def)
    moreover have "nat (lh_n s + 1) = Suc (nat (lh_n s))" using assms(1) by simp
    ultimately show ?thesis using assms(1) by (simp add: lh_list_def)
  qed
qed

lemma log_write_runs:
  assumes i: "log_inv me H s" and b: "b \<in> H" "blockno (bufs s b) \<notin> log_area (lstart s)" and o: "1 \<le> outstanding s"
    and n: "lh_n s < int LOGBLOCKS"
  shows "runs (log_write b s) (\<lambda>t. log_inv me H t \<and> set (lh_list t) = insert (blockno (bufs s b)) (set (lh_list s)) \<and>
    tframe me s t \<and> blk t = blk s \<and> disk t = disk s \<and> dtrace t = dtrace s \<and>
    (\<forall>h\<in>H. blockno (bufs t h) = blockno (bufs s h) \<and> bdata (bufs t h) = bdata (bufs s h)))"
proof -
  let ?n = "blockno (bufs s b)" and ?xs = "lh_list s"
  let ?i = "absorb ?n ?xs"
  have c: "calm me {} s" and bi: "binv me H (set ?xs) s" and n0: "0 \<le> lh_n s" using i by (auto simp: log_inv_def)
  obtain s1 where 1: "acquire LogLock s = Some s1" "calm me {LogLock} s1" "quiet me s s1" using log_locked [OF c] .
  note q1 = quiet_log [OF 1(3)] quiet_bframe [OF 1(3)]
  let ?s2 = "s1\<lparr>lh_block := (lh_block s)(?i := ?n)\<rparr>"
  have c2: "calm me {LogLock} ?s2" and b2: "binv me H D ?s2 = binv me H D s" for D using 1(2) q1 by (simp_all add: calm_def binv_def)
  have t2: "tframe me s ?s2" using tframe_trans [OF bframe_tframe [OF q1(10)] tframe_hdr(1)] by simp
  have ff: "fs_free {LogLock}" by (simp add: fs_free_def)
  obtain s3 where 3: "(if int ?i = lh_n s then do { s \<leftarrow> bpin b ?s2; Some (s\<lparr>lh_n := lh_n s + 1\<rparr>) } else Some ?s2) = Some s3"
      "calm me {LogLock} s3" "binv me H (insert ?n (set ?xs)) s3" "tframe me ?s2 s3" "blk s3 = blk s" "disk s3 = disk s" "dtrace s3 = dtrace s"
      "\<forall>h\<in>H. blockno (bufs s3 h) = blockno (bufs s h) \<and> bdata (bufs s3 h) = bdata (bufs s h)"
      "lh_list s3 = (if ?n \<in> set ?xs then ?xs else ?xs @ [?n])" "lh_n s3 = int (length (lh_list s3))"
  proof (cases "?n \<in> set ?xs")
    case True
    have e: "int ?i \<noteq> lh_n s1" "lh_list ?s2 = ?xs" using absorb_list(1) [of s1 ?n] True n0 q1 by simp_all
    have "insert ?n (set ?xs) = set ?xs" using True by blast
    then show ?thesis using True e c2 b2 bi q1 lh_list_length [OF n0] by (intro that [of ?s2]) simp_all
  next
    case False
    have e: "int ?i = lh_n s1" "lh_list (?s2\<lparr>lh_n := lh_n s1 + 1\<rparr>) = ?xs @ [?n]" using absorb_list(2) [of s1 ?n] False n0 q1 by simp_all
    have bi2: "binv me H (set ?xs) ?s2" using bi b2 by blast
    obtain u where u: "bpin b ?s2 = Some u" "calm me {LogLock} u" "binv me H (insert ?n (set ?xs)) u" "untouched me H ?s2 u"
      using bpin_runs [OF c2 ff bi2 b(1)] False q1 by (auto elim!: runsE)
    note uu = untouchedD [OF u(4)] and uh = untouched_held [OF u(4)] and uf = bframe_log [OF untouchedD(1) [OF u(4)]]
    have "lh_list (u\<lparr>lh_n := lh_n u + 1\<rparr>) = lh_list (?s2\<lparr>lh_n := lh_n s1 + 1\<rparr>)" using uf by (simp add: lh_list_def)
    then have l: "lh_list (u\<lparr>lh_n := lh_n u + 1\<rparr>) = ?xs @ [?n]" using e(2) by simp
    show ?thesis
    proof (rule that [of "u\<lparr>lh_n := lh_n u + 1\<rparr>"])
      show "tframe me ?s2 (u\<lparr>lh_n := lh_n u + 1\<rparr>)" using tframe_trans [OF bframe_tframe [OF uu(1)] tframe_hdr(2)] .
      show "lh_n (u\<lparr>lh_n := lh_n u + 1\<rparr>) = int (length (lh_list (u\<lparr>lh_n := lh_n u + 1\<rparr>)))"
        unfolding l using uf q1 lh_list_length [OF n0] by simp
    qed (use u e False l uu uh uf q1 in \<open>simp_all add: calm_def binv_def\<close>)
  qed
  obtain t where 4: "release LogLock s3 = Some t" "calm me {} t" "quiet me s3 t" using log_unlock [OF 3(2)] by (auto elim!: runsE)
  note q4 = quiet_log [OF 4(3)] quiet_bframe [OF 4(3)]
  have tf: "tframe me s t" using tframe_trans [OF tframe_trans [OF t2 3(4)] bframe_tframe [OF q4(10)]] .
  have set: "set (lh_list t) = insert ?n (set ?xs)" using 3(9) q4 by (auto split: if_splits)
  have "lstart t = lstart s" "ldev t = ldev s" using tf by (auto elim!: tframeE)
  moreover have "length (lh_list t) \<le> LOGBLOCKS" using 3(9) q4(7) n lh_list_length [OF n0] by (auto split: if_splits)
  ultimately have "log_inv me H t"
    using i 4(2) 3(3,9,10) q4 b(2) set unfolding log_inv_def by (auto split: if_splits)
  moreover have "log_write b s = Some t"
    using 1(1) 3(1) 4(1) o n q1 by (simp add: log_write_def Let_def)
  ultimately show ?thesis using set tf 3 q4 by (simp add: runs_def)
qed

text \<open>Reading, changing, logging and releasing a block, with the log's invariant.\<close>

lemma blk_unheld:
  assumes i: "binv me H D s" and n: "n \<notin> D" "\<forall>h\<in>H. blockno (bufs s h) \<noteq> n"
  shows "blk s n = disk s n"
proof (cases "\<exists>b. caches (bufs s) b n")
  case True
  then obtain b where b: "caches (bufs s) b n" by blast
  with n have "b \<notin> H" by (auto simp: caches_def)
  with binvD(6) [OF i b] n blk_caches [OF binvD(3) [OF i] b] show ?thesis by simp
qed (rule blk_disk)

lemma log_invD:
  assumes "log_inv me H s"
  shows "calm me {} s" "binv me H (set (lh_list s)) s" "ldev s = ROOTDEV" "card (set (lh_list s)) = nat (lh_n s)"
    "0 \<le> lh_n s" "lh_n s \<le> int LOGBLOCKS" "log_fits (lstart s)"
  using assms distinct_card [of "lh_list s"] by (auto simp: log_inv_def) (simp add: lh_list_def)

lemma log_inv_frame:
  assumes i: "log_inv me H s" and f: "bframe me s t" and c: "calm me {} t" and b: "binv me H' (set (lh_list s)) t"
  shows "log_inv me H' t"
  using i c b bframe_log [OF f] by (simp add: log_inv_def)

lemma lread_runs:
  assumes i: "log_inv me H s" and nh: "\<forall>b\<in>H. blockno (bufs s b) \<noteq> n" and room: "n \<in> set (lh_list s) \<or> nat (lh_n s) + card H < NBUF"
  shows "runs (bread ROOTDEV n s) (\<lambda>(b, t). b \<notin> H \<and> blockno (bufs t b) = n \<and> bdata (bufs t b) = blk s n \<and>
    log_inv me (insert b H) t \<and> untouched me H s t \<and> (n \<in> set (lh_list s) \<or> bdata (bufs t b) = disk t n))"
proof -
  note d = log_invD [OF i]
  obtain b t where t: "bread ROOTDEV n s = Some (b, t)" "b \<notin> H" "caches (bufs t) b n" "bdata (bufs t b) = blk s n" "calm me {} t"
    "binv me (insert b H) (set (lh_list s)) t" "untouched me H s t"
    using bread_runs [OF d(1) fs_free_empty d(2) nh] room pinned_cached [OF d(2)] d(4) by (auto elim!: runsE)
  moreover have "n \<notin> set (lh_list s) \<Longrightarrow> blk s n = disk t n" using blk_unheld [OF d(2) _ nh] untouchedD(2) [OF t(7)] by simp
  ultimately show ?thesis using log_inv_frame [OF i untouchedD(1) [OF t(7)] t(5,6)]
    by (auto simp: runs_def caches_def)
qed

lemma lset_data:
  assumes i: "log_inv me H s" and b: "b \<in> H" and d: "length d = BSIZE"
  shows "log_inv me H (set_data b d s)" "blk (set_data b d s) = (blk s)(blockno (bufs s b) := d)"
  using binv_set_data' [OF log_invD(2) [OF i] b d] log_inv_frame [OF i set_data_fields(5)] log_invD(1) [OF i] by simp_all

lemma lrelse_runs:
  assumes i: "log_inv me H s" and b: "b \<in> H" and cl: "blockno (bufs s b) \<in> set (lh_list s) \<or> bdata (bufs s b) = disk s (blockno (bufs s b))"
  shows "runs (brelse b s) (\<lambda>t. log_inv me (H - {b}) t \<and> untouched me H s t)"
proof -
  note d = log_invD [OF i]
  obtain t where t: "brelse b s = Some t" "calm me {} t" "binv me (H - {b}) (set (lh_list s)) t" "untouched me H s t"
    using brelse_runs [OF d(1) fs_free_empty d(2) b cl] by (auto elim!: runsE)
  then show ?thesis using log_inv_frame [OF i untouchedD(1) [OF t(4)] t(2,3)] by (simp add: runs_def)
qed

text \<open>The pattern of the file system: read a block, change it, log it, release it.\<close>

definition tx_step :: "nat \<Rightarrow> u32 \<Rightarrow> 'a log_scheme \<Rightarrow> 'a log_scheme \<Rightarrow> bool" where
  "tx_step me n s t \<longleftrightarrow> tframe me s t \<and> disk t = disk s \<and> dtrace t = dtrace s \<and> set (lh_list t) = insert n (set (lh_list s))"

lemma tframe_log: "tframe me s t \<Longrightarrow> lstart t = lstart s \<and> ldev t = ldev s \<and> outstanding t = outstanding s \<and> committing t = committing s"
  by (auto elim!: tframeE)

lemma log_release_runs:
  assumes i: "log_inv me (insert b H) s" and b: "b \<notin> H" "blockno (bufs s b) = n" "n \<notin> log_area (lstart s)"
    and o: "1 \<le> outstanding s" and r: "lh_n s < int LOGBLOCKS" and d: "length d = BSIZE"
  shows "runs (do { s \<leftarrow> log_write b (set_data b d s); brelse b s }) (\<lambda>t. log_inv me H t \<and> tx_step me n s t \<and>
    blk t = (blk s)(n := d) \<and> (\<forall>h\<in>H. blockno (bufs t h) = blockno (bufs s h) \<and> bdata (bufs t h) = bdata (bufs s h)))"
proof -
  let ?s = "set_data b d s"
  have s: "log_inv me (insert b H) ?s" "blk ?s = (blk s)(n := d)" using lset_data [OF i _ d, of b] b by simp_all
  have f: "lh_list ?s = lh_list s" "lstart ?s = lstart s" "outstanding ?s = outstanding s" "lh_n ?s = lh_n s"
    using bframe_log [of me s ?s] by simp_all
  obtain u where u: "log_write b ?s = Some u" "log_inv me (insert b H) u" "set (lh_list u) = insert n (set (lh_list s))"
    "tframe me ?s u" "blk u = blk ?s" "disk u = disk s" "dtrace u = dtrace s"
    "\<forall>h\<in>insert b H. blockno (bufs u h) = blockno (bufs ?s h) \<and> bdata (bufs u h) = bdata (bufs ?s h)"
    using log_write_runs [OF s(1), of b] b f o r by (auto elim!: runsE)
  have "blockno (bufs u b) \<in> set (lh_list u)" using u(3,8) b(2) by simp
  then obtain t where t: "brelse b u = Some t" "log_inv me (insert b H - {b}) t" "untouched me (insert b H) u t"
    using lrelse_runs [OF u(2), of b] by (auto elim!: runsE)
  have H: "insert b H - {b} = H" using b(1) by blast
  note ut = untouchedD [OF t(3)] and uh = untouched_held [OF t(3)]
  have "tframe me s t" using tframe_trans [OF tframe_trans [OF bframe_tframe [OF set_data_fields(5)] u(4)] bframe_tframe [OF ut(1)]] .
  moreover have "lh_list t = lh_list u" using bframe_log(7) [OF ut(1)] .
  moreover have "blockno (bufs t h) = blockno (bufs s h) \<and> bdata (bufs t h) = bdata (bufs s h)" if "h \<in> H" for h
    using uh [of h] u(8) that b(1) by auto
  ultimately show ?thesis using u t s(2) ut unfolding H by (simp add: runs_def tx_step_def)
qed

end
