(* ===== verification/Crash.thy ===== *)
theory Crash
  imports Logging
begin

text \<open>
  Crashes. The disk does one block at a time, so a crash leaves the disk after some prefix of the
  writes; memory is lost and the system boots into \<open>initlog\<close>, which itself may be cut short any
  number of times. \<open>recovered\<close> is the disk that recovery is to produce: the blocks of the header,
  installed.
\<close>

section \<open>The header on the disk\<close>

definition hdr_blocks :: "bytes \<Rightarrow> u32 list" where
  "hdr_blocks d = map (\<lambda>i. get32 d (4 + 4 * i)) [0..<nat (sint (get32 d 0))]"

lemma sint_small: "0 \<le> n \<Longrightarrow> n \<le> int LOGBLOCKS \<Longrightarrow> sint (word_of_int n :: u32) = n"
  by (simp add: sint_uint signed_take_bit_int_eq_self_iff uint_word_of_int LOGBLOCKS_def bio_defs)

lemma hdr_head_block:
  assumes "length bs \<le> LOGBLOCKS" and "length d = BSIZE"
  shows "hdr_blocks (head_block bs d) = bs" "sint (get32 (head_block bs d) 0) = int (length bs)"
proof -
  let ?d = "put32 0 (word_of_int (int (length bs))) d"
  have l: "4 + 4 * (0 + length bs) \<le> length ?d" using assms by (simp add: LOGBLOCKS_def bio_defs)
  have "get32 (head_block bs d) 0 = word_of_int (int (length bs))"
    using get_put_blocks_before [OF l, of 0] assms(2) by (simp add: head_block_def bio_defs)
  then show n: "sint (get32 (head_block bs d) 0) = int (length bs)" using sint_small [of "int (length bs)"] assms(1) by simp
  have "get32 (head_block bs d) (4 + 4 * i) = bs ! i" if "i < length bs" for i
    using get_put_blocks [OF l that] by (simp add: head_block_def)
  then show "hdr_blocks (head_block bs d) = bs" unfolding hdr_blocks_def n by (intro nth_equalityI) auto
qed

text \<open>A disk whose log makes sense: at most \<open>LOGBLOCKS\<close> entries, none of them in the log itself.\<close>

definition log_disk_ok :: "u32 \<Rightarrow> (u32 \<Rightarrow> bytes) \<Rightarrow> bool" where
  "log_disk_ok ls d \<longleftrightarrow> log_fits ls \<and> (\<forall>n. length (d n) = BSIZE) \<and> sint (get32 (d ls) 0) \<le> int LOGBLOCKS \<and>
     set (hdr_blocks (d ls)) \<inter> log_area ls = {}"

definition install_writes :: "u32 \<Rightarrow> (u32 \<Rightarrow> bytes) \<Rightarrow> (u32 \<times> bytes) list" where
  "install_writes ls d = map (\<lambda>i. (hdr_blocks (d ls) ! i, d (ls + of_nat i + 1))) [0..<length (hdr_blocks (d ls))]"

definition recovered :: "u32 \<Rightarrow> (u32 \<Rightarrow> bytes) \<Rightarrow> u32 \<Rightarrow> bytes" where
  "recovered ls d = after (install_writes ls d) d"

definition recover_writes :: "u32 \<Rightarrow> (u32 \<Rightarrow> bytes) \<Rightarrow> (u32 \<times> bytes) list" where
  "recover_writes ls d = install_writes ls d @ [(ls, head_block [] (d ls))]"

section \<open>Recovery does what it should\<close>

lemma read_head_runs:
  assumes r: "rest me {} s" and dev: "ldev s = ROOTDEV" and n: "sint (get32 (disk s (lstart s)) 0) \<le> int LOGBLOCKS"
  shows "runs (read_head s) (\<lambda>t. rest me {} t \<and> lstart t = lstart s \<and> ldev t = ldev s \<and>
    lh_n t = sint (get32 (disk s (lstart s)) 0) \<and> lh_list t = hdr_blocks (disk s (lstart s)) \<and> blk t = blk s \<and> disk t = disk s \<and>
    dtrace t = dtrace s \<and> outstanding t = outstanding s \<and> committing t = committing s)"
proof -
  have c: "calm me {} s" "binv me {} {} s" using r by (auto simp: rest_def)
  have bd: "blk s (lstart s) = disk s (lstart s)" using blk_clean [OF c(2)] by simp
  let ?d = "disk s (lstart s)"
  obtain a s1 where 1: "bread ROOTDEV (lstart s) s = Some (a, s1)" "caches (bufs s1) a (lstart s)" "bdata (bufs s1 a) = ?d"
    "calm me {} s1" "binv me {a} {} s1" "untouched me {} s s1"
    using bread_runs [OF c(1) fs_free_empty c(2), of "lstart s"] bd by (auto simp: bio_defs elim!: runsE)
  note u1 = untouchedD [OF 1(6)] and f1 = bframe_log [OF untouchedD(1) [OF 1(6)]]
  let ?s2 = "s1\<lparr>lh_n := sint (get32 ?d 0), lh_block := (\<lambda>i. if int i < sint (get32 ?d 0) then get32 ?d (4 + 4 * i) else lh_block s1 i)\<rparr>"
  have 2: "calm me {} ?s2" "binv me {a} {} ?s2" "blockno (bufs ?s2 a) = lstart s" "bdata (bufs ?s2 a) = ?d" "disk ?s2 = disk s"
    using 1 u1 by (simp_all add: calm_def binv_def caches_def)
  obtain t where 3: "brelse a ?s2 = Some t" "calm me {} t" "binv me ({a} - {a}) {} t" "untouched me {a} ?s2 t"
    using brelse_runs [OF 2(1) fs_free_empty 2(2), of a] 2(3-5) by (auto elim!: runsE)
  note u3 = untouchedD [OF 3(4)] and f3 = bframe_log [OF untouchedD(1) [OF 3(4)]]
  have "read_head s = Some t" using 1(1,3) 3(1) dev n by (simp add: read_head_def)
  moreover have "lh_list ?s2 = hdr_blocks ?d" by (auto simp: lh_list_def hdr_blocks_def)
  ultimately show ?thesis using 3(2,3) u1 u3 f1 f3 by (simp add: runs_def rest_def)
qed

lemma recover_runs:
  assumes r: "rest me {} s" and dev: "ldev s = ROOTDEV" and ok: "log_disk_ok (lstart s) (disk s)"
  shows "runs (recover_from_log s) (\<lambda>t. log_ok me t \<and> lh_n t = 0 \<and> lstart t = lstart s \<and>
    dtrace t = dtrace s @ recover_writes (lstart s) (disk s) \<and> disk t = after (recover_writes (lstart s) (disk s)) (disk s) \<and>
    outstanding t = outstanding s \<and> committing t = committing s)"
proof -
  let ?ls = "lstart s" and ?bs = "hdr_blocks (disk s (lstart s))"
  have n: "sint (get32 (disk s ?ls) 0) \<le> int LOGBLOCKS" and fits: "log_fits ?ls" and dj: "set ?bs \<inter> log_area ?ls = {}"
    using ok by (auto simp: log_disk_ok_def)
  obtain s1 where 1: "read_head s = Some s1" "rest me {} s1" "lstart s1 = ?ls" "ldev s1 = ldev s"
    "lh_n s1 = sint (get32 (disk s ?ls) 0)" "lh_list s1 = ?bs" "blk s1 = blk s" "disk s1 = disk s" "dtrace s1 = dtrace s"
    "outstanding s1 = outstanding s" "committing s1 = committing s"
    using read_head_runs [OF r dev n] by (auto elim!: runsE)
  let ?ts = "[0..<nat (lh_n s1)]"
  have nth: "lh_block s1 i = ?bs ! i" if "i < nat (lh_n s1)" for i
    using lh_list_nth [OF that] 1(6) by simp
  have len: "length ?bs = nat (lh_n s1)" using 1(6) by (simp flip: 1(6) add: lh_list_def)
  have area: "?ls + of_nat i + 1 \<in> log_area ?ls" if "i < nat (lh_n s1)" for i
    using that n 1(5) by (auto simp: log_area_def)
  have inbs: "lh_block s1 i \<in> set ?bs" if "i < nat (lh_n s1)" for i using nth [OF that] that len by simp
  have "runs (install_loop True ?ts s1) (\<lambda>t. rest me (if True then {} else {} - lh_block s1 ` set ?ts) t \<and> wrote me (home_writes s1 ?ts) s1 t)"
  proof (rule install_loop_runs [OF 1(2)])
    show "\<forall>i\<in>set ?ts. lstart s1 + of_nat i + 1 \<notin> {} \<and> (\<forall>j\<in>set ?ts. lstart s1 + of_nat i + 1 \<noteq> lh_block s1 j) \<and>
         (lh_block s1 i \<in> {} \<longleftrightarrow> \<not> True)"
      using inbs area dj 1(3) by fastforce
  qed (use dev 1(4) in \<open>simp_all add: bio_defs\<close>)
  then obtain s2 where 2: "install_trans True s1 = Some s2" "rest me {} s2" "wrote me (home_writes s1 ?ts) s1 s2"
    by (auto simp: install_trans_def elim!: runsE)
  note f2 = bframe_log [OF wrote_bframe [OF 2(3)]]
  have b1: "blk s1 n = disk s n" for n using blk_clean [of me "{}" s1 n] 1(2,8) by (simp add: rest_def)
  have hw: "home_writes s1 ?ts = install_writes ?ls (disk s)"
    unfolding home_writes_def install_writes_def len using nth by (simp add: b1 1(3))
  have nl: "?ls \<notin> fst ` set (home_writes s1 ?ts)"
    using inbs dj 1(3) by (auto simp: home_writes_def log_area_def)
  then have "blk s2 ?ls = disk s ?ls" using 2(3) b1 by (simp add: wrote_def after_other)
  moreover have "lh_list (s2\<lparr>lh_n := 0\<rparr>) = []" by (simp add: lh_list_def)
  ultimately obtain t where 3: "write_head (s2\<lparr>lh_n := 0\<rparr>) = Some t" "rest me {} t"
    "wrote me [(?ls, head_block [] (disk s ?ls))] (s2\<lparr>lh_n := 0\<rparr>) t"
    using write_head_runs [of me "{}" "s2\<lparr>lh_n := 0\<rparr>"] 2(2) dev f2 1(3,4) by (auto simp: bio_defs elim!: runsE)
  note f3 = bframe_log [OF wrote_bframe [OF 3(3)]]
  have "recover_from_log s = Some t" using 1(1) 2(1) 3(1) by (simp add: recover_from_log_def)
  moreover have "log_ok me t" using 3(2) f3 f2 fits dev 1(3,4) by (simp add: log_ok_def lh_list_def)
  ultimately show ?thesis
    using 2(3) 3(3) f3 f2 1(3,8-11) unfolding runs_def wrote_def recover_writes_def hw by simp
qed

section \<open>Any prefix of the writes\<close>

lemma after_overwrite: "n \<in> fst ` set ws \<Longrightarrow> after ws d n = after ws e n"
proof (induction ws arbitrary: d e)
  case (Cons w ws)
  obtain a x where w: "w = (a, x)" by (cases w)
  show ?case
  proof (cases "n \<in> fst ` set ws")
    case True
    from Cons.IH [OF this, of "d(a := x)" "e(a := x)"] show ?thesis by (simp only: w fold_simps put_block_pair)
  next
    case False
    then have "n = a" using Cons.prems w by auto
    with False show ?thesis by (simp add: w after_other)
  qed
qed simp

lemma after_length: "\<forall>n. length (d n) = BSIZE \<Longrightarrow> \<forall>w\<in>set ws. length (snd w) = BSIZE \<Longrightarrow> length (after ws d n) = BSIZE"
proof (induction ws arbitrary: d)
  case (Cons w ws)
  obtain a x where w: "w = (a, x)" by (cases w)
  have "\<forall>n. length ((d(a := x)) n) = BSIZE" using Cons.prems by (auto simp: w)
  then have "length (after ws (d(a := x)) n) = BSIZE" using Cons.prems(2) by (intro Cons.IH) auto
  then show ?case by (simp only: w fold_simps put_block_pair)
qed simp

lemma take_append_cases:
  "k \<le> length xs \<Longrightarrow> take k (xs @ ys) = take k xs" "length xs \<le> k \<Longrightarrow> take k (xs @ ys) = xs @ take (k - length xs) ys"
  by simp_all

text \<open>A recovery that is cut short, at any write, leaves a disk that recovers to the same blocks.\<close>

lemma recovered_same_log:
  assumes "d' ls = d ls" and "\<And>i. i < length (hdr_blocks (d ls)) \<Longrightarrow> d' (ls + of_nat i + 1) = d (ls + of_nat i + 1)"
  shows "install_writes ls d' = install_writes ls d"
  using assms by (simp add: install_writes_def)

lemma hdr_length: "sint (get32 d 0) \<le> int LOGBLOCKS \<Longrightarrow> length (hdr_blocks d) \<le> LOGBLOCKS"
  by (simp add: hdr_blocks_def)

lemma recover_prefix:
  assumes ok: "log_disk_ok ls d" and d'_def: "d' = after (take k (recover_writes ls d)) d"
  shows "log_disk_ok ls d' \<and> (\<forall>n. n \<notin> log_area ls \<longrightarrow> recovered ls d' n = recovered ls d n)"
proof -
  let ?bs = "hdr_blocks (d ls)" and ?ws = "install_writes ls d"
  have fits: "log_fits ls" and len: "\<forall>n. length (d n) = BSIZE" and dj: "set ?bs \<inter> log_area ls = {}"
    and nl: "length ?bs \<le> LOGBLOCKS" and sl: "sint (get32 (d ls) 0) \<le> int LOGBLOCKS"
    using ok hdr_length by (auto simp: log_disk_ok_def)
  have "map fst ?ws = ?bs" by (simp add: install_writes_def o_def map_nth)
  then have fst: "fst ` set ?ws = set ?bs" by (metis set_map)
  have lo: "ls + of_nat i + 1 \<in> log_area ls" if "i < length ?bs" for i using that nl by (auto simp: log_area_def)
  have ls: "ls \<in> log_area ls" by (simp add: log_area_def)
  have hl: "length (head_block [] (d ls)) = BSIZE" using len head_block_length by simp
  have "\<forall>w\<in>set (recover_writes ls d). length (snd w) = BSIZE"
    using len hl by (auto simp: recover_writes_def install_writes_def)
  then have len': "length (d' n) = BSIZE" for n
    unfolding d'_def by (intro after_length [OF len]) (auto dest: in_set_takeD)
  show ?thesis
  proof (cases "k \<le> length ?ws")
    case True
    then have d': "d' = after (take k ?ws) d" by (simp add: d'_def recover_writes_def)
    have sub: "fst ` set (take k ?ws) \<subseteq> set ?bs" using fst by (auto dest: in_set_takeD)
    then have keep: "d' n = d n" if "n \<notin> set ?bs" for n unfolding d' using that by (intro after_other) auto
    have iw: "install_writes ls d' = ?ws"
      by (rule recovered_same_log) (use keep dj ls lo in auto)
    have "recovered ls d' n = recovered ls d n" for n
    proof (cases "n \<in> set ?bs")
      case True
      then show ?thesis unfolding recovered_def iw using after_overwrite [of n ?ws d' d] fst by simp
    next
      case False
      then show ?thesis unfolding recovered_def iw using keep after_other [of n ?ws] fst by simp
    qed
    moreover have "d' ls = d ls" using keep ls dj by auto
    ultimately show ?thesis using fits len' sl dj by (simp add: log_disk_ok_def)
  next
    case False
    then have d': "d' = (recovered ls d)(ls := head_block [] (d ls))"
      by (simp add: d'_def recover_writes_def recovered_def)
    have h: "hdr_blocks (d' ls) = []" "sint (get32 (d' ls) 0) = 0"
      using hdr_head_block [of "[]" "d ls"] len by (simp_all add: d')
    then have "recovered ls d' = d'" by (simp add: recovered_def install_writes_def)
    then have "\<forall>n. n \<notin> log_area ls \<longrightarrow> recovered ls d' n = recovered ls d n" using ls by (auto simp: d')
    then show ?thesis using h fits len' by (simp add: log_disk_ok_def)
  qed
qed

text \<open>The disk after a prefix of the writes of a commit recovers to the old blocks or to the new ones.\<close>

definition cwrites :: "u32 \<Rightarrow> (u32 \<Rightarrow> bytes) \<Rightarrow> (u32 \<Rightarrow> bytes) \<Rightarrow> u32 list \<Rightarrow> (u32 \<times> bytes) list" where
  "cwrites ls d v bs = (let h = head_block bs (d ls) in
     map (\<lambda>i. (ls + of_nat i + 1, v (bs ! i))) [0..<length bs] @ [(ls, h)] @ map (\<lambda>b. (b, v b)) bs @ [(ls, head_block [] h)])"

lemma commit_writes_eq: "commit_writes s = cwrites (lstart s) (disk s) (blk s) (lh_list s)"
  by (simp add: commit_writes_def cwrites_def Let_def)

lemma recovered_empty: "hdr_blocks (d ls) = [] \<Longrightarrow> recovered ls d = d"
  by (simp add: recovered_def install_writes_def)

lemma recovered_full:
  assumes "hdr_blocks (d ls) = bs" and "distinct bs" and "\<And>i. i < length bs \<Longrightarrow> d (ls + of_nat i + 1) = v (bs ! i)"
  shows "recovered ls d n = (if n \<in> set bs then v n else d n)"
proof -
  have ws: "install_writes ls d = map (\<lambda>b. (b, v b)) bs"
    by (rule nth_equalityI) (use assms in \<open>simp_all add: install_writes_def\<close>)
  show ?thesis
  proof (cases "n \<in> set bs")
    case True
    then show ?thesis using after_map [of "\<lambda>b. b" bs n v d] assms(2) unfolding recovered_def ws by simp
  next
    case False
    then have "n \<notin> fst ` set (map (\<lambda>b. (b, v b)) bs)" by auto
    from after_other [OF this] False show ?thesis unfolding recovered_def ws by simp
  qed
qed

lemma take_both: "take k (xs @ [y] @ ys @ [z]) =
    (if k \<le> length xs then take k xs else if k \<le> Suc (length xs + length ys) then xs @ [y] @ take (k - Suc (length xs)) ys
     else xs @ [y] @ ys @ [z])"
proof -
  have "take (k - length xs) ([y] @ ys @ [z]) = [y] @ take (k - Suc (length xs)) (ys @ [z])" if l: "length xs < k"
  proof -
    obtain m where m: "k = Suc (length xs + m)" using less_imp_Suc_add [OF l] by auto
    show ?thesis by (simp add: m)
  qed
  then show ?thesis by (auto simp: not_le)
qed

lemma commit_prefix:
  assumes fits: "log_fits ls" and len: "\<forall>n. length (d n) = BSIZE" "\<forall>n. length (v n) = BSIZE"
    and bs: "length bs \<le> LOGBLOCKS" "distinct bs" "set bs \<inter> log_area ls = {}"
    and same: "\<And>n. n \<notin> set bs \<Longrightarrow> v n = d n" and h0: "hdr_blocks (d ls) = []" "sint (get32 (d ls) 0) \<le> int LOGBLOCKS"
    and d'_def: "d' = after (take k (cwrites ls d v bs)) d"
  shows "log_disk_ok ls d' \<and> (\<forall>n. n \<notin> log_area ls \<longrightarrow> recovered ls d' n = (if k \<le> length bs then d n else v n))"
proof -
  let ?h = "head_block bs (d ls)"
  let ?ws = "map (\<lambda>i. (ls + of_nat i + 1, v (bs ! i))) [0..<length bs]" and ?vs = "map (\<lambda>b. (b, v b)) bs"
  have lh: "length ?h = BSIZE" using head_block_length [OF bs(1)] len by simp
  have hh: "hdr_blocks ?h = bs" "sint (get32 ?h 0) = int (length bs)" using hdr_head_block [OF bs(1)] len(1) by simp_all
  have h1: "hdr_blocks (head_block [] ?h) = []" "sint (get32 (head_block [] ?h) 0) = 0" using hdr_head_block [of "[]" ?h] lh by simp_all
  have ls: "ls \<in> log_area ls" "ls \<notin> set bs" using bs(3) by (auto simp: log_area_def)
  have lo: "ls + of_nat i + 1 \<in> log_area ls" "ls + of_nat i + 1 \<notin> set bs" "ls + of_nat i + 1 \<noteq> ls" if "i < length bs" for i
  proof -
    show a: "ls + of_nat i + 1 \<in> log_area ls" using that bs(1) by (auto simp: log_area_def)
    then show "ls + of_nat i + 1 \<notin> set bs" using bs(3) by blast
    show "ls + of_nat i + 1 \<noteq> ls" using log_area_ne [OF fits, of i] that bs(1) by simp
  qed
  have fw: "fst ` set ?ws \<subseteq> log_area ls - {ls}" using lo by auto
  have fv: "fst ` set ?vs = set bs" by force
  have cw: "cwrites ls d v bs = ?ws @ [(ls, ?h)] @ ?vs @ [(ls, head_block [] ?h)]" by (simp add: cwrites_def Let_def)
  have "\<forall>w\<in>set (cwrites ls d v bs). length (snd w) = BSIZE"
    using len lh head_block_length [of "[]" ?h] by (auto simp: cw)
  then have len': "length (d' n) = BSIZE" for n
    unfolding d'_def by (intro after_length [OF len(1)]) (auto dest: in_set_takeD)
  define e where "e = after ?ws d"
  have eh: "e n = d n" if "n \<notin> log_area ls - {ls}" for n unfolding e_def using that fw by (intro after_other) auto
  have inj: "distinct (map (\<lambda>i. ls + of_nat i + 1) [0..<length bs])"
    unfolding distinct_map using bs(1) by (auto intro!: inj_onI log_area_inj [OF fits])
  have el: "e (ls + of_nat i + 1) = v (bs ! i)" if "i < length bs" for i
    unfolding e_def using after_map [OF inj, of i] that by simp
  consider (log) "k \<le> length bs" | (home) "length bs < k" "k \<le> Suc (length bs + length bs)" | (over) "Suc (length bs + length bs) < k" by linarith
  then show ?thesis
  proof cases
    case log
    then have d': "d' = after (take k ?ws) d" unfolding d'_def cw take_both by simp
    have "fst ` set (take k ?ws) \<subseteq> fst ` set ?ws" by (intro image_mono set_take_subset)
    then have keep: "d' n = d n" if "n \<notin> log_area ls - {ls}" for n unfolding d' using that fw by (intro after_other) blast
    then have "d' ls = d ls" by simp
    then show ?thesis using log h0 keep fits len' recovered_empty [of d' ls] by (simp add: log_disk_ok_def)
  next
    case home
    let ?m = "k - Suc (length bs)"
    have d': "d' = after (take ?m ?vs) (e(ls := ?h))" using home unfolding d'_def cw take_both e_def by simp
    have sub: "fst ` set (take ?m ?vs) \<subseteq> set bs" using fv by (auto dest: in_set_takeD)
    then have keep: "d' n = (e(ls := ?h)) n" if "n \<notin> set bs" for n unfolding d' using that by (intro after_other) auto
    have hd: "d' ls = ?h" using keep ls by simp
    have lv: "d' (ls + of_nat i + 1) = v (bs ! i)" if "i < length bs" for i using keep lo [OF that] el [OF that] by simp
    have rec: "recovered ls d' n = (if n \<in> set bs then v n else d' n)" for n
      by (rule recovered_full [of d' ls bs v]) (use hd hh bs(2) lv in simp_all)
    have "recovered ls d' n = v n" if "n \<notin> log_area ls" for n
      using that rec keep [of n] eh [of n] same [of n] ls by auto
    then show ?thesis using home hd hh bs fits len' by (simp add: log_disk_ok_def)
  next
    case over
    then have d': "d' = (after ?vs (e(ls := ?h)))(ls := head_block [] ?h)" unfolding d'_def cw take_both e_def by simp
    have hd: "d' ls = head_block [] ?h" by (simp add: d')
    then have "recovered ls d' = d'" using h1 by (intro recovered_empty) simp
    moreover have "d' n = v n" if "n \<notin> log_area ls" for n
    proof (cases "n \<in> set bs")
      case True
      then show ?thesis using after_map [of "\<lambda>b. b" bs n v] bs(2) that ls unfolding d' by auto
    next
      case False
      then show ?thesis using after_other [of n ?vs] fv eh [of n] that ls same [of n] unfolding d' by auto
    qed
    ultimately show ?thesis using over hd h1 fits len' by (simp add: log_disk_ok_def)
  qed
qed

section \<open>Booting, and the end of an operation\<close>

lemma initlog_runs:
  assumes r: "rest me {} s" and ok: "log_disk_ok (sb_logstart sb) (disk s)"
  shows "runs (initlog ROOTDEV sb s) (\<lambda>t. log_ok me t \<and> lh_n t = 0 \<and>
    dtrace t = dtrace s @ recover_writes (sb_logstart sb) (disk s) \<and>
    disk t = after (recover_writes (sb_logstart sb) (disk s)) (disk s))"
proof -
  let ?s = "(initlock LogLock ''log'' s)\<lparr>lstart := sb_logstart sb, ldev := ROOTDEV\<rparr>"
  have "rest me {} ?s"
    using r calm_initlock [of me s LogLock "''log''"] by (simp add: rest_def calm_def binv_def initlock_def)
  then have "runs (recover_from_log ?s) (\<lambda>t. log_ok me t \<and> lh_n t = 0 \<and> lstart t = lstart ?s \<and>
      dtrace t = dtrace ?s @ recover_writes (lstart ?s) (disk ?s) \<and> disk t = after (recover_writes (lstart ?s) (disk ?s)) (disk ?s) \<and>
      outstanding t = outstanding ?s \<and> committing t = committing ?s)"
    using ok by (intro recover_runs) (simp_all add: initlock_def)
  then show ?thesis by (auto simp: initlog_def Let_def LOGBLOCKS_def bio_defs initlock_def runs_def)
qed

text \<open>The last operation of a transaction commits it.\<close>

lemma end_op_runs:
  assumes ok: "log_ok me s" and n: "0 < lh_n s" "lh_n s < int NBUF" and o: "outstanding s = 1" "\<not> committing s"
  shows "runs (end_op s) (\<lambda>t. log_ok me t \<and> lh_n t = 0 \<and> outstanding t = 0 \<and> \<not> committing t \<and> lstart t = lstart s \<and>
    dtrace t = dtrace s @ commit_writes s \<and> disk t = after (commit_writes s) (disk s) \<and> blk t = after (commit_writes s) (blk s))"
proof -
  have c: "calm me {} s" "binv me {} (set (lh_list s)) s" using ok by (auto simp: log_ok_def rest_def)
  obtain s1 where 1: "acquire LogLock s = Some s1" "calm me {LogLock} s1" "quiet me s s1" using log_locked [OF c(1)] .
  note q1 = quiet_log [OF 1(3)] quiet_bframe [OF 1(3)]
  let ?s2 = "s1\<lparr>outstanding := 0, committing := True\<rparr>"
  obtain s3 where 3: "release LogLock ?s2 = Some s3" "calm me {} s3" "quiet me ?s2 s3"
    using log_unlock [of me ?s2] 1(2) by (auto elim!: runsE)
  note q3 = quiet_log [OF 3(3)] quiet_bframe [OF 3(3)]
  have b2: "blk ?s2 = blk s" "lh_list ?s2 = lh_list s" "disk ?s2 = disk s" "dtrace ?s2 = dtrace s"
    "binv me {} D ?s2 = binv me {} D s" for D
    using q1 by (simp_all add: lh_list_def binv_def)
  have "log_ok me s3" using ok 3(2) c(2) by (simp add: log_ok_def rest_def q3 b2 q1)
  then obtain s4 where 4: "commit s3 = Some s4" "log_ok me s4" "lh_n s4 = 0" "dtrace s4 = dtrace s3 @ commit_writes s3"
    "disk s4 = after (commit_writes s3) (disk s3)" "blk s4 = after (commit_writes s3) (blk s3)" "lstart s4 = lstart s3"
    "outstanding s4 = outstanding s3" "committing s4 = committing s3"
    using commit_runs [of me s3] n by (auto simp: q3 q1 elim!: runsE)
  have cw: "commit_writes s3 = commit_writes s" by (simp add: commit_writes_eq q3 b2 q1)
  have c4: "calm me {} s4" using 4(2) by (simp add: log_ok_def rest_def)
  obtain s5 where 5: "acquire LogLock s4 = Some s5" "calm me {LogLock} s5" "quiet me s4 s5" using log_locked [OF c4] .
  let ?s6 = "s5\<lparr>committing := False\<rparr>"
  obtain s7 where 7: "wakeup (Some ChanLog) ?s6 = Some s7" "calm me {LogLock} s7" "quiet me ?s6 s7"
    using calm_wakeup [of me "{LogLock}" ?s6 "Some ChanLog"] 5(2) by (auto elim!: runsE)
  obtain t where 8: "release LogLock s7 = Some t" "calm me {} t" "quiet me s7 t"
    using log_unlock [OF 7(2)] by (auto elim!: runsE)
  note q5 = quiet_log [OF 5(3)] quiet_bframe [OF 5(3)] and q7 = quiet_log [OF 7(3)] quiet_bframe [OF 7(3)]
    and q8 = quiet_log [OF 8(3)] quiet_bframe [OF 8(3)]
  have "end_op s = Some t" using 1(1) 3(1) 4(1) 5(1) 7(1) 8(1) o by (simp add: end_op_def q1)
  moreover have "lh_list ?s6 = lh_list s4" "binv me {} D ?s6 = binv me {} D s5" for D using q5 by (simp_all add: lh_list_def binv_def)
  then have "log_ok me t" using 4(2) 8(2) by (simp add: log_ok_def rest_def q8 q7 q5)
  ultimately show ?thesis using 4 by (simp add: runs_def q8 q7 q5 q3 q1 b2 cw)
qed

text \<open>Boots that were cut short: \<open>reboots sb d e\<close> when the disk \<open>d\<close> became \<open>e\<close> by a number of them.\<close>

inductive reboots :: "superblock \<Rightarrow> (u32 \<Rightarrow> bytes) \<Rightarrow> (u32 \<Rightarrow> bytes) \<Rightarrow> bool" for sb where
  none: "reboots sb d d"
| again: "reboots sb d (disk r) \<Longrightarrow> rest me {} r \<Longrightarrow> initlog ROOTDEV sb (r :: log) = Some t \<Longrightarrow> dtrace t = dtrace r @ ws \<Longrightarrow>
    reboots sb d (after (take k ws) (disk r))"

lemma reboots_recovered:
  assumes "reboots sb d e" and "log_disk_ok (sb_logstart sb) d"
  shows "log_disk_ok (sb_logstart sb) e \<and> (\<forall>n. n \<notin> log_area (sb_logstart sb) \<longrightarrow> recovered (sb_logstart sb) e n = recovered (sb_logstart sb) d n)"
  using assms
proof (induction rule: reboots.induct)
  case (again d r me t ws k)
  then have ok: "log_disk_ok (sb_logstart sb) (disk r)" by blast
  have "ws = recover_writes (sb_logstart sb) (disk r)"
    using initlog_runs [OF again.hyps(2) ok] again.hyps(3,4) by (simp add: runs_def)
  from recover_prefix [OF ok, of _ k] again.IH again.prems this show ?case by simp
qed simp

lemma boot_recovers:
  assumes "rest me {} r" and "log_disk_ok (sb_logstart sb) (disk r)"
  shows "\<exists>u. initlog ROOTDEV sb r = Some u \<and> lh_n u = 0 \<and>
    (\<forall>n. n \<notin> log_area (sb_logstart sb) \<longrightarrow> disk u n = recovered (sb_logstart sb) (disk r) n)"
proof -
  obtain u where u: "initlog ROOTDEV sb r = Some u" "lh_n u = 0" "disk u = after (recover_writes (sb_logstart sb) (disk r)) (disk r)"
    using initlog_runs [OF assms] by (auto elim!: runsE)
  have "disk u = (recovered (sb_logstart sb) (disk r))(sb_logstart sb := head_block [] (disk r (sb_logstart sb)))"
    by (simp add: u(3) recover_writes_def recovered_def)
  with u(1,2) show ?thesis by (auto simp: log_area_def)
qed

lemma commit_crash:
  assumes ok: "log_ok me s" and h0: "hdr_blocks (disk s (lstart s)) = []"
  shows "log_disk_ok (lstart s) (after (take k (commit_writes s)) (disk s)) \<and>
    (\<forall>n. n \<notin> log_area (lstart s) \<longrightarrow> recovered (lstart s) (after (take k (commit_writes s)) (disk s)) n =
      (if k \<le> nat (lh_n s) then disk s n else blk s n))"
proof -
  have i: "binv me {} (set (lh_list s)) s" and fits: "log_fits (lstart s)" and dj: "set (lh_list s) \<inter> log_area (lstart s) = {}"
    and ds: "distinct (lh_list s)" and nl: "nat (lh_n s) = length (lh_list s)" "length (lh_list s) \<le> LOGBLOCKS"
    using ok by (auto simp: log_ok_def rest_def lh_list_def)
  have h: "sint (get32 (disk s (lstart s)) 0) \<le> int LOGBLOCKS" using h0 by (simp add: hdr_blocks_def LOGBLOCKS_def)
  show ?thesis unfolding commit_writes_eq nl(1)
    by (rule commit_prefix [of "lstart s" "disk s" "blk s" "lh_list s"])
      (use fits nl ds dj h0 h binvD(5) [OF i] blk_length [OF i] blk_clean [OF i] in auto)
qed

section \<open>Properties\<close>

text \<open>C1. Crash atomicity. The last \<open>end_op\<close> of a transaction returns, and whatever prefix of its disk
  writes a crash lets through, and however often recovery itself is interrupted and started over, the
  boot that completes finds every block outside the log as it was before the transaction if the header
  had not been written, and as the transaction left it otherwise: never a mixture.\<close>

theorem transaction_atomic:
  assumes "log_ok me s" and "0 < lh_n s" and "lh_n s < int NBUF" and "outstanding s = 1" and "\<not> committing s"
    and "hdr_blocks (disk s (lstart s)) = []" and "sb_logstart sb = lstart s"
  shows "\<exists>t ws. end_op s = Some t \<and> dtrace t = dtrace s @ ws \<and>
    (\<forall>k me' r. reboots sb (after (take k ws) (disk s)) (disk r) \<and> rest me' {} (r :: log) \<longrightarrow>
      (\<exists>u. initlog ROOTDEV sb r = Some u \<and> lh_n u = 0 \<and>
        (\<forall>n. n \<notin> log_area (lstart s) \<longrightarrow> disk u n = (if k \<le> nat (lh_n s) then disk s n else blk s n))))"
proof -
  obtain t where t: "end_op s = Some t" "dtrace t = dtrace s @ commit_writes s"
    using end_op_runs [OF assms(1-5)] by (auto elim!: runsE)
  have "\<exists>u. initlog ROOTDEV sb r = Some u \<and> lh_n u = 0 \<and>
      (\<forall>n. n \<notin> log_area (lstart s) \<longrightarrow> disk u n = (if k \<le> nat (lh_n s) then disk s n else blk s n))"
    if rb: "reboots sb (after (take k (commit_writes s)) (disk s)) (disk r)" and re: "rest me' {} r" for k me' and r :: log
  proof -
    from reboots_recovered [OF rb] commit_crash [OF assms(1,6), of k] assms(7) have ok: "log_disk_ok (sb_logstart sb) (disk r)"
      and eq: "\<forall>n. n \<notin> log_area (lstart s) \<longrightarrow> recovered (lstart s) (disk r) n = (if k \<le> nat (lh_n s) then disk s n else blk s n)"
      by auto
    from boot_recovers [OF re ok] eq assms(7) show ?thesis by simp
  qed
  with t show ?thesis by blast
qed

text \<open>A system at the point where process 0 runs alone and nothing is cached yet.\<close>

definition boot_log :: "(u32 \<Rightarrow> bytes) \<Rightarrow> log" where
  "boot_log d = boot_cache d (log.fields 0 0 False 0 0 (\<lambda>_. 0))"

lemma boot_log_rest:
  assumes "\<forall>n. length (d n) = BSIZE"
  shows "rest 0 {} (binit (boot_log d))" "disk (binit (boot_log d)) = d"
proof -
  have "calm 0 {} (boot_log d)" "cold (boot_log d)" "disk (boot_log d) = d"
    unfolding boot_log_def using boot_cache_cold [OF assms, of "log.fields 0 0 False 0 0 (\<lambda>_. 0)"] by blast+
  with binit_ok [of 0 "boot_log d"] show "rest 0 {} (binit (boot_log d))" "disk (binit (boot_log d)) = d"
    by (simp_all add: rest_def)
qed

text \<open>An operation that has changed block 50, on a disk of zeros with the log at block 2.\<close>

lemma log_area_bounds:
  assumes "log_fits ls" and "n \<in> log_area ls"
  shows "unat ls \<le> unat n \<and> unat n \<le> unat ls + LOGBLOCKS"
proof -
  from assms(2) consider "n = ls" | i where "i < LOGBLOCKS" "n = ls + of_nat i + 1" by (auto simp: log_area_def)
  then show ?thesis
  proof cases
    case 2
    then have "unat n = unat ls + i + 1" using unat_log_block [OF assms(1) 2(1)] by (simp only:)
    with 2(1) show ?thesis by linarith
  qed simp
qed

lemma log_area_2: "(50::u32) \<notin> log_area 2" "log_fits 2"
proof -
  show f: "log_fits 2" by (simp add: log_fits_def LOGBLOCKS_def bio_defs)
  show "(50::u32) \<notin> log_area 2" using log_area_bounds [OF f, of 50] by (auto simp: LOGBLOCKS_def bio_defs)
qed

definition empty_tx :: log where
  "empty_tx = (binit (boot_log zero_disk))\<lparr>ldev := ROOTDEV, lstart := 2, outstanding := 1, lh_n := 0, committing := False\<rparr>"

lemma empty_tx_inv: "log_inv 0 {} empty_tx" "disk empty_tx = zero_disk" "lh_list empty_tx = []"
proof -
  show "log_inv 0 {} empty_tx"
    using boot_log_rest(1) [OF zero_disk_length] log_area_2(2) by (simp add: empty_tx_def log_inv_def rest_def calm_def binv_def lh_list_def)
  show "disk empty_tx = zero_disk" using boot_log_rest(2) [OF zero_disk_length] by (simp add: empty_tx_def)
qed (simp add: empty_tx_def lh_list_def)

definition one_write :: "log option" where
  "one_write = do {
     (b, s) \<leftarrow> bread ROOTDEV 50 empty_tx;
     s \<leftarrow> log_write b (set_data b (replicate BSIZE 7) s);
     brelse b s }"

lemma one_write_ok:
  "\<exists>s. one_write = Some s \<and> log_ok 0 s \<and> lh_n s = 1 \<and> outstanding s = 1 \<and> \<not> committing s \<and> lstart s = 2 \<and>
     disk s = zero_disk \<and> blk s 50 = replicate BSIZE 7"
proof -
  have e: "lh_n empty_tx = 0" "outstanding empty_tx = 1" "\<not> committing empty_tx" "lstart empty_tx = 2" by (simp_all add: empty_tx_def)
  obtain b s1 where 1: "bread ROOTDEV 50 empty_tx = Some (b, s1)" "blockno (bufs s1 b) = 50" "log_inv 0 {b} s1" "untouched 0 {} empty_tx s1"
    using lread_runs [OF empty_tx_inv(1), of 50] e by (auto simp: bio_defs elim!: runsE)
  note f1 = bframe_log [OF untouchedD(1) [OF 1(4)]]
  have "runs (do { s \<leftarrow> log_write b (set_data b (replicate BSIZE 7) s1); brelse b s }) (\<lambda>t. log_inv 0 {} t \<and> tx_step 0 50 s1 t \<and>
    blk t = (blk s1)(50 := replicate BSIZE 7) \<and> (\<forall>h\<in>{}. blockno (bufs t h) = blockno (bufs s1 h) \<and> bdata (bufs t h) = bdata (bufs s1 h)))"
    by (rule log_release_runs) (use 1 f1 e log_area_2 in \<open>simp_all add: LOGBLOCKS_def bio_defs\<close>)
  then obtain t where t: "do { s \<leftarrow> log_write b (set_data b (replicate BSIZE 7) s1); brelse b s } = Some t" "log_inv 0 {} t" "tx_step 0 50 s1 t"
    "blk t = (blk s1)(50 := replicate BSIZE 7)" by (auto elim!: runsE)
  have "one_write = Some t" using 1(1) t(1) by (simp add: one_write_def)
  moreover have "set (lh_list t) = {50}" using t(3) f1(7) empty_tx_inv(3) by (simp add: tx_step_def)
  then have "lh_n t = 1" using log_invD(4,5) [OF t(2)] by simp
  moreover have "outstanding t = 1" "\<not> committing t" "lstart t = 2" "disk t = zero_disk" "blk t 50 = replicate BSIZE 7"
    using t(3,4) f1 e empty_tx_inv(2) untouchedD(2) [OF 1(4)] tframe_log [of 0 s1 t] by (simp_all add: tx_step_def)
  ultimately show ?thesis using t(2) log_ok_inv by blast
qed

definition small_sb :: superblock where
  "small_sb = \<lparr>sb_magic = 0, sb_size = 200, sb_nblocks = 100, sb_ninodes = 20, sb_nlog = 31, sb_logstart = 2,
     sb_inodestart = 33, sb_bmapstart = 40\<rparr>"

lemma zero_header: "hdr_blocks (zero_disk n) = []"
  by (simp add: hdr_blocks_def zero_disk_def get32_def BSIZE_def take_replicate numeral_eq_Suc)

theorem transaction_atomic_witness:
  "\<exists>s t ws u. one_write = Some s \<and> end_op s = Some t \<and> dtrace t = dtrace s @ ws \<and>
     initlog ROOTDEV small_sb (binit (boot_log (after (take 2 ws) zero_disk))) = Some u \<and> disk u 50 = replicate BSIZE 7"
proof -
  obtain s where s: "one_write = Some s" "log_ok 0 s" "lh_n s = 1" "outstanding s = 1" "\<not> committing s" "lstart s = 2"
    "disk s = zero_disk" "blk s 50 = replicate BSIZE 7" using one_write_ok by blast
  have n: "0 < lh_n s" "lh_n s < int NBUF" using s(3) by (simp_all add: bio_defs)
  have h: "hdr_blocks (disk s (lstart s)) = []" "sb_logstart small_sb = lstart s" using s(6,7) zero_header by (simp_all add: small_sb_def)
  from transaction_atomic [OF s(2) n s(4,5) h] obtain t ws where t: "end_op s = Some t" "dtrace t = dtrace s @ ws"
    and rec: "\<forall>k me' r. reboots small_sb (after (take k ws) (disk s)) (disk r) \<and> rest me' {} (r :: log) \<longrightarrow>
      (\<exists>u. initlog ROOTDEV small_sb r = Some u \<and> lh_n u = 0 \<and>
        (\<forall>n. n \<notin> log_area (lstart s) \<longrightarrow> disk u n = (if k \<le> nat (lh_n s) then disk s n else blk s n)))" by blast
  let ?d = "after (take 2 ws) zero_disk"
  have "ws = commit_writes s" using end_op_runs [OF s(2) n s(4,5)] t by (simp add: runs_def)
  then have "\<forall>n. length (?d n) = BSIZE" using commit_crash [OF s(2) h(1), of 2] s(7) by (simp add: log_disk_ok_def)
  note b = boot_log_rest [OF this]
  have "reboots small_sb (after (take 2 ws) (disk s)) (disk (binit (boot_log ?d)))" using b(2) s(7) by (simp add: reboots.none)
  with rec b(1) obtain u where "initlog ROOTDEV small_sb (binit (boot_log ?d)) = Some u"
    "\<forall>n. n \<notin> log_area (lstart s) \<longrightarrow> disk u n = (if 2 \<le> nat (lh_n s) then disk s n else blk s n)" by blast
  with s t log_area_2(1) show ?thesis by auto
qed

section \<open>A full log\<close>

lemma bread_no_buffer:
  assumes c: "calm me A s" "BcacheLock \<notin> A" and i: "binv me H D s" and n: "\<not> (\<exists>b. caches (bufs s) b n)"
    and used: "\<forall>b<NBUF. refcnt (bufs s b) \<noteq> 0"
  shows "bread ROOTDEV n s = None"
proof -
  obtain s1 where s1: "acquire BcacheLock s = Some s1" "quiet me s s1"
    using calm_acquire [OF c] by (auto elim!: runsE)
  obtain xs where xs: "ring (bufs s) xs" "set xs = {..<NBUF}" using binvD(8) [OF i] by blast
  have "List.find (\<lambda>b. refcnt (bufs s b) = 0) (rev xs) = None" using used xs(2) by (auto simp: find_None_iff)
  then have "bget ROOTDEV n s = None"
    using s1 quiet_bframe [OF s1(2)]
    by (simp add: bget_def ring_find_cached [OF xs(1)] ring_find_unused [OF xs(1)] find_in_ring(2) [OF binvD(3) [OF i] xs(2) n] deref_def)
  then show ?thesis by (simp add: bread_def)
qed

lemma all_pinned:
  assumes i: "binv me H D s" and D: "card D = NBUF" and b: "b < NBUF"
  shows "bdev (bufs s b) = ROOTDEV \<and> blockno (bufs s b) \<in> D"
proof -
  define f where "f n = (SOME b. caches (bufs s) b n)" for n
  have f: "caches (bufs s) (f n) n" if "n \<in> D" for n
    using someI_ex [OF pinned_cached [OF i that]] by (simp add: f_def)
  have "inj_on f D" by (rule inj_onI) (metis f caches_def)
  then have "card (f ` D) = NBUF" using D by (simp add: card_image)
  moreover have "f ` D \<subseteq> {..<NBUF}" using f by (auto simp: caches_def)
  ultimately have "f ` D = {..<NBUF}" by (intro card_subset_eq) simp_all
  with b obtain n where "n \<in> D" "b = f n" by blast
  with f show ?thesis by (auto simp: caches_def)
qed

text \<open>C8. A transaction of \<open>NBUF\<close> blocks cannot be committed. \<open>LOGBLOCKS\<close> equals \<open>NBUF\<close>, so \<open>log_write\<close>
  admits a transaction that pins every buffer of the cache; its \<open>end_op\<close> then finds no buffer for the
  first block of the log, and the kernel panics in \<open>bget\<close>.\<close>

theorem full_log_panics:
  assumes "log_ok me s" and "lh_n s = int NBUF" and "outstanding s = 1" and "\<not> committing s"
  shows "end_op s = None"
proof -
  have c: "calm me {} s" and i: "binv me {} (set (lh_list s)) s" and dj: "set (lh_list s) \<inter> log_area (lstart s) = {}"
    and dev: "ldev s = ROOTDEV" using assms(1) by (auto simp: log_ok_def rest_def)
  have card: "card (set (lh_list s)) = NBUF" using log_invD(4) [of me "{}" s] assms(1,2) by (simp add: log_ok_inv)
  obtain s1 where 1: "acquire LogLock s = Some s1" "calm me {LogLock} s1" "quiet me s s1" using log_locked [OF c] .
  note q1 = quiet_log [OF 1(3)] quiet_bframe [OF 1(3)]
  let ?s2 = "s1\<lparr>outstanding := 0, committing := True\<rparr>"
  obtain s3 where 3: "release LogLock ?s2 = Some s3" "calm me {} s3" "quiet me ?s2 s3"
    using log_unlock [of me ?s2] 1(2) by (auto elim!: runsE)
  note q3 = quiet_log [OF 3(3)] quiet_bframe [OF 3(3)]
  have i3: "binv me {} (set (lh_list s)) s3" using i q1 by (simp add: q3 binv_def)
  note pin = all_pinned [OF i3 card]
  have "lstart s + 1 \<in> log_area (lstart s)"
    unfolding log_area_def LOGBLOCKS_def bio_defs by (rule UnI2, rule image_eqI [of _ _ 0]) simp_all
  then have "\<not> caches (bufs s3) b (lstart s + 1)" for b
    using pin [of b] dj by (auto simp: caches_def)
  moreover have "\<forall>b<NBUF. refcnt (bufs s3 b) \<noteq> 0"
    using slot_unused [OF slots_slot [OF binvD(3) [OF i3]]] pin by simp
  ultimately have br: "bread ROOTDEV (lstart s + 1) s3 = None" using bread_no_buffer [OF 3(2) _ i3] by simp
  have "[0..<nat (lh_n s)] = 0 # [1..<NBUF]" using assms(2) by (simp add: bio_defs upt_conv_Cons)
  then have "commit s3 = None"
    using br dev assms(2) by (simp add: commit_def write_log_def write_log_one_def q3 q1 bio_defs)
  then show ?thesis using 1(1) 3(1) assms(3,4) by (simp add: end_op_def q1)
qed

text \<open>Thirty blocks, logged one after the other.\<close>

primrec log_blocks :: "nat \<Rightarrow> log \<Rightarrow> log option" where
  "log_blocks 0 s = Some s"
| "log_blocks (Suc k) s = do {
     s \<leftarrow> log_blocks k s;
     (b, s) \<leftarrow> bread ROOTDEV (50 + of_nat k) s;
     s \<leftarrow> log_write b (set_data b (replicate BSIZE 7) s);
     brelse b s }"

lemma high_block:
  assumes "k \<le> NBUF"
  shows "(50 + of_nat k :: u32) \<notin> log_area 2" "unat (50 + of_nat k :: u32) = 50 + k"
proof -
  have e: "(50 + of_nat k :: u32) = of_nat (50 + k)" by simp
  have "50 + k < 2 ^ LENGTH(32)" using assms by (simp add: bio_defs)
  then show u: "unat (50 + of_nat k :: u32) = 50 + k" unfolding e unat_of_nat by (rule mod_less)
  show "(50 + of_nat k :: u32) \<notin> log_area 2"
    using log_area_bounds [OF log_area_2(2), of "50 + of_nat k"] u by (auto simp: LOGBLOCKS_def bio_defs)
qed

lemma log_blocks_runs:
  "k \<le> NBUF \<Longrightarrow> runs (log_blocks k empty_tx) (\<lambda>t. log_inv 0 {} t \<and> set (lh_list t) = (\<lambda>i. 50 + of_nat i) ` {..<k} \<and>
     lh_n t = int k \<and> tframe 0 empty_tx t)"
proof (induction k)
  case 0
  have "lh_n empty_tx = 0" by (simp add: empty_tx_def)
  then show ?case using empty_tx_inv by (simp add: runs_def)
next
  case (Suc k)
  let ?n = "50 + of_nat k :: u32"
  obtain s where s: "log_blocks k empty_tx = Some s" "log_inv 0 {} s" "set (lh_list s) = (\<lambda>i. 50 + of_nat i) ` {..<k}"
    "lh_n s = int k" "tframe 0 empty_tx s" using Suc by (auto elim!: runsE)
  obtain b s1 where 1: "bread ROOTDEV ?n s = Some (b, s1)" "blockno (bufs s1 b) = ?n" "log_inv 0 {b} s1" "untouched 0 {} s s1"
    using lread_runs [OF s(2), of ?n] s(4) Suc.prems by (auto elim!: runsE)
  note f1 = bframe_log [OF untouchedD(1) [OF 1(4)]]
  have e: "lstart s = 2" "outstanding s = 1" using tframe_log [OF s(5)] by (simp_all add: empty_tx_def)
  have "runs (do { s \<leftarrow> log_write b (set_data b (replicate BSIZE 7) s1); brelse b s }) (\<lambda>t. log_inv 0 {} t \<and> tx_step 0 ?n s1 t \<and>
    blk t = (blk s1)(?n := replicate BSIZE 7) \<and> (\<forall>h\<in>{}. blockno (bufs t h) = blockno (bufs s1 h) \<and> bdata (bufs t h) = bdata (bufs s1 h)))"
    by (rule log_release_runs) (use 1 f1 e high_block(1) [of k] s(4) Suc.prems in \<open>simp_all add: LOGBLOCKS_def NBUF_def\<close>)
  then obtain t where t: "do { s \<leftarrow> log_write b (set_data b (replicate BSIZE 7) s1); brelse b s } = Some t" "log_inv 0 {} t" "tx_step 0 ?n s1 t"
    by (auto elim!: runsE)
  have "set (lh_list t) = insert ?n ((\<lambda>i. 50 + of_nat i) ` {..<k})" using t(3) s(3) f1(7) by (simp add: tx_step_def)
  then have set: "set (lh_list t) = (\<lambda>i. 50 + of_nat i) ` {..<Suc k}" by (simp only: lessThan_Suc image_insert)
  moreover have inj: "inj_on (\<lambda>i. 50 + of_nat i :: u32) {..<Suc k}"
  proof (rule inj_onI)
    fix x y assume xy: "x \<in> {..<Suc k}" "y \<in> {..<Suc k}" "(50 + of_nat x :: u32) = 50 + of_nat y"
    then have "unat (50 + of_nat x :: u32) = unat (50 + of_nat y :: u32)" by (simp only:)
    then show "x = y" using high_block(2) [of x] high_block(2) [of y] xy(1,2) Suc.prems by simp
  qed
  then have "card (set (lh_list t)) = Suc k" unfolding set by (simp add: card_image)
  then have "lh_n t = int (Suc k)" using log_invD(4,5) [OF t(2)] by simp
  moreover have "tframe 0 empty_tx t"
    using tframe_trans [OF tframe_trans [OF s(5) bframe_tframe [OF untouchedD(1) [OF 1(4)]]]] t(3) by (simp add: tx_step_def)
  ultimately show ?case using s(1) 1(1) t(1,2) by (simp add: runs_def)
qed

theorem full_log_panics_witness: "\<exists>s. log_blocks 30 empty_tx = Some s \<and> end_op s = None"
proof -
  obtain s where s: "log_blocks 30 empty_tx = Some s" "log_inv 0 {} s" "lh_n s = int NBUF" "tframe 0 empty_tx s"
    using log_blocks_runs [of 30] by (auto simp: bio_defs elim!: runsE)
  have "outstanding s = 1" "\<not> committing s" using tframe_log [OF s(4)] by (simp_all add: empty_tx_def)
  with full_log_panics [of 0 s] s show ?thesis by (auto simp: log_ok_inv)
qed

end
