(* ===== verification/Paging.thy ===== *)
theory Paging
  imports Vm Calm
begin

text \<open>
  Page tables as maps. \<open>leaf l m pt va\<close> is the entry that translates \<open>va\<close> in the memory \<open>m\<close>, 0 where
  there is none; \<open>nodes l m pt\<close> are the pages of the table, \<open>ptree\<close> says that they form a tree of
  distinct pages. Walking, allocating on the way and writing an entry are insertion into that map.
\<close>

section \<open>Entries and pages\<close>

definition page_eq :: "u64 \<Rightarrow> memory \<Rightarrow> memory \<Rightarrow> bool" where
  "page_eq p m m' \<longleftrightarrow> (\<forall>i<4096. m' (p + of_nat i) = m (p + of_nat i))"

lemma page_eq_refl [simp]: "page_eq p m m"
  by (simp add: page_eq_def)

lemma page_eq_trans: "page_eq p m m' \<Longrightarrow> page_eq p m' m'' \<Longrightarrow> page_eq p m m''"
  by (simp add: page_eq_def)

lemma pte_addr_nat: "pte_addr p i + of_nat j = p + of_nat (8 * unat i + j)"
  by (simp add: pte_addr_def)

lemma pte_load_cong:
  assumes "page_eq p m m'" and "unat i < 512"
  shows "load64 m' (pte_addr p i) = load64 m (pte_addr p i)"
proof -
  have "load_bytes m' (pte_addr p i) 8 = load_bytes m (pte_addr p i) 8"
    by (rule load_bytes_cong) (use assms in \<open>auto simp: page_eq_def pte_addr_nat simp del: of_nat_add of_nat_mult\<close>)
  then show ?thesis by (simp add: load64_def)
qed

definition aligned :: "u64 \<Rightarrow> bool" where
  "aligned p \<longleftrightarrow> unat p mod 4096 = 0"

lemma page_outside:
  assumes "aligned p" and "aligned q" and "p \<noteq> q" and "k < 4096"
  shows "\<not> unat (q + of_nat k - p) < 4096"
  using apart_outside [OF pages_apart [of p q] assms(4)] assms(1-3) by (simp add: aligned_def)

lemma store_page_other:
  assumes "aligned p" and "aligned q" and "p \<noteq> q" and "off + length bs \<le> 4096"
  shows "page_eq q m (store_bytes m (p + of_nat off) bs)"
  unfolding page_eq_def
proof (intro allI impI)
  fix k :: nat assume "k < 4096"
  let ?x = "q + of_nat k"
  have "\<not> unat (?x - (p + of_nat off)) < length bs"
  proof
    assume a: "unat (?x - (p + of_nat off)) < length bs"
    have e: "?x - p = (?x - (p + of_nat off)) + of_nat off" by simp
    have "unat (?x - p) = unat (?x - (p + of_nat off)) + off"
      unfolding e by (rule unat_plus) (use a assms(4) in simp)
    with a assms(4) page_outside [OF assms(1-3) \<open>k < 4096\<close>] show False by simp
  qed
  then show "store_bytes m (p + of_nat off) bs ?x = m ?x" by (rule store_bytes_outside)
qed

lemma store_pte_other:
  assumes "aligned p" and "aligned q" and "p \<noteq> q" and "unat i < 512"
  shows "page_eq q m (store64 m (pte_addr p i) v)"
  using store_page_other [OF assms(1-3), of "8 * unat i" "le_bytes 8 v"] assms(4)
  by (simp add: store64_def pte_addr_def)

lemma unat_index: "unat (i :: u64) < 512 \<Longrightarrow> unat (8 * i) = 8 * unat i"
  by (subst unat_mult_lem [THEN iffD1]) (auto)

lemma pte_aligned: "aligned p \<Longrightarrow> unat (pte_addr p i) mod 8 = 0"
proof -
  assume "aligned p"
  then have "4096 dvd unat p" by (simp add: aligned_def dvd_eq_mod_eq_0)
  then have p: "8 dvd unat p" by (rule dvd_trans [rotated]) simp
  have "unat (pte_addr p i) = (unat p + 8 * unat i) mod 2 ^ 64"
    by (simp add: pte_addr_def unat_word_ariths mod_add_right_eq)
  moreover have "8 dvd (unat p + 8 * unat i) mod 2 ^ 64" using p by (intro dvd_mod dvd_add) simp_all
  ultimately show ?thesis by (metis dvd_eq_mod_eq_0)
qed

lemma pte_inj: "unat i < 512 \<Longrightarrow> unat j < 512 \<Longrightarrow> pte_addr p i = pte_addr p j \<longleftrightarrow> i = j"
proof
  assume a: "unat i < 512" "unat j < 512" "pte_addr p i = pte_addr p j"
  then have "unat (8 * i) = unat (8 * j)" by (simp add: pte_addr_def)
  with a show "i = j" by (simp add: unat_index word_unat_eq_iff)
qed simp

lemma load_store_pte:
  assumes "aligned p" and "unat i < 512" and "unat j < 512"
  shows "load64 (store64 m (pte_addr p i) v) (pte_addr p j) = (if i = j then v else load64 m (pte_addr p j))"
proof (cases "i = j")
  case False
  then have "apart (pte_addr p i) 8 (pte_addr p j) 8"
    using assms by (intro aligned_apart pte_aligned) (auto simp: pte_inj)
  with False show ?thesis by (simp add: load64_store64_apart)
qed simp

lemma PX_less: "unat (PX l va) < 512"
proof -
  have "PX l va = take_bit 9 (drop_bit (12 + 9 * l) va)" by (simp add: PX_def take_bit_eq_mask mask_eq_exp_minus_1)
  then show ?thesis by (simp add: take_bit_eq_mod unat_mod)
qed

section \<open>Translation\<close>

primrec leaf_addr :: "nat \<Rightarrow> memory \<Rightarrow> u64 \<Rightarrow> u64 \<Rightarrow> u64" where
  "leaf_addr 0 m pt va = pte_addr pt (PX 0 va)"
| "leaf_addr (Suc l) m pt va =
     (let v = load64 m (pte_addr pt (PX (Suc l) va)) in if v AND PTE_V \<noteq> 0 then leaf_addr l m (PTE2PA v) va else 0)"

primrec leaf :: "nat \<Rightarrow> memory \<Rightarrow> u64 \<Rightarrow> u64 \<Rightarrow> u64" where
  "leaf 0 m pt va = load64 m (pte_addr pt (PX 0 va))"
| "leaf (Suc l) m pt va =
     (let v = load64 m (pte_addr pt (PX (Suc l) va)) in if v AND PTE_V \<noteq> 0 then leaf l m (PTE2PA v) va else 0)"

lemma walk_loop_ro: "walk_loop l pt va False s = Some (leaf_addr l (mem s) pt va, s)"
  by (induction l arbitrary: pt) (auto simp: Let_def)

lemma walk_ro: "va < MAXVA \<Longrightarrow> walk pt va False s = Some (leaf_addr 2 (mem s) pt va, s)"
  by (simp add: walk_def walk_loop_ro)

text \<open>The pages of a table.\<close>

primrec nodes :: "nat \<Rightarrow> memory \<Rightarrow> u64 \<Rightarrow> u64 list" where
  "nodes 0 m pt = [pt]"
| "nodes (Suc l) m pt = pt # concat (map (\<lambda>i. let v = load64 m (pte_addr pt (of_nat i))
     in if v AND PTE_V \<noteq> 0 then nodes l m (PTE2PA v) else []) [0..<512])"

text \<open>The part of the table below entry \<open>i\<close>.\<close>

definition below :: "nat \<Rightarrow> memory \<Rightarrow> u64 \<Rightarrow> nat \<Rightarrow> u64 list" where
  "below l m pt i = (let v = load64 m (pte_addr pt (of_nat i)) in if v AND PTE_V \<noteq> 0 then nodes l m (PTE2PA v) else [])"

lemma nodes_Suc: "nodes (Suc l) m pt = pt # concat (map (below l m pt) [0..<512])"
  by (simp add: below_def [abs_def])

declare nodes.simps(2) [simp del]

lemma unat_small: "i < 512 \<Longrightarrow> unat (of_nat i :: u64) = i"
  by (simp add: unat_of_nat take_bit_nat_eq_self)

lemma root_in_nodes: "pt \<in> set (nodes l m pt)"
  by (cases l) (auto simp: nodes_Suc)

lemma below_in_nodes: "i < 512 \<Longrightarrow> q \<in> set (below l m pt i) \<Longrightarrow> q \<in> set (nodes (Suc l) m pt)"
  by (auto simp: nodes_Suc)

lemma below_PX: "below l m pt (unat (PX k va)) =
  (if load64 m (pte_addr pt (PX k va)) AND PTE_V \<noteq> 0 then nodes l m (PTE2PA (load64 m (pte_addr pt (PX k va)))) else [])"
  by (simp add: below_def Let_def)

lemma kid_nodes:
  "load64 m (pte_addr pt (PX k va)) AND PTE_V \<noteq> 0 \<Longrightarrow>
   set (nodes l m (PTE2PA (load64 m (pte_addr pt (PX k va))))) \<subseteq> set (nodes (Suc l) m pt)"
  using below_in_nodes [OF PX_less [of k va], of _ l m pt] by (auto simp: below_PX)

lemma below_load: "page_eq pt m m' \<Longrightarrow> i < 512 \<Longrightarrow> load64 m' (pte_addr pt (of_nat i)) = load64 m (pte_addr pt (of_nat i))"
  by (rule pte_load_cong) (simp_all only: unat_small)

lemma nodes_cong: "\<forall>p\<in>set (nodes l m pt). page_eq p m m' \<Longrightarrow> nodes l m' pt = nodes l m pt"
proof (induction l arbitrary: pt)
  case (Suc l)
  have "below l m' pt i = below l m pt i" if i: "i < 512" for i
  proof -
    let ?v = "load64 m (pte_addr pt (of_nat i))"
    have "nodes l m' (PTE2PA ?v) = nodes l m (PTE2PA ?v)" if "?v AND PTE_V \<noteq> 0"
      using Suc.prems below_in_nodes [OF i, of _ l m pt] that by (intro Suc.IH) (simp add: below_def Let_def)
    moreover have "load64 m' (pte_addr pt (of_nat i)) = ?v"
      using Suc.prems root_in_nodes by (intro below_load [OF _ i]) blast
    ultimately show ?thesis by (simp add: below_def Let_def)
  qed
  then have "map (below l m' pt) [0..<512] = map (below l m pt) [0..<512]" by (intro map_cong) simp_all
  then show ?case by (simp only: nodes_Suc)
qed simp

lemma below_other:
  assumes "page_eq pt m m'" and "i < 512" and "\<forall>q\<in>set (below l m pt i). page_eq q m m'"
  shows "below l m' pt i = below l m pt i"
  using assms(3) below_load [OF assms(1,2)] nodes_cong [of l m _ m'] by (simp add: below_def Let_def split: if_splits)

lemma leaf_cong: "\<forall>p\<in>set (nodes l m pt). page_eq p m m' \<Longrightarrow> leaf l m' pt va = leaf l m pt va"
proof (induction l arbitrary: pt)
  case 0
  then show ?case using pte_load_cong PX_less by simp
next
  case (Suc l)
  have "load64 m' (pte_addr pt (PX (Suc l) va)) = load64 m (pte_addr pt (PX (Suc l) va))"
    using Suc.prems root_in_nodes PX_less by (intro pte_load_cong) blast+
  moreover have "leaf l m' q va = leaf l m q va"
    if "load64 m (pte_addr pt (PX (Suc l) va)) AND PTE_V \<noteq> 0" "q = PTE2PA (load64 m (pte_addr pt (PX (Suc l) va)))" for q
    using Suc.prems kid_nodes [OF that(1), of l] that(2) by (intro Suc.IH) blast
  ultimately show ?case by (simp add: Let_def)
qed

lemma leaf_other:
  assumes "page_eq pt m m'" and "\<forall>q\<in>set (below l m pt (unat (PX (Suc l) va))). page_eq q m m'"
  shows "leaf (Suc l) m' pt va = leaf (Suc l) m pt va"
  using assms(2) pte_load_cong [OF assms(1) PX_less] leaf_cong [of l m _ m']
  by (simp add: below_PX Let_def split: if_splits)

lemma leaf_addr_cong: "\<forall>p\<in>set (nodes l m pt). page_eq p m m' \<Longrightarrow> leaf_addr l m' pt va = leaf_addr l m pt va"
proof (induction l arbitrary: pt)
  case (Suc l)
  have "load64 m' (pte_addr pt (PX (Suc l) va)) = load64 m (pte_addr pt (PX (Suc l) va))"
    using Suc.prems root_in_nodes PX_less by (intro pte_load_cong) blast+
  moreover have "leaf_addr l m' q va = leaf_addr l m q va"
    if "load64 m (pte_addr pt (PX (Suc l) va)) AND PTE_V \<noteq> 0" "q = PTE2PA (load64 m (pte_addr pt (PX (Suc l) va)))" for q
    using Suc.prems kid_nodes [OF that(1), of l] that(2) by (intro Suc.IH) blast
  ultimately show ?case by (simp add: Let_def)
qed simp

section \<open>Trees\<close>

definition ptree :: "nat \<Rightarrow> memory \<Rightarrow> u64 \<Rightarrow> bool" where
  "ptree l m pt \<longleftrightarrow> distinct (nodes l m pt) \<and> (\<forall>p\<in>set (nodes l m pt). aligned p \<and> p \<noteq> 0)"

lemma distinct_concat_disjoint:
  "distinct (concat (map f xs)) \<Longrightarrow> distinct xs \<Longrightarrow> i \<in> set xs \<Longrightarrow> j \<in> set xs \<Longrightarrow> i \<noteq> j \<Longrightarrow> set (f i) \<inter> set (f j) = {}"
  by (induction xs) fastforce+

lemma distinct_concat_nth: "distinct (concat (map f xs)) \<Longrightarrow> i \<in> set xs \<Longrightarrow> distinct (f i)"
  by (induction xs) auto

lemma ptree_below:
  assumes "ptree (Suc l) m pt" and "i < 512"
  shows "pt \<notin> set (below l m pt i)" and "j < 512 \<Longrightarrow> i \<noteq> j \<Longrightarrow> set (below l m pt i) \<inter> set (below l m pt j) = {}"
    and "distinct (below l m pt i)" and "\<forall>p\<in>set (below l m pt i). aligned p \<and> p \<noteq> 0" and "aligned pt" and "pt \<noteq> 0"
proof -
  have d: "distinct (concat (map (below l m pt) [0..<512]))" and n: "pt \<notin> set (concat (map (below l m pt) [0..<512]))"
    using assms(1) unfolding ptree_def nodes_Suc by simp_all
  show "pt \<notin> set (below l m pt i)" using n assms(2) by auto
  show "j < 512 \<Longrightarrow> i \<noteq> j \<Longrightarrow> set (below l m pt i) \<inter> set (below l m pt j) = {}"
    by (rule distinct_concat_disjoint [OF d]) (use assms(2) in auto)
  show "distinct (below l m pt i)" by (rule distinct_concat_nth [OF d]) (use assms(2) in auto)
  show "\<forall>p\<in>set (below l m pt i). aligned p \<and> p \<noteq> 0" "aligned pt" "pt \<noteq> 0"
    using assms below_in_nodes [OF assms(2), of _ l m pt] root_in_nodes [of pt "Suc l" m] unfolding ptree_def by blast+
qed

lemma ptree_kid:
  assumes "ptree (Suc l) m pt" and "load64 m (pte_addr pt (PX k va)) AND PTE_V \<noteq> 0"
  shows "ptree l m (PTE2PA (load64 m (pte_addr pt (PX k va))))"
  using ptree_below(3,4) [OF assms(1) PX_less [of k va]] assms(2) by (simp add: ptree_def below_PX)

lemma leaf_addr_in:
  assumes "ptree l m pt" and "leaf_addr l m pt va \<noteq> 0"
  shows "\<exists>p i. p \<in> set (nodes l m pt) \<and> unat i < 512 \<and> leaf_addr l m pt va = pte_addr p i"
  using assms
proof (induction l arbitrary: pt)
  case 0
  then show ?case using PX_less [of 0 va] by auto
next
  case (Suc l)
  let ?v = "load64 m (pte_addr pt (PX (Suc l) va))"
  from Suc.prems have v: "?v AND PTE_V \<noteq> 0" and a: "leaf_addr l m (PTE2PA ?v) va \<noteq> 0"
    by (auto simp: Let_def split: if_splits)
  from Suc.IH [OF ptree_kid [OF Suc.prems(1) v] a] kid_nodes [OF v, of l] v show ?case
    by (auto simp: Let_def)
qed

definition same_page :: "nat \<Rightarrow> u64 \<Rightarrow> u64 \<Rightarrow> bool" where
  "same_page l va va' \<longleftrightarrow> (\<forall>k\<le>l. PX k va = PX k va')"

lemma same_page_Suc: "same_page (Suc l) va va' \<longleftrightarrow> PX (Suc l) va = PX (Suc l) va' \<and> same_page l va va'"
  by (auto simp: same_page_def le_Suc_eq)

text \<open>Writing the entry of \<open>va\<close> changes the translation of its page and nothing else.\<close>

lemma leaf_store:
  assumes "ptree l m pt" and "leaf_addr l m pt va \<noteq> 0" and "m' = store64 m (leaf_addr l m pt va) v"
  shows "nodes l m' pt = nodes l m pt \<and> (\<forall>va'. leaf l m' pt va' = (if same_page l va va' then v else leaf l m pt va'))"
  using assms
proof (induction l arbitrary: pt)
  case 0
  then have "aligned pt" by (simp add: ptree_def)
  with 0(3) show ?case by (simp add: load_store_pte PX_less same_page_def)
next
  case (Suc l)
  let ?i = "PX (Suc l) va"
  let ?e = "load64 m (pte_addr pt ?i)" and ?a = "leaf_addr (Suc l) m pt va"
  from Suc.prems have e: "?e AND PTE_V \<noteq> 0" and a0: "leaf_addr l m (PTE2PA ?e) va \<noteq> 0"
    by (auto simp: Let_def split: if_splits)
  then have m': "m' = store64 m (leaf_addr l m (PTE2PA ?e) va) v" using Suc.prems(3) by (simp add: Let_def)
  have kid: "ptree l m (PTE2PA ?e)" by (rule ptree_kid [OF Suc.prems(1) e])
  note IH = Suc.IH [OF kid a0 m']
  from leaf_addr_in [OF kid a0] obtain p i where p: "p \<in> set (nodes l m (PTE2PA ?e))" "unat i < 512" "m' = store64 m (pte_addr p i) v"
    unfolding m' by auto
  then have pb: "p \<in> set (below l m pt (unat ?i))" using e by (simp add: below_PX)
  have pa: "aligned p" using ptree_below(4) [OF Suc.prems(1) PX_less] pb by blast
  have eq: "page_eq q m m'" if "aligned q" "q \<noteq> p" for q
    unfolding p(3) by (rule store_pte_other) (use that pa p(2) in auto)
  have pt: "page_eq pt m m'"
    using ptree_below(1,5) [OF Suc.prems(1) PX_less] pb by (intro eq) auto
  have off: "\<forall>q\<in>set (below l m pt j). page_eq q m m'" if "j < 512" "j \<noteq> unat ?i" for j
    using ptree_below(2) [OF Suc.prems(1) PX_less [of "Suc l" va] that(1)] ptree_below(4) [OF Suc.prems(1) that(1)] that(2) pb
    by (intro ballI eq) auto
  have ld: "load64 m' (pte_addr pt (PX k w)) = load64 m (pte_addr pt (PX k w))" for k w
    by (rule pte_load_cong [OF pt PX_less])
  have "below l m' pt (unat ?i) = below l m pt (unat ?i)" using IH e by (simp only: below_PX ld)
  then have "below l m' pt j = below l m pt j" if "j < 512" for j
    using below_other [OF pt that off] that by (cases "j = unat ?i") auto
  then have "map (below l m' pt) [0..<512] = map (below l m pt) [0..<512]" by (intro map_cong) simp_all
  then have 1: "nodes (Suc l) m' pt = nodes (Suc l) m pt" by (simp only: nodes_Suc)
  have 2: "leaf (Suc l) m' pt va' = (if same_page (Suc l) va va' then v else leaf (Suc l) m pt va')" for va'
  proof (cases "PX (Suc l) va = PX (Suc l) va'")
    case True
    then show ?thesis using IH e ld by (simp add: Let_def same_page_Suc)
  next
    case False
    then have "unat (PX (Suc l) va') \<noteq> unat ?i" by (simp add: word_unat_eq_iff)
    from leaf_other [OF pt off [OF PX_less this]] False show ?thesis by (simp only: same_page_Suc simp_thms if_False)
  qed
  from 1 2 show ?case by blast
qed

section \<open>Entries\<close>

lemma aligned_bits: "aligned pa \<Longrightarrow> n < 12 \<Longrightarrow> \<not> bit pa n"
proof -
  assume "aligned pa" "n < 12"
  then have "take_bit 12 pa = 0" by (simp add: aligned_def take_bit_eq_mod word_unat_eq_iff unat_mod)
  then show ?thesis using \<open>n < 12\<close> by (metis bit_0_eq bit_take_bit_iff bot_apply bot_bool_def)
qed

lemma perm_bits: "perm < 1024 \<Longrightarrow> 10 \<le> k \<Longrightarrow> \<not> bit (perm :: u64) k"
proof -
  assume "perm < 1024" "10 \<le> k"
  then have "take_bit 10 perm = perm" by (simp add: take_bit_eq_mod word_unat_eq_iff unat_mod word_less_nat_alt)
  then show ?thesis using \<open>10 \<le> k\<close> by (metis bit_take_bit_iff not_le)
qed

lemma bit_PTE2PA: "bit (PTE2PA v) n \<longleftrightarrow> n < 64 \<and> 12 \<le> n \<and> bit v (n - 2)"
  by (auto simp: PTE2PA_def bit_push_bit_iff bit_drop_bit_eq)

lemma bit_PA2PTE: "bit (PA2PTE v) n \<longleftrightarrow> n < 64 \<and> 10 \<le> n \<and> bit v (n + 2)"
  by (auto simp: PA2PTE_def bit_push_bit_iff bit_drop_bit_eq)

lemma bit_PTE_V: "bit PTE_V n \<longleftrightarrow> n = 0"
  by (simp add: PTE_V_def bit_1_iff)

lemma PTE2PA_make:
  assumes "aligned pa" and "perm < 1024"
  shows "PTE2PA (PA2PTE pa OR perm OR PTE_V) = pa"
proof (rule bit_word_eqI)
  fix n assume n: "n < LENGTH(64)"
  show "bit (PTE2PA (PA2PTE pa OR perm OR PTE_V)) n = bit pa n"
  proof (cases "n < 12")
    case True
    then show ?thesis using aligned_bits [OF assms(1)] by (simp add: bit_PTE2PA)
  next
    case False
    then have "n - 2 + 2 = n" by simp
    then show ?thesis using False n perm_bits [OF assms(2), of "n - 2"]
      by (simp add: bit_PTE2PA bit_or_iff bit_PA2PTE bit_PTE_V)
  qed
qed

lemma PTE2PA_node: "aligned pa \<Longrightarrow> PTE2PA (PA2PTE pa OR PTE_V) = pa"
  using PTE2PA_make [of pa 0] by simp

lemma PTE_V_nonzero [simp]: "PTE_V \<noteq> 0"
  by (simp add: PTE_V_def)

section \<open>Walking with allocation\<close>

text \<open>The allocator and a table side by side: their pages are different.\<close>

definition tree :: "nat \<Rightarrow> 'a kmem_scheme \<Rightarrow> u64 \<Rightarrow> u64 list \<Rightarrow> bool" where
  "tree l s pt ps \<longleftrightarrow> kmem_inv s ps \<and> ptree l (mem s) pt \<and> set (nodes l (mem s) pt) \<inter> set ps = {}"

text \<open>What an operation on a table may do to the memory: move pages from the pool into the table and
  write pages of the table, and no other page. A walk in addition maps nothing.\<close>

definition extends :: "nat \<Rightarrow> u64 \<Rightarrow> 'a kmem_scheme \<Rightarrow> u64 list \<Rightarrow> 'a kmem_scheme \<Rightarrow> u64 list \<Rightarrow> bool" where
  "extends l pt s ps t ps' \<longleftrightarrow> tree l t pt ps' \<and>
     (\<exists>ks. ps = ks @ ps' \<and> mset (nodes l (mem t) pt) = mset (nodes l (mem s) pt) + mset ks) \<and>
     (\<forall>q. aligned q \<longrightarrow> q \<notin> set (nodes l (mem s) pt) \<union> set ps \<longrightarrow> page_eq q (mem s) (mem t)) \<and>
     t = s\<lparr>cpus := cpus t, freelist := freelist t, mem := mem t\<rparr> \<and> (\<forall>me A. calm me A s \<longrightarrow> calm me A t)"

definition grows :: "nat \<Rightarrow> u64 \<Rightarrow> 'a kmem_scheme \<Rightarrow> u64 list \<Rightarrow> 'a kmem_scheme \<Rightarrow> u64 list \<Rightarrow> bool" where
  grows_ext: "grows l pt s ps t ps' \<longleftrightarrow> extends l pt s ps t ps' \<and> (\<forall>va. leaf l (mem t) pt va = leaf l (mem s) pt va)"

lemma grows_def: "grows l pt s ps t ps' \<longleftrightarrow> tree l t pt ps' \<and>
     (\<exists>ks. ps = ks @ ps' \<and> mset (nodes l (mem t) pt) = mset (nodes l (mem s) pt) + mset ks) \<and>
     (\<forall>va. leaf l (mem t) pt va = leaf l (mem s) pt va) \<and>
     (\<forall>q. aligned q \<longrightarrow> q \<notin> set (nodes l (mem s) pt) \<union> set ps \<longrightarrow> page_eq q (mem s) (mem t)) \<and>
     t = s\<lparr>cpus := cpus t, freelist := freelist t, mem := mem t\<rparr> \<and> (\<forall>me A. calm me A s \<longrightarrow> calm me A t)"
  unfolding grows_ext extends_def by blast

lemma flist_cong: "\<forall>q\<in>set ps. page_eq q m m' \<Longrightarrow> flist m p ps \<Longrightarrow> flist m' p ps"
proof (induction ps arbitrary: p)
  case (Cons a ps)
  have "load64 m' (pte_addr a 0) = load64 m (pte_addr a 0)" using Cons.prems by (intro pte_load_cong) simp_all
  then have e: "load64 m' a = load64 m a" by (simp add: pte_addr_def)
  have "flist m' (load64 m a) ps" using Cons.prems by (intro Cons.IH) simp_all
  then show ?case using Cons.prems(2) by (simp add: e)
qed simp

lemma kmem_inv_cong:
  assumes "kmem_inv s ps" and "\<forall>q\<in>set ps. page_eq q (mem s) m"
  shows "kmem_inv (s\<lparr>mem := m\<rparr>) ps"
  using assms flist_cong [OF assms(2)] by (simp add: kmem_inv_def valid_page_def)

lemma kmem_inv_aligned: "kmem_inv s ps \<Longrightarrow> q \<in> set ps \<Longrightarrow> aligned q \<and> q \<noteq> 0"
  unfolding kmem_inv_def using valid_page_aligned [of s q] by (auto simp: aligned_def valid_page_def)

lemma zero_leaf:
  assumes "\<forall>i. unat i < 512 \<longrightarrow> load64 m (pte_addr p i) = 0"
  shows "leaf l m p va = 0" and "nodes l m p = [p]"
proof -
  show "leaf l m p va = 0" using assms PX_less by (cases l) (simp_all add: Let_def)
  have "below k m p i = []" if "i < 512" for k i using assms that by (simp add: below_def unat_small)
  then show "nodes l m p = [p]" by (cases l) (auto simp: nodes_Suc)
qed

lemma le_word_zero: "le_word (replicate n 0) = 0"
  by (induction n) simp_all

lemma load_zero_page:
  assumes "unat i < 512"
  shows "load64 (store_bytes m p (page_fill 0)) (pte_addr p i) = 0"
proof -
  have "load_bytes (store_bytes m p (page_fill 0)) (pte_addr p i) 8 = replicate 8 0"
  proof (rule nth_equalityI)
    fix j assume "j < length (load_bytes (store_bytes m p (page_fill 0)) (pte_addr p i) 8)"
    then have "j < 8" by simp
    moreover have "store_bytes m p (page_fill 0) (p + of_nat (8 * unat i + j)) = 0"
      using assms \<open>j < 8\<close> by (subst store_bytes_at) simp_all
    ultimately show "load_bytes (store_bytes m p (page_fill 0)) (pte_addr p i) 8 ! j = replicate 8 0 ! j"
      by (simp add: load_bytes_def pte_addr_nat del: of_nat_add of_nat_mult)
  qed simp
  then show ?thesis by (simp only: load64_def le_word_zero)
qed

lemma mset_concat_upd:
  "distinct xs \<Longrightarrow> i \<in> set xs \<Longrightarrow> (\<And>j. j \<in> set xs \<Longrightarrow> j \<noteq> i \<Longrightarrow> f' j = f j) \<Longrightarrow> mset (f' i) = mset (f i) + D \<Longrightarrow>
   mset (concat (map f' xs)) = mset (concat (map f xs)) + D"
proof (induction xs)
  case (Cons x xs)
  show ?case
  proof (cases "x = i")
    case True
    then have "concat (map f' xs) = concat (map f xs)" using Cons.prems by (intro arg_cong [of _ _ concat] map_cong) auto
    then show ?thesis using True Cons.prems(4) by simp
  next
    case False
    then have "mset (concat (map f' xs)) = mset (concat (map f xs)) + D" using Cons.prems by (intro Cons.IH) auto
    then show ?thesis using False Cons.prems(3) [of x] by simp
  qed
qed simp

lemma treeI:
  assumes "kmem_inv t ps'" and "tree l s pt (ks @ ps')" and "mset (nodes l (mem t) pt) = mset (nodes l (mem s) pt) + mset ks"
  shows "tree l t pt ps'"
proof -
  have inv: "kmem_inv s (ks @ ps')" and pt: "ptree l (mem s) pt" and dj: "set (nodes l (mem s) pt) \<inter> set (ks @ ps') = {}"
    using assms(2) by (simp_all add: tree_def)
  have d: "distinct (nodes l (mem s) pt @ ks @ ps')" using inv pt dj by (auto simp: kmem_inv_def ptree_def)
  have m: "mset (nodes l (mem t) pt @ ps') = mset (nodes l (mem s) pt @ ks @ ps')" using assms(3) by simp
  have d': "distinct (nodes l (mem t) pt @ ps')" using d mset_eq_imp_distinct_iff [OF m] by simp
  have "set (nodes l (mem t) pt) = set (nodes l (mem s) pt) \<union> set ks" using assms(3) by (metis set_mset_mset set_mset_union)
  then have "\<forall>p\<in>set (nodes l (mem t) pt). aligned p \<and> p \<noteq> 0"
    using pt kmem_inv_aligned [OF inv] by (auto simp: ptree_def)
  with d' assms(1) show ?thesis by (simp add: tree_def ptree_def)
qed

lemma grows_refl:
  assumes "tree l s pt ps"
  shows "grows l pt s ps s ps"
  using assms by (simp add: grows_def)

lemma extends_nodes: "extends l pt s ps t ps' \<Longrightarrow> set (nodes l (mem t) pt) \<union> set ps' = set (nodes l (mem s) pt) \<union> set ps"
proof -
  assume "extends l pt s ps t ps'"
  then obtain ks where "ps = ks @ ps'" and m: "mset (nodes l (mem t) pt) = mset (nodes l (mem s) pt) + mset ks"
    unfolding extends_def by blast
  moreover have "set (nodes l (mem t) pt) = set (nodes l (mem s) pt) \<union> set ks" using m by (metis set_mset_mset set_mset_union)
  ultimately show ?thesis by auto
qed

lemma extends_trans:
  assumes a: "extends l pt s ps t ps'" and b: "extends l pt t ps' u ps''"
  shows "extends l pt s ps u ps''"
proof -
  obtain ks where ks: "ps = ks @ ps'" "mset (nodes l (mem t) pt) = mset (nodes l (mem s) pt) + mset ks"
    using a unfolding extends_def by blast
  obtain ks' where ks': "ps' = ks' @ ps''" "mset (nodes l (mem u) pt) = mset (nodes l (mem t) pt) + mset ks'"
    using b unfolding extends_def by blast
  have k: "ps = (ks @ ks') @ ps'' \<and> mset (nodes l (mem u) pt) = mset (nodes l (mem s) pt) + mset (ks @ ks')"
    using ks ks' by simp
  have f: "page_eq q (mem s) (mem u)" if "aligned q" "q \<notin> set (nodes l (mem s) pt) \<union> set ps" for q
  proof (rule page_eq_trans)
    show "page_eq q (mem s) (mem t)" using a that unfolding extends_def by blast
    show "page_eq q (mem t) (mem u)" using b that extends_nodes [OF a] unfolding extends_def by blast
  qed
  have r: "u = s\<lparr>cpus := cpus u, freelist := freelist u, mem := mem u\<rparr>"
  proof -
    have "t = s\<lparr>cpus := cpus t, freelist := freelist t, mem := mem t\<rparr>" "u = t\<lparr>cpus := cpus u, freelist := freelist u, mem := mem u\<rparr>"
      using a b unfolding extends_def by blast+
    then have "u = (s\<lparr>cpus := cpus t, freelist := freelist t, mem := mem t\<rparr>)\<lparr>cpus := cpus u, freelist := freelist u, mem := mem u\<rparr>"
      by metis
    then show ?thesis by simp
  qed
  have c: "\<forall>me A. calm me A s \<longrightarrow> calm me A u" and tr: "tree l u pt ps''"
    using a b unfolding extends_def by simp_all
  show ?thesis unfolding extends_def using k f r c tr by blast
qed

lemma grows_trans: "grows l pt s ps t ps' \<Longrightarrow> grows l pt t ps' u ps'' \<Longrightarrow> grows l pt s ps u ps''"
  using extends_trans [of l pt s ps t ps' u ps''] by (simp add: grows_ext)

text \<open>Writing the entry of \<open>va\<close> in a table.\<close>

lemma extends_store:
  assumes tr: "tree l s pt ps" and a: "leaf_addr l (mem s) pt va \<noteq> 0"
    and t: "t = s\<lparr>mem := store64 (mem s) (leaf_addr l (mem s) pt va) v\<rparr>"
  shows "extends l pt s ps t ps" and "leaf l (mem t) pt w = (if same_page l va w then v else leaf l (mem s) pt w)"
proof -
  have pt: "ptree l (mem s) pt" and dj: "set (nodes l (mem s) pt) \<inter> set ps = {}" and inv: "kmem_inv s ps"
    using tr by (simp_all add: tree_def)
  have "mem t = store64 (mem s) (leaf_addr l (mem s) pt va) v" by (simp add: t)
  note st = leaf_store [OF pt a this]
  show "leaf l (mem t) pt w = (if same_page l va w then v else leaf l (mem s) pt w)" using st by blast
  from leaf_addr_in [OF pt a] obtain p i where p: "p \<in> set (nodes l (mem s) pt)" "unat i < 512" "leaf_addr l (mem s) pt va = pte_addr p i"
    by blast
  have f: "page_eq q (mem s) (mem t)" if "aligned q" "q \<noteq> p" for q
    unfolding t p(3) using store_pte_other [of p q i "mem s" v] that p pt by (simp add: ptree_def)
  have "\<forall>q\<in>set ps. page_eq q (mem s) (mem t)" using kmem_inv_aligned [OF inv] dj p(1) by (auto intro!: f)
  then have "kmem_inv t ps" using kmem_inv_cong [OF inv] by (simp add: t)
  then have "tree l t pt ps" by (rule treeI [where ks = "[]" and s = s]) (use tr st in simp_all)
  moreover have "\<forall>me A. calm me A s \<longrightarrow> calm me A t" by (simp add: t calm_def)
  moreover have "t = s\<lparr>cpus := cpus t, freelist := freelist t, mem := mem t\<rparr>" by (simp add: t)
  moreover have "\<forall>q. aligned q \<longrightarrow> q \<notin> set (nodes l (mem s) pt) \<union> set ps \<longrightarrow> page_eq q (mem s) (mem t)" using f p(1) by auto
  ultimately show "extends l pt s ps t ps" unfolding extends_def using st by auto
qed

lemma grows_kid:
  assumes tr: "tree (Suc l) s pt ps" and v: "load64 (mem s) (pte_addr pt (PX (Suc l) va)) AND PTE_V \<noteq> 0"
    and q: "q = PTE2PA (load64 (mem s) (pte_addr pt (PX (Suc l) va)))" and g: "grows l q s ps t ps'"
  shows "grows (Suc l) pt s ps t ps'"
    and "load64 (mem t) (pte_addr pt (PX (Suc l) va)) = load64 (mem s) (pte_addr pt (PX (Suc l) va))"
proof -
  let ?i = "unat (PX (Suc l) va)"
  have i: "?i < 512" by (rule PX_less)
  have pt: "ptree (Suc l) (mem s) pt" and dj: "set (nodes (Suc l) (mem s) pt) \<inter> set ps = {}" using tr by (simp_all add: tree_def)
  have b: "below l (mem s) pt ?i = nodes l (mem s) q" using v q by (simp add: below_PX)
  have fr: "page_eq x (mem s) (mem t)" if "aligned x" "x \<notin> set (below l (mem s) pt ?i)" "x \<notin> set ps" for x
    using g that unfolding grows_def b by blast
  have e: "page_eq pt (mem s) (mem t)"
    using ptree_below(1,5) [OF pt i] dj root_in_nodes [of pt "Suc l" "mem s"] by (intro fr) auto
  have o: "\<forall>x\<in>set (below l (mem s) pt j). page_eq x (mem s) (mem t)" if j: "j < 512" "j \<noteq> ?i" for j
    using ptree_below(2) [OF pt i j(1)] ptree_below(4) [OF pt j(1)] below_in_nodes [OF j(1), of _ l "mem s" pt] dj j(2)
    by (intro ballI fr) auto
  show ld: "load64 (mem t) (pte_addr pt (PX (Suc l) va)) = load64 (mem s) (pte_addr pt (PX (Suc l) va))"
    by (rule pte_load_cong [OF e i])
  have bt: "below l (mem t) pt ?i = nodes l (mem t) q" using v by (simp add: below_PX ld q)
  obtain ks where ks: "ps = ks @ ps'" "mset (nodes l (mem t) q) = mset (nodes l (mem s) q) + mset ks"
    using g unfolding grows_def by blast
  have "mset (concat (map (below l (mem t) pt) [0..<512])) = mset (concat (map (below l (mem s) pt) [0..<512])) + mset ks"
    by (rule mset_concat_upd [where i = ?i]) (use i ks(2) below_other [OF e _ o] in \<open>auto simp: b bt\<close>)
  then have m: "mset (nodes (Suc l) (mem t) pt) = mset (nodes (Suc l) (mem s) pt) + mset ks" by (simp add: nodes_Suc)
  have lf: "leaf (Suc l) (mem t) pt w = leaf (Suc l) (mem s) pt w" for w
  proof (cases "PX (Suc l) w = PX (Suc l) va")
    case True
    then show ?thesis using g ld v by (simp add: grows_def Let_def q)
  next
    case False
    then have "unat (PX (Suc l) w) \<noteq> ?i" by (simp add: word_unat_eq_iff)
    from leaf_other [OF e o [OF PX_less this]] show ?thesis .
  qed
  have f: "page_eq x (mem s) (mem t)" if "aligned x" "x \<notin> set (nodes (Suc l) (mem s) pt) \<union> set ps" for x
    using that below_in_nodes [OF i, of x l "mem s" pt] by (intro fr) auto
  have tr': "tree (Suc l) t pt ps'"
    by (rule treeI [OF _ _ m]) (use g tr ks(1) in \<open>simp_all add: grows_def tree_def\<close>)
  have r: "t = s\<lparr>cpus := cpus t, freelist := freelist t, mem := mem t\<rparr>" and c: "\<forall>me A. calm me A s \<longrightarrow> calm me A t"
    using g unfolding grows_def by blast+
  show "grows (Suc l) pt s ps t ps'"
    unfolding grows_def using tr' ks(1) m lf f r c by blast
qed

text \<open>A new page below an entry that had none.\<close>

definition with_node :: "u64 \<Rightarrow> u64 \<Rightarrow> u64 \<Rightarrow> 'a kmem_scheme \<Rightarrow> 'a kmem_scheme" where
  "with_node pt i p s = (after_kalloc p s)\<lparr>mem :=
     store64 (store_bytes (store_bytes (mem s) p (page_fill 5)) p (page_fill 0)) (pte_addr pt i) (PA2PTE p OR PTE_V)\<rparr>"

lemma with_node_page:
  assumes "aligned pt" and "aligned p" and "aligned q" and "q \<noteq> pt" and "q \<noteq> p" and "unat i < 512"
  shows "page_eq q (mem (after_kalloc p s)) (mem (with_node pt i p s))" and "page_eq q (mem s) (mem (with_node pt i p s))"
proof -
  have 1: "page_eq q m (store_bytes m p (page_fill c))" for m c
    using store_page_other [of p q 0 "page_fill c" m] assms by simp
  have "page_eq q m (store64 m (pte_addr pt i) v)" for m v
    by (rule store_pte_other) (use assms in auto)
  with 1 show a: "page_eq q (mem (after_kalloc p s)) (mem (with_node pt i p s))"
    unfolding with_node_def after_kalloc_def by simp (blast intro: page_eq_trans)
  show "page_eq q (mem s) (mem (with_node pt i p s))"
    by (rule page_eq_trans [OF _ a]) (use 1 in \<open>simp add: after_kalloc_def\<close>)
qed

lemma with_node_inv:
  assumes inv: "kmem_inv s (p # ps)" and "aligned pt" and "pt \<notin> set (p # ps)" and "unat i < 512"
  shows "kmem_inv (with_node pt i p s) ps"
proof -
  have "p \<notin> set ps" using inv by (simp add: kmem_inv_def)
  then have "\<forall>q\<in>set ps. page_eq q (mem (after_kalloc p s)) (mem (with_node pt i p s))"
    using assms kmem_inv_aligned [OF inv] by (intro ballI with_node_page) auto
  from kmem_inv_cong [OF kmem_inv_kalloc(2) [OF inv] this] show ?thesis by (simp add: with_node_def)
qed

lemma with_node_loads:
  assumes "aligned pt" and "aligned p" and "p \<noteq> pt" and "unat i < 512"
  shows "unat j < 512 \<Longrightarrow> load64 (mem (with_node pt i p s)) (pte_addr p j) = 0"
    and "unat j < 512 \<Longrightarrow> load64 (mem (with_node pt i p s)) (pte_addr pt j) =
      (if i = j then PA2PTE p OR PTE_V else load64 (mem s) (pte_addr pt j))"
proof -
  let ?m = "store_bytes (store_bytes (mem s) p (page_fill 5)) p (page_fill 0)"
  have m: "mem (with_node pt i p s) = store64 ?m (pte_addr pt i) (PA2PTE p OR PTE_V)" by (simp add: with_node_def)
  have e: "page_eq p ?m (store64 ?m (pte_addr pt i) (PA2PTE p OR PTE_V))"
    by (rule store_pte_other) (use assms in auto)
  show "unat j < 512 \<Longrightarrow> load64 (mem (with_node pt i p s)) (pte_addr p j) = 0"
    unfolding m using pte_load_cong [OF e] load_zero_page by simp
  have "page_eq pt m' (store_bytes m' p (page_fill c))" for m' c
    using store_page_other [of p pt 0 "page_fill c" m'] assms by simp
  then have "page_eq pt (mem s) ?m" by (blast intro: page_eq_trans)
  then have "load64 ?m (pte_addr pt j) = load64 (mem s) (pte_addr pt j)" if "unat j < 512" using pte_load_cong that by blast
  then show "unat j < 512 \<Longrightarrow> load64 (mem (with_node pt i p s)) (pte_addr pt j) =
      (if i = j then PA2PTE p OR PTE_V else load64 (mem s) (pte_addr pt j))"
    unfolding m using assms by (simp add: load_store_pte)
qed

lemma grows_node:
  assumes tr: "tree (Suc l) s pt (p # ps)" and v: "load64 (mem s) (pte_addr pt (PX (Suc l) va)) AND PTE_V = 0"
    and t: "t = with_node pt (PX (Suc l) va) p s"
  shows "grows (Suc l) pt s (p # ps) t ps" and "load64 (mem t) (pte_addr pt (PX (Suc l) va)) = PA2PTE p OR PTE_V"
    and "tree l t p ps"
proof -
  let ?i = "unat (PX (Suc l) va)"
  have i: "?i < 512" by (rule PX_less)
  have pt: "ptree (Suc l) (mem s) pt" and dj: "set (nodes (Suc l) (mem s) pt) \<inter> set (p # ps) = {}" and inv: "kmem_inv s (p # ps)"
    using tr by (simp_all add: tree_def)
  have al: "aligned p" "aligned pt" "p \<noteq> pt" "p \<noteq> 0"
    using kmem_inv_aligned [OF inv] ptree_below(5) [OF pt i] dj root_in_nodes [of pt "Suc l" "mem s"] by auto
  have fr: "page_eq q (mem s) (mem t)" if "aligned q" "q \<noteq> pt" "q \<noteq> p" for q
    unfolding t using al that i by (intro with_node_page)
  note lds = with_node_loads [OF al(2,1,3) i, of _ s, folded t]
  show ld: "load64 (mem t) (pte_addr pt (PX (Suc l) va)) = PA2PTE p OR PTE_V" using lds(2) [OF i] by simp
  have np: "nodes l (mem t) p = [p]" and lp: "\<And>w. leaf l (mem t) p w = 0" using zero_leaf lds(1) by blast+
  have bs: "below l (mem s) pt ?i = []" using v by (simp add: below_PX)
  have bt: "below l (mem t) pt ?i = [p]" using ld np al(1) by (simp add: below_PX PTE2PA_node)
  have oth: "\<forall>q\<in>set (below l (mem s) pt j). page_eq q (mem s) (mem t)" if "j < 512" for j
    using ptree_below(1,4) [OF pt that] below_in_nodes [OF that, of _ l "mem s" pt] dj by (intro ballI fr) auto
  have b: "below l (mem t) pt j = below l (mem s) pt j" if j: "j < 512" "j \<noteq> ?i" for j
  proof -
    have "load64 (mem t) (pte_addr pt (of_nat j)) = load64 (mem s) (pte_addr pt (of_nat j))"
      using lds(2) [of "of_nat j"] j by (auto simp: unat_small)
    then show ?thesis using oth [OF j(1)] nodes_cong [of l "mem s" _ "mem t"] by (simp add: below_def Let_def split: if_splits)
  qed
  have "mset (concat (map (below l (mem t) pt) [0..<512])) = mset (concat (map (below l (mem s) pt) [0..<512])) + mset [p]"
    by (rule mset_concat_upd [where i = ?i]) (use i b bs bt in auto)
  then have m: "mset (nodes (Suc l) (mem t) pt) = mset (nodes (Suc l) (mem s) pt) + mset [p]" by (simp add: nodes_Suc)
  have lf: "leaf (Suc l) (mem t) pt w = leaf (Suc l) (mem s) pt w" for w
  proof (cases "PX (Suc l) w = PX (Suc l) va")
    case True
    then show ?thesis using ld lp v al(1) by (simp add: Let_def PTE2PA_node)
  next
    case False
    then have e: "load64 (mem t) (pte_addr pt (PX (Suc l) w)) = load64 (mem s) (pte_addr pt (PX (Suc l) w))"
      using lds(2) [OF PX_less] by auto
    then show ?thesis using oth [OF PX_less [of "Suc l" w]] leaf_cong [of l "mem s" _ "mem t"]
      by (simp add: Let_def below_PX split: if_splits)
  qed
  have inv': "kmem_inv t ps"
    unfolding t using dj root_in_nodes [of pt "Suc l" "mem s"] al i by (intro with_node_inv [OF inv]) auto
  have tr': "tree (Suc l) t pt ps" by (rule treeI [OF inv' _ m]) (use tr in simp)
  have r: "t = s\<lparr>cpus := cpus t, freelist := freelist t, mem := mem t\<rparr>" and c: "\<forall>me A. calm me A s \<longrightarrow> calm me A t"
    unfolding t with_node_def after_kalloc_def by (simp_all add: calm_settled calm_def)
  show "grows (Suc l) pt s (p # ps) t ps"
    unfolding grows_def
  proof (intro conjI)
    show "\<exists>ks. p # ps = ks @ ps \<and> mset (nodes (Suc l) (mem t) pt) = mset (nodes (Suc l) (mem s) pt) + mset ks"
      by (rule exI [of _ "[p]"]) (use m in simp)
    show "\<forall>q. aligned q \<longrightarrow> q \<notin> set (nodes (Suc l) (mem s) pt) \<union> set (p # ps) \<longrightarrow> page_eq q (mem s) (mem t)"
      using fr root_in_nodes [of pt "Suc l" "mem s"] by auto
  qed (use tr' lf r c in blast)+
  show "tree l t p ps" using inv' inv np al by (auto simp: tree_def ptree_def kmem_inv_def)
qed

lemma aligned_room: "aligned p \<Longrightarrow> unat p + 4096 \<le> 2 ^ 64"
proof -
  assume "aligned p"
  then obtain k where k: "unat p = 4096 * k" by (auto simp: aligned_def)
  then have "4096 * k < 4096 * 2 ^ 52" using unat_bound [of p] by simp
  then have "4096 * Suc k \<le> 4096 * 2 ^ 52" by simp
  then show ?thesis using k by simp
qed

lemma unat_pte: "aligned p \<Longrightarrow> unat i < 512 \<Longrightarrow> unat (pte_addr p i) = unat p + 8 * unat i"
  using aligned_room [of p] unat_plus [of p "8 * unat i"] by (simp add: pte_addr_def)

lemma pte_nonzero: "aligned p \<Longrightarrow> p \<noteq> 0 \<Longrightarrow> unat i < 512 \<Longrightarrow> pte_addr p i \<noteq> 0"
  using unat_pte [of p i] by (auto simp: unat_eq_zero)

lemma walk_loop_grows:
  fixes s :: "'a kmem_scheme"
  assumes "tree l s pt ps"
  shows "\<exists>t ps'. walk_loop l pt va True s = Some (leaf_addr l (mem t) pt va, t) \<and> grows l pt s ps t ps' \<and>
    (leaf_addr l (mem t) pt va = 0 \<longrightarrow> ps' = []) \<and> length ps \<le> length ps' + l"
  using assms
proof (induction l arbitrary: pt s ps)
  case 0
  then have "pte_addr pt (PX 0 va) \<noteq> 0" by (intro pte_nonzero PX_less) (auto simp: tree_def ptree_def)
  then show ?case using grows_refl [OF 0] by auto
next
  case (Suc l)
  have valid: "\<exists>t ps'. walk_loop (Suc l) pt va True s = Some (leaf_addr (Suc l) (mem t) pt va, t) \<and> grows (Suc l) pt s ps t ps' \<and>
    (leaf_addr (Suc l) (mem t) pt va = 0 \<longrightarrow> ps' = []) \<and> length ps \<le> length ps' + l"
    if tr: "tree (Suc l) s pt ps" and v: "load64 (mem s) (pte_addr pt (PX (Suc l) va)) AND PTE_V \<noteq> 0"
    for s :: "'a kmem_scheme" and ps
  proof -
    let ?q = "PTE2PA (load64 (mem s) (pte_addr pt (PX (Suc l) va)))"
    have "tree l s ?q ps" using tr ptree_kid [OF _ v, of l] kid_nodes [OF v, of l] by (auto simp: tree_def)
    from Suc.IH [OF this] obtain t ps' where t: "walk_loop l ?q va True s = Some (leaf_addr l (mem t) ?q va, t)"
      "grows l ?q s ps t ps'" "leaf_addr l (mem t) ?q va = 0 \<longrightarrow> ps' = []"
      "length ps \<le> length ps' + l" by blast
    note g = grows_kid [OF tr v refl t(2)]
    have "leaf_addr (Suc l) (mem t) pt va = leaf_addr l (mem t) ?q va" using v g(2) by (simp add: Let_def)
    then show ?thesis using t g(1) v by (intro exI [of _ t] exI [of _ ps']) (simp add: Let_def)
  qed
  show ?case
  proof (cases "load64 (mem s) (pte_addr pt (PX (Suc l) va)) AND PTE_V = 0")
    case False
    from valid [OF Suc.prems this] show ?thesis by (elim exE conjE, intro exI conjI) (assumption+, simp)
  next
    case v: True
    show ?thesis
    proof (cases ps)
      case Nil
      let ?t = "s\<lparr>cpus := settled s\<rparr>"
      have inv: "kmem_inv s []" using Suc.prems Nil by (simp add: tree_def)
      note n = kmem_inv_kalloc_none [OF inv]
      then have "walk_loop (Suc l) pt va True s = Some (0, ?t)" using v by (simp add: Let_def)
      moreover have "leaf_addr (Suc l) (mem ?t) pt va = 0" using v by (simp add: Let_def)
      moreover have "grows (Suc l) pt s ps ?t []" using Suc.prems n Nil by (simp add: grows_def tree_def calm_settled)
      ultimately show ?thesis by (intro exI [of _ ?t] exI [of _ "[]"]) (simp add: Nil del: walk_loop.simps leaf_addr.simps)
    next
      case (Cons p ps1)
      let ?t = "with_node pt (PX (Suc l) va) p s"
      have inv: "kmem_inv s (p # ps1)" using Suc.prems Cons by (simp add: tree_def)
      have al: "aligned p" "p \<noteq> 0" using kmem_inv_aligned [OF inv] by auto
      note g = grows_node [OF Suc.prems [unfolded Cons] v refl]
      have tr: "tree (Suc l) ?t pt ps1" using g(1) by (simp add: grows_def)
      have v': "load64 (mem ?t) (pte_addr pt (PX (Suc l) va)) AND PTE_V \<noteq> 0" unfolding g(2) by simp
      from valid [OF tr v'] obtain t ps' where t: "walk_loop (Suc l) pt va True ?t = Some (leaf_addr (Suc l) (mem t) pt va, t)"
        "grows (Suc l) pt ?t ps1 t ps'" "leaf_addr (Suc l) (mem t) pt va = 0 \<longrightarrow> ps' = []" "length ps1 \<le> length ps' + l" by blast
      have "walk_loop (Suc l) pt va True s = walk_loop l p va True ?t"
        using v al kmem_inv_kalloc(1) [OF inv] by (simp add: Let_def memset_page with_node_def) (simp add: after_kalloc_def)
      also have "\<dots> = walk_loop (Suc l) pt va True ?t"
        using v' al g(2) by (simp add: Let_def PTE2PA_node)
      finally show ?thesis using t grows_trans [OF g(1) t(2)] unfolding Cons by (intro exI [of _ t] exI [of _ ps']) (simp del: walk_loop.simps leaf_addr.simps)
    qed
  qed
qed

section \<open>Page numbers\<close>

definition vpn :: "u64 \<Rightarrow> nat" where
  "vpn va = unat va div 4096"

lemma unat_PX: "unat (PX k va) = vpn va div 512 ^ k mod 512"
proof -
  have "PX k va = take_bit 9 (drop_bit (12 + 9 * k) va)" by (simp add: PX_def take_bit_eq_mask mask_eq_exp_minus_1)
  moreover have "unat (take_bit 9 (drop_bit n va)) = unat va div 2 ^ n mod 512" for n
    unfolding unsigned_take_bit_eq unat_drop_bit_eq by (simp add: take_bit_eq_mod drop_bit_eq_div)
  moreover have "(2 :: nat) ^ (12 + 9 * k) = 4096 * 512 ^ k" by (simp add: power_add power_mult)
  ultimately show ?thesis by (simp only: vpn_def div_mult2_eq)
qed

lemma digits_512: "v < 134217728 \<Longrightarrow> v = v mod 512 + 512 * (v div 512 mod 512) + 262144 * (v div 262144 mod 512)" for v :: nat
proof -
  assume "v < 134217728"
  then have "v div 262144 mod 512 = v div 512 div 512" by (simp add: div_mult2_eq [symmetric])
  then show ?thesis using div_mult_mod_eq [of v 512] div_mult_mod_eq [of "v div 512" 512] by linarith
qed

lemma vpn_less: "va < MAXVA \<Longrightarrow> vpn va < 67108864"
proof -
  assume "va < MAXVA"
  then have "unat va < 274877906944" by (simp add: word_less_nat_alt MAXVA_def)
  then show ?thesis by (simp add: vpn_def less_mult_imp_div_less)
qed

lemma same_page_vpn:
  assumes "va < MAXVA" and "w < MAXVA"
  shows "same_page 2 va w \<longleftrightarrow> vpn va = vpn w"
proof
  assume "same_page 2 va w"
  then have "unat (PX k va) = unat (PX k w)" if "k \<le> 2" for k using that by (simp add: same_page_def)
  from this [of 0] this [of 1] this [of 2]
  have "vpn va mod 512 = vpn w mod 512" "vpn va div 512 mod 512 = vpn w div 512 mod 512"
    "vpn va div 262144 mod 512 = vpn w div 262144 mod 512" by (simp_all add: unat_PX power2_eq_square)
  moreover have "vpn va < 134217728" "vpn w < 134217728" using vpn_less [OF assms(1)] vpn_less [OF assms(2)] by simp_all
  ultimately show "vpn va = vpn w" using digits_512 by metis
next
  assume "vpn va = vpn w"
  then show "same_page 2 va w" by (simp add: same_page_def word_unat_eq_iff unat_PX)
qed

end
