(* ===== verification/Usermem.thy ===== *)
theory Usermem
  imports Paging
begin

text \<open>
  The address spaces \<^verbatim>\<open>kernel/vm.c\<close> builds and what the kernel sees of them: \<open>mappages\<close> inserts
  translations, and \<open>copyout\<close> and \<open>copyin\<close> write and read the memory of a process seen as a partial
  map from virtual addresses to bytes.
\<close>

section \<open>Inserting translations\<close>

lemma leaf_load: "leaf_addr l m pt va \<noteq> 0 \<Longrightarrow> load64 m (leaf_addr l m pt va) = leaf l m pt va"
  by (induction l arbitrary: pt) (auto simp: Let_def split: if_splits)

lemma leaf_none: "ptree l m pt \<Longrightarrow> leaf_addr l m pt va = 0 \<Longrightarrow> leaf l m pt va = 0"
proof (induction l arbitrary: pt)
  case 0
  then show ?case using pte_nonzero [OF _ _ PX_less, of pt 0 va] by (simp add: ptree_def)
next
  case (Suc l)
  then show ?case using ptree_kid [OF Suc.prems(1), of "Suc l" va] by (simp add: Let_def split: if_splits)
qed

lemma unat_MAXVA: "unat MAXVA = 274877906944"
  by (simp add: MAXVA_def)

lemma vpn_next: "unat a + 4096 < 2 ^ 64 \<Longrightarrow> unat (a + PGSIZE) = unat a + 4096 \<and> vpn (a + PGSIZE) = Suc (vpn a)"
  using unat_plus [of a 4096] by (simp add: vpn_def PGSIZE_def)

text \<open>The entries after \<open>n\<close> pages from \<open>a\<close> have been mapped to the frames from \<open>pa\<close>.\<close>

definition mapped :: "u64 \<Rightarrow> nat \<Rightarrow> u64 \<Rightarrow> u64 \<Rightarrow> (u64 \<Rightarrow> u64) \<Rightarrow> u64 \<Rightarrow> u64" where
  "mapped a n pa perm f w =
     (if vpn a \<le> vpn w \<and> vpn w < vpn a + n then PA2PTE (pa + of_nat (vpn w - vpn a) * PGSIZE) OR perm OR PTE_V else f w)"

lemma mapped_0 [simp]: "mapped a 0 pa perm f = f"
  by (rule ext) (auto simp: mapped_def)

lemma mapped_Suc:
  assumes "vpn b = Suc (vpn a)"
  shows "mapped b n (pa + PGSIZE) perm g w =
    (if vpn w = vpn a then g w else mapped a (Suc n) pa perm g w)"
proof -
  have "pa + PGSIZE + of_nat (vpn w - Suc (vpn a)) * PGSIZE = pa + of_nat (vpn w - vpn a) * PGSIZE" if "Suc (vpn a) \<le> vpn w"
  proof -
    from that have "vpn w - vpn a = Suc (vpn w - Suc (vpn a))" by simp
    then show ?thesis by (simp only: of_nat_Suc algebra_simps mult_1)
  qed
  then show ?thesis using assms by (auto simp: mapped_def add.assoc simp del: of_nat_diff)
qed

lemma walk_alloc:
  assumes "tree 2 s pt ps" and "va < MAXVA"
  obtains t ps' where "walk pt va True s = Some (leaf_addr 2 (mem t) pt va, t)" and "grows 2 pt s ps t ps'"
    and "leaf_addr 2 (mem t) pt va = 0 \<longrightarrow> ps' = []" and "length ps \<le> length ps' + 2"
proof -
  have "walk pt va True s = walk_loop 2 pt va True s" using assms(2) by (auto simp: walk_def)
  with walk_loop_grows [OF assms(1), of va] that show thesis by metis
qed

lemma mappages_step:
  assumes tr: "tree 2 s pt ps" and a: "a < MAXVA" and v: "leaf 2 (mem s) pt a AND PTE_V = 0"
  shows "\<exists>t ps'. extends 2 pt s ps t ps' \<and> length ps \<le> length ps' + 2 \<and>
    (mappages_loop pt a lst pa perm s = Some (-1, t) \<and> ps' = [] \<and> (\<forall>w. leaf 2 (mem t) pt w = leaf 2 (mem s) pt w) \<or>
     mappages_loop pt a lst pa perm s = (if a = lst then Some (0, t) else mappages_loop pt (a + PGSIZE) lst (pa + PGSIZE) perm t) \<and>
     (\<forall>w<MAXVA. leaf 2 (mem t) pt w = mapped a 1 pa perm (leaf 2 (mem s) pt) w))"
proof -
  obtain u ps' where u: "walk pt a True s = Some (leaf_addr 2 (mem u) pt a, u)" "grows 2 pt s ps u ps'"
    "leaf_addr 2 (mem u) pt a = 0 \<longrightarrow> ps' = []" "length ps \<le> length ps' + 2"
    using walk_alloc [OF tr a] .
  have e: "extends 2 pt s ps u ps'" and l: "\<forall>w. leaf 2 (mem u) pt w = leaf 2 (mem s) pt w" and tu: "tree 2 u pt ps'"
    using u(2) by (simp_all add: grows_ext) (simp add: extends_def)
  show ?thesis
  proof (cases "leaf_addr 2 (mem u) pt a = 0")
    case True
    then have "mappages_loop pt a lst pa perm s = Some (-1, u)" using u(1) by (subst mappages_loop.simps) simp
    then show ?thesis using e l u(3,4) True by blast
  next
    case False
    let ?t = "u\<lparr>mem := store64 (mem u) (leaf_addr 2 (mem u) pt a) (PA2PTE pa OR perm OR PTE_V)\<rparr>"
    note st = extends_store [OF tu False refl, of "PA2PTE pa OR perm OR PTE_V"]
    have "load64 (mem u) (leaf_addr 2 (mem u) pt a) AND PTE_V = 0" using leaf_load [OF False] l v by simp
    then have "mappages_loop pt a lst pa perm s =
        (if a = lst then Some (0, ?t) else mappages_loop pt (a + PGSIZE) lst (pa + PGSIZE) perm ?t)"
      using u(1) False by (subst mappages_loop.simps) simp
    moreover have "leaf 2 (mem ?t) pt w = mapped a 1 pa perm (leaf 2 (mem s) pt) w" if "w < MAXVA" for w
      using st(2) [of w] same_page_vpn [OF a that] l by (auto simp: mapped_def)
    ultimately show ?thesis using extends_trans [OF e st(1)] u(4) by blast
  qed
qed

lemma mappages_loop_runs:
  assumes "tree 2 s pt ps" and "unat a + 4096 * Suc n \<le> unat MAXVA" and "lst = a + of_nat n * PGSIZE"
    and "\<forall>w<MAXVA. vpn a \<le> vpn w \<and> vpn w \<le> vpn a + n \<longrightarrow> leaf 2 (mem s) pt w AND PTE_V = 0"
  shows "\<exists>r t ps' k. mappages_loop pt a lst pa perm s = Some (r, t) \<and> extends 2 pt s ps t ps' \<and>
    (\<forall>w<MAXVA. leaf 2 (mem t) pt w = mapped a k pa perm (leaf 2 (mem s) pt) w) \<and>
    (r = 0 \<and> k = Suc n \<or> r = -1 \<and> k \<le> n \<and> ps' = []) \<and> length ps \<le> length ps' + 2 * Suc n"
  using assms
proof (induction n arbitrary: s ps a pa)
  case (0 s ps a pa)
  have a: "a < MAXVA" using 0(2) by (simp add: word_less_nat_alt)
  have "leaf 2 (mem s) pt a AND PTE_V = 0" using 0(4) a by simp
  from mappages_step [OF 0(1) a this, of lst pa perm] obtain t ps' where t: "extends 2 pt s ps t ps'" and len: "length ps \<le> length ps' + 2" and m:
    "mappages_loop pt a lst pa perm s = Some (-1, t) \<and> ps' = [] \<and> (\<forall>w. leaf 2 (mem t) pt w = leaf 2 (mem s) pt w) \<or>
     mappages_loop pt a lst pa perm s = Some (0, t) \<and> (\<forall>w<MAXVA. leaf 2 (mem t) pt w = mapped a 1 pa perm (leaf 2 (mem s) pt) w)"
    using 0(3) by auto
  from m show ?case
  proof (elim disjE)
    assume "mappages_loop pt a lst pa perm s = Some (-1, t) \<and> ps' = [] \<and> (\<forall>w. leaf 2 (mem t) pt w = leaf 2 (mem s) pt w)"
    with t len show ?thesis by (intro exI [of _ "-1"] exI [of _ t] exI [of _ ps'] exI [of _ 0]) simp
  next
    assume "mappages_loop pt a lst pa perm s = Some (0, t) \<and> (\<forall>w<MAXVA. leaf 2 (mem t) pt w = mapped a 1 pa perm (leaf 2 (mem s) pt) w)"
    with t len show ?thesis by (intro exI [of _ 0] exI [of _ t] exI [of _ ps'] exI [of _ 1]) simp
  qed
next
  case (Suc n s ps a pa)
  let ?b = "a + PGSIZE"
  have a: "a < MAXVA" using Suc.prems(2) by (simp add: word_less_nat_alt)
  have b: "unat ?b = unat a + 4096" "vpn ?b = Suc (vpn a)" using vpn_next [of a] Suc.prems(2) unat_MAXVA by simp_all
  have ne: "a \<noteq> lst"
  proof -
    have "unat (of_nat (Suc n) * PGSIZE) = Suc n * 4096"
      using Suc.prems(2) by (simp add: unat_MAXVA PGSIZE_def unat_word_ariths unat_of_nat take_bit_nat_eq_self del: of_nat_Suc)
    then have "of_nat (Suc n) * PGSIZE \<noteq> 0" by (metis mult_is_0 nat.distinct(1) unat_0 zero_neq_numeral)
    then show ?thesis unfolding Suc.prems(3) by (simp del: of_nat_Suc)
  qed
  have "leaf 2 (mem s) pt a AND PTE_V = 0" using Suc.prems(4) a by simp
  from mappages_step [OF Suc.prems(1) a this, of lst pa perm] ne obtain t ps' where t: "extends 2 pt s ps t ps'" and len: "length ps \<le> length ps' + 2" and m:
    "mappages_loop pt a lst pa perm s = Some (-1, t) \<and> ps' = [] \<and> (\<forall>w. leaf 2 (mem t) pt w = leaf 2 (mem s) pt w) \<or>
     mappages_loop pt a lst pa perm s = mappages_loop pt ?b lst (pa + PGSIZE) perm t \<and>
       (\<forall>w<MAXVA. leaf 2 (mem t) pt w = mapped a 1 pa perm (leaf 2 (mem s) pt) w)"
    by auto
  from m show ?case
  proof (elim disjE conjE)
    assume "mappages_loop pt a lst pa perm s = Some (-1, t)" "ps' = []" "\<forall>w. leaf 2 (mem t) pt w = leaf 2 (mem s) pt w"
    with t len show ?thesis by (intro exI [of _ "-1"] exI [of _ t] exI [of _ ps'] exI [of _ 0]) simp
  next
    assume m: "mappages_loop pt a lst pa perm s = mappages_loop pt ?b lst (pa + PGSIZE) perm t"
      and l: "\<forall>w<MAXVA. leaf 2 (mem t) pt w = mapped a 1 pa perm (leaf 2 (mem s) pt) w"
    have "tree 2 t pt ps'" using t by (simp add: extends_def)
    moreover have "unat ?b + 4096 * Suc n \<le> unat MAXVA" using Suc.prems(2) b by simp
    moreover have "lst = ?b + of_nat n * PGSIZE" using Suc.prems(3) by (simp add: algebra_simps)
    moreover have "\<forall>w<MAXVA. vpn ?b \<le> vpn w \<and> vpn w \<le> vpn ?b + n \<longrightarrow> leaf 2 (mem t) pt w AND PTE_V = 0"
      using l Suc.prems(4) b(2) by (simp add: mapped_def)
    ultimately obtain r u qs k where u: "mappages_loop pt ?b lst (pa + PGSIZE) perm t = Some (r, u)" "extends 2 pt t ps' u qs"
      "\<forall>w<MAXVA. leaf 2 (mem u) pt w = mapped ?b k (pa + PGSIZE) perm (leaf 2 (mem t) pt) w"
      "r = 0 \<and> k = Suc n \<or> r = -1 \<and> k \<le> n \<and> qs = []" "length ps' \<le> length qs + 2 * Suc n"
      using Suc.IH by blast
    have "leaf 2 (mem u) pt w = mapped a (Suc k) pa perm (leaf 2 (mem s) pt) w" if "w < MAXVA" for w
      using u(3) l that by (simp add: mapped_Suc [OF b(2)]) (simp add: mapped_def)
    with u len m extends_trans [OF t u(2)] show ?thesis
      by (intro exI [of _ r] exI [of _ u] exI [of _ qs] exI [of _ "Suc k"]) auto
  qed
qed

lemma mappages_runs:
  assumes tr: "tree 2 s pt ps" and al: "aligned va" "aligned sz" and sz: "sz \<noteq> 0" and top: "unat va + unat sz \<le> unat MAXVA"
    and new: "\<forall>w<MAXVA. vpn va \<le> vpn w \<and> vpn w < vpn va + unat sz div 4096 \<longrightarrow> leaf 2 (mem s) pt w AND PTE_V = 0"
  shows "\<exists>r t ps' k. mappages pt va sz pa perm s = Some (r, t) \<and> extends 2 pt s ps t ps' \<and>
    (\<forall>w<MAXVA. leaf 2 (mem t) pt w = mapped va k pa perm (leaf 2 (mem s) pt) w) \<and>
    (r = 0 \<and> k = unat sz div 4096 \<or> r = -1 \<and> k < unat sz div 4096 \<and> ps' = []) \<and> length ps \<le> length ps' + 2 * (unat sz div 4096)"
proof -
  obtain n where n: "unat sz = 4096 * n" using al(2) by (auto simp: aligned_def)
  then obtain k where k: "n = Suc k" using sz by (cases n) (auto simp: unat_eq_zero)
  have "sz = of_nat (unat sz)" by simp
  then have s: "sz = of_nat n * PGSIZE" unfolding n by (simp add: PGSIZE_def)
  have e: "va + sz - PGSIZE = va + of_nat k * PGSIZE" unfolding s k by (simp add: algebra_simps)
  have "va mod PGSIZE = 0" "sz mod PGSIZE = 0" using al by (simp_all add: page_mod aligned_def)
  then have "mappages pt va sz pa perm s = mappages_loop pt va (va + of_nat k * PGSIZE) pa perm s"
    unfolding mappages_def e using sz by simp
  moreover have "unat va + 4096 * Suc k \<le> unat MAXVA" using top n k by simp
  moreover have "\<forall>w<MAXVA. vpn va \<le> vpn w \<and> vpn w \<le> vpn va + k \<longrightarrow> leaf 2 (mem s) pt w AND PTE_V = 0"
    using new n k by simp
  ultimately show ?thesis using mappages_loop_runs [OF tr _ refl, of va k pa perm] n k by (simp add: less_Suc_eq_le)
qed

text \<open>A new table.\<close>

lemma uvmcreate_tree:
  assumes inv: "kmem_inv s (p # ps)"
  shows "\<exists>t. uvmcreate s = Some (p, t) \<and> tree 2 t p ps \<and> nodes 2 (mem t) p = [p] \<and> (\<forall>va. leaf 2 (mem t) p va = 0) \<and>
    t = s\<lparr>cpus := cpus t, freelist := freelist t, mem := mem t\<rparr> \<and> (\<forall>me A. calm me A s \<longrightarrow> calm me A t)"
proof -
  let ?t = "(after_kalloc p s)\<lparr>mem := store_bytes (mem (after_kalloc p s)) p (page_fill 0)\<rparr>"
  have al: "aligned p" "p \<noteq> 0" using kmem_inv_aligned [OF inv] by auto
  have u: "uvmcreate s = Some (p, ?t)" using kmem_inv_kalloc(1) [OF inv] al by (simp add: uvmcreate_def memset_page)
  have z: "\<forall>i. unat i < 512 \<longrightarrow> load64 (mem ?t) (pte_addr p i) = 0" by (simp add: load_zero_page)
  have p: "p \<notin> set ps" using inv by (simp add: kmem_inv_def)
  then have "\<forall>q\<in>set ps. page_eq q (mem (after_kalloc p s)) (mem ?t)"
    using store_page_other [of p _ 0 "page_fill 0"] al kmem_inv_aligned [OF inv] by auto
  from kmem_inv_cong [OF kmem_inv_kalloc(2) [OF inv] this] have i: "kmem_inv ?t ps" by simp
  note n = zero_leaf(2) [OF z] and l = zero_leaf(1) [OF z]
  have "tree 2 ?t p ps" using i al p unfolding tree_def ptree_def n by simp
  moreover have "?t = s\<lparr>cpus := cpus ?t, freelist := freelist ?t, mem := mem ?t\<rparr>" by (simp add: after_kalloc_def)
  moreover have "\<forall>me A. calm me A s \<longrightarrow> calm me A ?t" by (simp add: after_kalloc_def calm_def)
  ultimately show ?thesis using u n l by blast
qed

section \<open>The memory of a process\<close>

definition frame_of :: "memory \<Rightarrow> u64 \<Rightarrow> u64 \<Rightarrow> u64" where
  "frame_of m pt va = PTE2PA (leaf 2 m pt va)"

definition user_ok :: "memory \<Rightarrow> u64 \<Rightarrow> u64 \<Rightarrow> bool" where
  "user_ok m pt va \<longleftrightarrow> va < MAXVA \<and> leaf 2 m pt va AND PTE_V \<noteq> 0 \<and> leaf 2 m pt va AND PTE_U \<noteq> 0 \<and> frame_of m pt va \<noteq> 0"

definition uaddr :: "memory \<Rightarrow> u64 \<Rightarrow> u64 \<Rightarrow> u64" where
  "uaddr m pt va = frame_of m pt va + of_nat (unat va mod 4096)"

definition uview :: "memory \<Rightarrow> u64 \<Rightarrow> u64 \<Rightarrow> u8 option" where
  "uview m pt va = (if user_ok m pt va then Some (m (uaddr m pt va)) else None)"

text \<open>The frames of a process are no pages of its table, and no two of its pages share a frame.\<close>

definition uspace :: "memory \<Rightarrow> u64 \<Rightarrow> bool" where
  "uspace m pt \<longleftrightarrow> ptree 2 m pt \<and> (\<forall>va. user_ok m pt va \<longrightarrow> frame_of m pt va \<notin> set (nodes 2 m pt)) \<and>
     (\<forall>va w. user_ok m pt va \<longrightarrow> user_ok m pt w \<longrightarrow> frame_of m pt va = frame_of m pt w \<longrightarrow> vpn va = vpn w)"

definition user_range :: "memory \<Rightarrow> u64 \<Rightarrow> u64 \<Rightarrow> nat \<Rightarrow> bool" where
  "user_range m pt a n \<longleftrightarrow> unat a + n \<le> unat MAXVA \<and> (\<forall>i<n. user_ok m pt (a + of_nat i))"

definition writable :: "memory \<Rightarrow> u64 \<Rightarrow> u64 \<Rightarrow> nat \<Rightarrow> bool" where
  "writable m pt a n \<longleftrightarrow> (\<forall>i<n. leaf 2 m pt (a + of_nat i) AND PTE_W \<noteq> 0)"

lemma frame_aligned: "aligned (frame_of m pt va)"
proof -
  have "take_bit 12 (frame_of m pt va) = 0"
    by (rule bit_word_eqI) (simp add: frame_of_def PTE2PA_def bit_take_bit_iff bit_push_bit_iff)
  then have "unat (take_bit 12 (frame_of m pt va)) = 0" by simp
  then show ?thesis unfolding unsigned_take_bit_eq by (simp add: aligned_def take_bit_eq_mod)
qed

lemma leaf_vpn: "vpn va = vpn w \<Longrightarrow> leaf l m pt va = leaf l m pt w"
proof -
  assume "vpn va = vpn w"
  then have "PX k va = PX k w" for k by (simp add: word_unat_eq_iff unat_PX)
  then show ?thesis by (induction l arbitrary: pt) (simp_all add: Let_def)
qed

lemma round_down: "unat (PGROUNDDOWN va) = 4096 * vpn va" and offset: "va - PGROUNDDOWN va = of_nat (unat va mod 4096)"
proof -
  show r: "unat (PGROUNDDOWN va) = 4096 * vpn va" by (simp add: unat_PGROUNDDOWN vpn_def)
  have "PGROUNDDOWN va \<le> va" by (simp add: word_le_nat_alt unat_PGROUNDDOWN)
  then have "unat (va - PGROUNDDOWN va) = unat va mod 4096" by (simp add: unat_sub r vpn_def modulo_nat_def)
  then have "of_nat (unat (va - PGROUNDDOWN va)) = (of_nat (unat va mod 4096) :: u64)" by (simp only:)
  then show "va - PGROUNDDOWN va = of_nat (unat va mod 4096)" by simp
qed

lemma vpn_round [simp]: "vpn (PGROUNDDOWN va) = vpn va"
  by (simp add: vpn_def round_down [unfolded vpn_def])

lemma round_below: "PGROUNDDOWN va < MAXVA \<longleftrightarrow> va < MAXVA"
  by (auto simp: word_less_nat_alt unat_PGROUNDDOWN unat_MAXVA)

lemma rest_of_page: "unat (PGSIZE - (va - PGROUNDDOWN va)) = 4096 - unat va mod 4096"
proof -
  have u: "unat (of_nat (unat va mod 4096) :: u64) = unat va mod 4096" by (simp add: unat_of_nat take_bit_nat_eq_self)
  then have "(of_nat (unat va mod 4096) :: u64) \<le> PGSIZE" by (simp add: word_le_nat_alt PGSIZE_def)
  then show ?thesis unfolding offset by (simp add: unat_sub u) (simp add: PGSIZE_def)
qed

lemma next_page: "PGROUNDDOWN va + PGSIZE = va + of_nat (4096 - unat va mod 4096)"
proof -
  have "unat va mod 4096 \<le> 4096" by simp
  then have "(of_nat (4096 - unat va mod 4096) :: u64) = 4096 - of_nat (unat va mod 4096)" by (simp only: of_nat_diff of_nat_numeral)
  moreover have "PGROUNDDOWN va = va - of_nat (unat va mod 4096)" using offset [of va] by (simp add: algebra_simps)
  ultimately show ?thesis by (simp add: PGSIZE_def)
qed

lemma in_page:
  assumes "unat va mod 4096 + i < 4096" and "unat va + i < 2 ^ 64"
  shows "vpn (va + of_nat i) = vpn va" and "unat (va + of_nat i) mod 4096 = unat va mod 4096 + i"
proof -
  have u: "unat (va + of_nat i) = unat va + i" by (rule unat_plus) (fact assms(2))
  have "unat va + i = 4096 * (unat va div 4096) + (unat va mod 4096 + i)" by simp
  then show "vpn (va + of_nat i) = vpn va" "unat (va + of_nat i) mod 4096 = unat va mod 4096 + i"
    unfolding vpn_def u using assms(1) by (metis div_mult_self4 div_less add.right_neutral zero_neq_numeral, metis mod_mult_self4 mod_less)
qed

lemma uaddr_in_page:
  assumes "unat va mod 4096 + i < 4096" and "unat va + i < 2 ^ 64"
  shows "uaddr m pt (va + of_nat i) = frame_of m pt va + of_nat (unat va mod 4096) + of_nat i"
  using in_page [OF assms] leaf_vpn [OF in_page(1) [OF assms]] by (simp add: uaddr_def frame_of_def)

definition ubytes :: "memory \<Rightarrow> u64 \<Rightarrow> u64 \<Rightarrow> nat \<Rightarrow> bytes" where
  "ubytes m pt a n = map (\<lambda>i. m (uaddr m pt (a + of_nat i))) [0..<n]"

lemma ubytes_split: "ubytes m pt a (n + k) = ubytes m pt a n @ ubytes m pt (a + of_nat n) k"
  by (induction k) (simp_all add: ubytes_def add.assoc)

lemma ubytes_page:
  assumes "unat a mod 4096 + n \<le> 4096" and "unat a + n \<le> 2 ^ 64"
  shows "ubytes m pt a n = load_bytes m (frame_of m pt a + of_nat (unat a mod 4096)) n"
  unfolding ubytes_def load_bytes_def
  by (rule map_cong [OF refl]) (use assms uaddr_in_page in auto)

lemma user_range_mono: "user_range m pt a n \<Longrightarrow> k \<le> n \<Longrightarrow> user_range m pt a k"
  by (auto simp: user_range_def)

lemma user_range_drop:
  "user_range m pt a n \<Longrightarrow> k \<le> n \<Longrightarrow> user_range m pt (a + of_nat k) (n - k)"
proof -
  assume r: "user_range m pt a n" and k: "k \<le> n"
  have "unat (a + of_nat k) = unat a + k" using r k by (intro unat_plus) (simp add: user_range_def unat_MAXVA)
  moreover have "user_ok m pt (a + of_nat k + of_nat i)" if "i < n - k" for i
  proof -
    have "k + i < n" using that by simp
    then have "user_ok m pt (a + of_nat (k + i))" using r unfolding user_range_def by blast
    then show ?thesis by (simp add: add.assoc)
  qed
  ultimately show ?thesis using r k by (simp add: user_range_def)
qed

lemma walkaddr_ok:
  assumes "ptree 2 (mem s) pt" and "user_ok (mem s) pt va"
  shows "walkaddr pt (PGROUNDDOWN va) s = Some (frame_of (mem s) pt va, s)"
    and "walk pt (PGROUNDDOWN va) False s = Some (leaf_addr 2 (mem s) pt (PGROUNDDOWN va), s)"
    and "leaf_addr 2 (mem s) pt (PGROUNDDOWN va) \<noteq> 0"
    and "load64 (mem s) (leaf_addr 2 (mem s) pt (PGROUNDDOWN va)) = leaf 2 (mem s) pt va"
proof -
  let ?a = "leaf_addr 2 (mem s) pt (PGROUNDDOWN va)"
  have l: "leaf 2 (mem s) pt (PGROUNDDOWN va) = leaf 2 (mem s) pt va" by (rule leaf_vpn) simp
  have b: "PGROUNDDOWN va < MAXVA" using assms(2) by (simp add: user_ok_def round_below)
  show w: "walk pt (PGROUNDDOWN va) False s = Some (?a, s)" by (rule walk_ro [OF b])
  show nz: "?a \<noteq> 0" using leaf_none [OF assms(1), of "PGROUNDDOWN va"] assms(2) l by (auto simp: user_ok_def)
  show "load64 (mem s) ?a = leaf 2 (mem s) pt va" using leaf_load [OF nz] l by simp
  then show "walkaddr pt (PGROUNDDOWN va) s = Some (frame_of (mem s) pt va, s)"
    using w nz b assms(2) by (simp add: walkaddr_def user_ok_def frame_of_def not_le [symmetric])
qed

lemma copyin_loop_reads:
  assumes "ptree 2 (mem s) pt" and "user_range (mem s) pt a n"
  shows "copyin_loop pt acc a n s = Some (0, acc @ ubytes (mem s) pt a n, s)"
  using assms(2)
proof (induction n arbitrary: a acc rule: less_induct)
  case (less n)
  show ?case
  proof (cases "n = 0")
    case True
    then show ?thesis by (simp add: copyin_loop.simps ubytes_def)
  next
    case False
    let ?k = "min (4096 - unat a mod 4096) n"
    have "user_ok (mem s) pt (a + of_nat 0)" using less.prems False unfolding user_range_def by blast
    then have ok: "user_ok (mem s) pt a" by simp
    then have nz: "frame_of (mem s) pt a \<noteq> 0" by (simp add: user_ok_def)
    have k: "0 < ?k" "?k \<le> n" using False by (simp_all add: Suc_le_eq)
    have "ubytes (mem s) pt a ?k = load_bytes (mem s) (frame_of (mem s) pt a + (a - PGROUNDDOWN a)) ?k"
      unfolding offset using less.prems by (intro ubytes_page) (auto simp: user_range_def unat_MAXVA)
    then have "copyin_loop pt acc a n s = copyin_loop pt (acc @ ubytes (mem s) pt a ?k) (PGROUNDDOWN a + PGSIZE) (n - ?k) s"
      using walkaddr_ok(1) [OF assms(1) ok] nz False by (subst copyin_loop.simps) (simp add: Let_def rest_of_page)
    also have "\<dots> = Some (0, acc @ ubytes (mem s) pt a n, s)"
    proof (cases "?k = n")
      case True
      then show ?thesis by (simp add: copyin_loop.simps)
    next
      case no: False
      then have kk: "?k = 4096 - unat a mod 4096" by simp
      have "user_range (mem s) pt (a + of_nat ?k) (n - ?k)" by (rule user_range_drop [OF less.prems k(2)])
      from less.IH [OF _ this, of "acc @ ubytes (mem s) pt a ?k"] k no
      have "copyin_loop pt (acc @ ubytes (mem s) pt a ?k) (a + of_nat ?k) (n - ?k) s =
          Some (0, acc @ ubytes (mem s) pt a ?k @ ubytes (mem s) pt (a + of_nat ?k) (n - ?k), s)" by simp
      moreover have "PGROUNDDOWN a + PGSIZE = a + of_nat ?k" unfolding next_page kk ..
      moreover have "ubytes (mem s) pt a ?k @ ubytes (mem s) pt (a + of_nat ?k) (n - ?k) = ubytes (mem s) pt a n"
        using k(2) by (simp only: ubytes_split [symmetric]) simp
      ultimately show ?thesis by (simp only:)
    qed
    finally show ?thesis .
  qed
qed

lemma store_bytes_offset:
  assumes "k < 4096" and "off + length bs \<le> 4096"
  shows "store_bytes m (p + of_nat off) bs (p + of_nat k) =
    (if off \<le> k \<and> k < off + length bs then bs ! (k - off) else m (p + of_nat k))"
proof (cases "off \<le> k")
  case True
  then have e: "p + of_nat k = p + of_nat off + of_nat (k - off)" by (simp add: of_nat_diff)
  show ?thesis
  proof (cases "k < off + length bs")
    case lt: True
    then have "k - off < length bs" using True by simp
    then show ?thesis unfolding e using True lt assms by (simp add: store_bytes_at del: of_nat_diff)
  next
    case False
    have "unat (p + of_nat k - (p + of_nat off)) = k - off"
      unfolding e using assms by (simp add: unat_of_nat take_bit_nat_eq_self del: of_nat_diff)
    moreover have "\<not> k - off < length bs" using True False by simp
    ultimately have "store_bytes m (p + of_nat off) bs (p + of_nat k) = m (p + of_nat k)"
      by (intro store_bytes_outside) (simp only: not_False_eq_True)
    then show ?thesis using False by simp
  qed
next
  case False
  have "unat (p + of_nat k - (p + of_nat off)) = unat (of_nat k - of_nat off :: u64)" by simp
  also have "\<dots> = k + 2 ^ 64 - off"
    using False assms unat_sub_if' [of "of_nat k :: u64" "of_nat off"] by (simp add: unat_of_nat take_bit_nat_eq_self)
  finally have "\<not> unat (p + of_nat k - (p + of_nat off)) < length bs" using False assms by simp
  from store_bytes_outside [OF this] show ?thesis using False by simp
qed

lemma vpn_offset: "unat va = 4096 * vpn va + unat va mod 4096"
  by (simp add: vpn_def)

lemma range_in_page:
  assumes "unat a mod 4096 + n \<le> 4096"
  shows "unat a \<le> unat w \<and> unat w < unat a + n \<longleftrightarrow>
    vpn w = vpn a \<and> unat a mod 4096 \<le> unat w mod 4096 \<and> unat w mod 4096 < unat a mod 4096 + n"
proof
  assume r: "unat a \<le> unat w \<and> unat w < unat a + n"
  let ?i = "unat w - unat a"
  have w: "w = a + of_nat ?i" using r by (simp add: of_nat_diff)
  have i: "unat a mod 4096 + ?i < 4096" "unat a + ?i < 2 ^ 64" using assms r unat_bound [of w] by auto
  from in_page [OF i] show "vpn w = vpn a \<and> unat a mod 4096 \<le> unat w mod 4096 \<and> unat w mod 4096 < unat a mod 4096 + n"
    unfolding w [symmetric] using r by auto
next
  assume "vpn w = vpn a \<and> unat a mod 4096 \<le> unat w mod 4096 \<and> unat w mod 4096 < unat a mod 4096 + n"
  then show "unat a \<le> unat w \<and> unat w < unat a + n" using vpn_offset [of a] vpn_offset [of w] by linarith
qed

text \<open>Writing inside a frame of the process changes those bytes of its memory and nothing else.\<close>

lemma uspace_store:
  assumes us: "uspace m pt" and ok: "user_ok m pt a" and page: "unat a mod 4096 + length bs \<le> 4096"
    and top: "unat a + length bs \<le> unat MAXVA"
    and m': "m' = store_bytes m (frame_of m pt a + of_nat (unat a mod 4096)) bs"
  shows "leaf 2 m' pt w = leaf 2 m pt w" and "uspace m' pt" and
    "uview m' pt w = (if unat a \<le> unat w \<and> unat w < unat a + length bs then Some (bs ! (unat w - unat a)) else uview m pt w)"
proof -
  have pt: "ptree 2 m pt" and nf: "\<And>va. user_ok m pt va \<Longrightarrow> frame_of m pt va \<notin> set (nodes 2 m pt)"
    and inj: "\<And>va w. user_ok m pt va \<Longrightarrow> user_ok m pt w \<Longrightarrow> frame_of m pt va = frame_of m pt w \<Longrightarrow> vpn va = vpn w"
    using us unfolding uspace_def by blast+
  have eq: "page_eq q m m'" if "aligned q" "q \<noteq> frame_of m pt a" for q
    unfolding m' by (rule store_page_other) (use that page frame_aligned in auto)
  have nodes: "\<forall>p\<in>set (nodes 2 m pt). page_eq p m m'" using pt nf [OF ok] by (auto simp: ptree_def intro!: eq)
  note lf = leaf_cong [OF nodes] and nd = nodes_cong [OF nodes]
  show "leaf 2 m' pt w = leaf 2 m pt w" by (rule lf)
  have fr: "frame_of m' pt = frame_of m pt" and uo: "user_ok m' pt = user_ok m pt" and ua: "uaddr m' pt = uaddr m pt"
    by (simp_all add: fun_eq_iff frame_of_def user_ok_def uaddr_def lf)
  show "uspace m' pt" using us unfolding uspace_def ptree_def nd fr uo .
  show "uview m' pt w = (if unat a \<le> unat w \<and> unat w < unat a + length bs then Some (bs ! (unat w - unat a)) else uview m pt w)"
  proof (cases "user_ok m pt w")
    case w: True
    show ?thesis
    proof (cases "frame_of m pt w = frame_of m pt a")
      case True
      have v: "vpn w = vpn a" by (rule inj [OF w ok True])
      have "m' (uaddr m pt w) = (if unat a mod 4096 \<le> unat w mod 4096 \<and> unat w mod 4096 < unat a mod 4096 + length bs
          then bs ! (unat w mod 4096 - unat a mod 4096) else m (uaddr m pt w))"
        unfolding m' uaddr_def True by (rule store_bytes_offset) (use page in auto)
      moreover have "unat w mod 4096 - unat a mod 4096 = unat w - unat a" using vpn_offset [of a] vpn_offset [of w] v by linarith
      ultimately show ?thesis
        unfolding range_in_page [OF page] uview_def uo ua using w v
        by (cases "unat a mod 4096 \<le> unat w mod 4096 \<and> unat w mod 4096 < unat a mod 4096 + length bs") (simp_all only: if_True if_False simp_thms)
    next
      case False
      then have "vpn w \<noteq> vpn a" using leaf_vpn [of w a 2 m pt] by (auto simp: frame_of_def)
      moreover have "m' (uaddr m pt w) = m (uaddr m pt w)"
        using eq [OF frame_aligned False] by (simp add: page_eq_def uaddr_def)
      ultimately show ?thesis unfolding range_in_page [OF page] by (simp add: uview_def uo ua)
    qed
  next
    case False
    have "\<not> (unat a \<le> unat w \<and> unat w < unat a + length bs)"
    proof
      assume r: "unat a \<le> unat w \<and> unat w < unat a + length bs"
      then have "vpn w = vpn a" unfolding range_in_page [OF page] by simp
      then have "leaf 2 m pt w = leaf 2 m pt a" by (rule leaf_vpn)
      moreover have "w < MAXVA" using r top by (simp add: word_less_nat_alt)
      ultimately show False using ok False by (simp add: user_ok_def frame_of_def)
    qed
    then show ?thesis using False by (simp add: uview_def uo)
  qed
qed

lemma copyout_writes:
  fixes s :: "'a ptable_scheme"
  assumes "uspace (mem s) pt" and "user_range (mem s) pt a (length src)" and "writable (mem s) pt a (length src)"
  shows "\<exists>m. copyout pt a src s = Some (0, s\<lparr>mem := m\<rparr>) \<and> uspace m pt \<and> (\<forall>w. leaf 2 m pt w = leaf 2 (mem s) pt w) \<and>
    (\<forall>w. uview m pt w = (if unat a \<le> unat w \<and> unat w < unat a + length src then Some (src ! (unat w - unat a)) else uview (mem s) pt w))"
  using assms
proof (induction "length src" arbitrary: a src s rule: less_induct)
  case less
  show ?case
  proof (cases "src = []")
    case True
    then show ?thesis using less.prems(1) by (intro exI [of _ "mem s"]) (auto simp: copyout.simps)
  next
    case False
    define k where "k = min (4096 - unat a mod 4096) (length src)"
    define m1 where "m1 = store_bytes (mem s) (frame_of (mem s) pt a + of_nat (unat a mod 4096)) (take k src)"
    let ?n = "length src"
    have n: "0 < ?n" using False by simp
    have "user_ok (mem s) pt (a + of_nat 0)" "leaf 2 (mem s) pt (a + of_nat 0) AND PTE_W \<noteq> 0"
      using less.prems n unfolding user_range_def writable_def by blast+
    then have ok: "user_ok (mem s) pt a" and w: "leaf 2 (mem s) pt a AND PTE_W \<noteq> 0" by simp_all
    have top: "unat a + ?n \<le> unat MAXVA" using less.prems(2) by (simp add: user_range_def)
    have k: "0 < k" "k \<le> ?n" using n by (simp_all add: k_def Suc_le_eq)
    have pt: "ptree 2 (mem s) pt" using less.prems(1) by (simp add: uspace_def)
    note wa = walkaddr_ok [OF pt ok]
    have "\<not> MAXVA \<le> PGROUNDDOWN a" using ok by (simp add: not_le round_below user_ok_def)
    then have step: "copyout pt a src s = copyout pt (PGROUNDDOWN a + PGSIZE) (drop k src) (s\<lparr>mem := m1\<rparr>)"
      using n ok w wa by (subst copyout.simps) (simp add: Let_def rest_of_page [unfolded offset] offset user_ok_def m1_def k_def)
    have "unat a mod 4096 + length (take k src) \<le> 4096" "unat a + length (take k src) \<le> unat MAXVA" using top by (auto simp: k_def)
    note st = uspace_store [OF less.prems(1) ok this m1_def]
    show ?thesis
    proof (cases "k = ?n")
      case True
      then have t: "take k src = src" and d: "drop k src = []" by simp_all
      have "copyout pt a src s = Some (0, s\<lparr>mem := m1\<rparr>)" unfolding step d by (simp add: copyout.simps)
      then show ?thesis using st unfolding t by blast
    next
      case no: False
      let ?b = "a + of_nat k"
      have b: "PGROUNDDOWN a + PGSIZE = ?b" unfolding next_page using no by (simp add: k_def min_def split: if_splits)
      have ub: "unat ?b = unat a + k" using top k by (intro unat_plus) (simp add: unat_MAXVA)
      let ?s = "s\<lparr>mem := m1\<rparr>"
      have "user_ok m1 pt = user_ok (mem s) pt" using st(1) by (simp add: fun_eq_iff user_ok_def frame_of_def)
      then have "user_range (mem ?s) pt ?b (length (drop k src))"
        using user_range_drop [OF less.prems(2) k(2)] by (simp add: user_range_def)
      moreover have "writable (mem ?s) pt ?b (length (drop k src))"
        unfolding writable_def
      proof (intro allI impI)
        fix i assume "i < length (drop k src)"
        then have "leaf 2 (mem s) pt (a + of_nat (k + i)) AND PTE_W \<noteq> 0"
          using less.prems(3) unfolding writable_def by (intro less.prems(3) [unfolded writable_def, rule_format]) simp
        then show "leaf 2 (mem ?s) pt (?b + of_nat i) AND PTE_W \<noteq> 0" using st(1) by (simp add: add.assoc)
      qed
      moreover have "length (drop k src) < length src" using k by simp
      moreover have "uspace (mem ?s) pt" using st(2) by simp
      ultimately obtain m where m: "copyout pt ?b (drop k src) ?s = Some (0, ?s\<lparr>mem := m\<rparr>)" "uspace m pt"
        "\<forall>w. leaf 2 m pt w = leaf 2 (mem ?s) pt w"
        "\<forall>w. uview m pt w = (if unat ?b \<le> unat w \<and> unat w < unat ?b + length (drop k src)
          then Some (drop k src ! (unat w - unat ?b)) else uview (mem ?s) pt w)"
        using less.hyps [of "drop k src" ?s ?b] by blast
      have "uview m pt w = (if unat a \<le> unat w \<and> unat w < unat a + ?n then Some (src ! (unat w - unat a)) else uview (mem s) pt w)" for w
        using m(4) st(3) [of w] k(2) ub by (auto simp: nth_drop)
      then show ?thesis using m st(1) unfolding step b by (intro exI [of _ m]) simp
    qed
  qed
qed

lemma copyin_ubytes:
  assumes "uspace (mem s) pt" and "user_range (mem s) pt a n"
  shows "copyin pt a n s = Some (0, ubytes (mem s) pt a n, s)"
  using assms copyin_loop_reads [of s pt a n "[]"] by (simp add: copyin_def uspace_def)

lemma ubytes_view:
  assumes "user_range m pt a n" and "\<forall>i<n. uview m pt (a + of_nat i) = Some (bs ! i)" and "length bs = n"
  shows "ubytes m pt a n = bs"
proof (rule nth_equalityI)
  fix i assume i: "i < length (ubytes m pt a n)"
  then have n: "i < n" by (simp add: ubytes_def)
  then have "user_ok m pt (a + of_nat i)" "uview m pt (a + of_nat i) = Some (bs ! i)"
    using assms unfolding user_range_def by blast+
  then show "ubytes m pt a n ! i = bs ! i" using n by (simp add: ubytes_def uview_def)
qed (simp add: ubytes_def assms)

section \<open>A small machine\<close>

definition boot_table :: "'a \<Rightarrow> 'a ptable_scheme" where
  "boot_table m = \<lparr>hart = 0, cpus = (\<lambda>_. \<lparr>cproc = Some 0, noff = 0, intena = False, sie = True\<rparr>),
     locks = (\<lambda>_. \<lparr>locked = False, lname = [], lcpu = None\<rparr>), mem = (\<lambda>_. 0), kend = PHYSTOP - 65536, freelist = 0,
     etext = KERNBASE + 32768, trampoline = KERNBASE + 28672, uservec = KERNBASE + 28672,
     userret = KERNBASE + 28828, forkret_addr = KERNBASE + 8192, usertrap_addr = KERNBASE + 12288,
     kernelvec = KERNBASE + 16384, kernel_pagetable = 0, satp = (\<lambda>_. 0),
     procs = (\<lambda>_. no_proc)(0 := no_proc\<lparr>pstate := RUNNING, pid := 1\<rparr>), nextpid = 2, initproc = Some 0, ticks = 0,
     starvation_counter = 0, \<dots> = m\<rparr>"

definition ram_page :: "nat \<Rightarrow> u64" where
  "ram_page i = PHYSTOP - 65536 + of_nat i * PGSIZE"

text \<open>Ten free pages.\<close>

definition boot_ram :: "'a \<Rightarrow> 'a ptable_scheme" where
  "boot_ram m = foldr (\<lambda>i. after_kfree (ram_page i)) [0..<10] (boot_table m)"

lemma unat_ram_page: "i < 16 \<Longrightarrow> unat (ram_page i) = 2281635840 + i * 4096"
  by (simp add: ram_page_def page_defs unat_word_ariths unat_of_nat take_bit_nat_eq_self)

lemma ram_page_valid: "i < 16 \<Longrightarrow> valid_page (boot_table m) (ram_page i)"
  using unat_ram_page [of i] unfolding valid_page_def page_mod
  by (simp add: boot_table_def word_le_nat_alt word_less_nat_alt page_defs)

lemma ram_page_inj: "i < 16 \<Longrightarrow> j < 16 \<Longrightarrow> ram_page i = ram_page j \<longleftrightarrow> i = j"
proof
  assume a: "i < 16" "j < 16" "ram_page i = ram_page j"
  have "2281635840 + i * 4096 = 2281635840 + j * 4096"
    unfolding unat_ram_page [OF a(1), symmetric] unat_ram_page [OF a(2), symmetric] a(3) ..
  then show "i = j" by simp
qed simp

lemma calm_after_kfree: "calm me A (after_kfree p s) = calm me A s"
  by (simp add: after_kfree_def calm_def)

lemma free_pages:
  assumes "\<forall>i\<in>set is. i < 16" and "distinct is"
  shows "kmem_inv (foldr (\<lambda>i. after_kfree (ram_page i)) is (boot_table m)) (map ram_page is) \<and>
    calm 0 {} (foldr (\<lambda>i. after_kfree (ram_page i)) is (boot_table m)) \<and>
    valid_page (foldr (\<lambda>i. after_kfree (ram_page i)) is (boot_table m)) = valid_page (boot_table m)"
  using assms
proof (induction "is")
  case Nil
  show ?case by (simp add: kmem_inv_def boot_table_def free_lock_def page_defs cpu_ok_def calm_def)
next
  case (Cons i "is")
  let ?s = "foldr (\<lambda>i. after_kfree (ram_page i)) is (boot_table m)"
  have IH: "kmem_inv ?s (map ram_page is)" "calm 0 {} ?s" "valid_page ?s = valid_page (boot_table m)" using Cons by simp_all
  have "valid_page ?s (ram_page i)" "ram_page i \<notin> set (map ram_page is)"
    using Cons.prems IH(3) ram_page_valid ram_page_inj by (auto simp: image_iff)
  from kmem_inv_kfree(2) [OF IH(1) this] show ?case
    using IH(2,3) by (simp add: calm_after_kfree)
qed

lemma boot_ram_ok: "kmem_inv (boot_ram m) (ram_page 0 # map ram_page [1..<10])" "calm 0 {} (boot_ram m)"
  using free_pages [of "[0..<10]" m] by (simp_all add: boot_ram_def upt_rec [of 0])

text \<open>One user page, mapped at address 0 of a new table.\<close>

definition user_perm :: u64 where
  "user_perm = PTE_R OR PTE_W OR PTE_U"

definition one_page :: "'a \<Rightarrow> 'a ptable_scheme \<Rightarrow> u64 \<Rightarrow> bool" where
  "one_page m s pt \<longleftrightarrow> (\<exists>u. uvmcreate (boot_ram m) = Some (pt, u) \<and> mappages pt 0 PGSIZE KERNBASE user_perm u = Some (0, s))"

lemma user_perm_bits: "user_perm < 1024" "(x OR user_perm OR PTE_V) AND PTE_V \<noteq> 0" "(x OR user_perm OR PTE_V) AND PTE_U \<noteq> 0"
  "(x OR user_perm OR PTE_V) AND PTE_W \<noteq> 0"
proof -
  show "user_perm < 1024" by (simp add: user_perm_def pte_defs)
  have "(x OR user_perm OR PTE_V) AND c \<noteq> 0" if "bit c n" "bit (user_perm OR PTE_V) n" for c n
  proof -
    have "bit ((x OR user_perm OR PTE_V) AND c) n" using that by (auto simp: bit_and_iff bit_or_iff)
    then show ?thesis by (metis bit_0_eq bot_apply bot_bool_def)
  qed
  from this [of PTE_V 0] this [of PTE_U 4] this [of PTE_W 2]
  show "(x OR user_perm OR PTE_V) AND PTE_V \<noteq> 0" "(x OR user_perm OR PTE_V) AND PTE_U \<noteq> 0" "(x OR user_perm OR PTE_V) AND PTE_W \<noteq> 0"
    by (simp_all add: user_perm_def pte_defs bit_simps)
qed

lemma kernbase_page: "aligned KERNBASE" "KERNBASE \<noteq> 0" "i < 16 \<Longrightarrow> KERNBASE \<noteq> ram_page i"
proof -
  show "aligned KERNBASE" "KERNBASE \<noteq> 0" by (simp_all add: aligned_def page_defs)
  show "KERNBASE \<noteq> ram_page i" if "i < 16"
    using unat_ram_page [OF that] by (intro notI) (simp add: page_defs)
qed

lemma one_page_ok:
  "\<exists>s pt. one_page m s pt \<and> uspace (mem s) pt \<and> user_range (mem s) pt 0 4096 \<and> writable (mem s) pt 0 4096 \<and>
     calm 0 {} s \<and> s = (boot_ram m)\<lparr>cpus := cpus s, freelist := freelist s, mem := mem s\<rparr>"
proof -
  let ?pt = "ram_page 0" and ?ps = "map ram_page [1..<10]" and ?e = "PA2PTE KERNBASE OR user_perm OR PTE_V"
  from uvmcreate_tree [OF boot_ram_ok(1) [of m]] obtain u where u: "uvmcreate (boot_ram m) = Some (?pt, u)" "tree 2 u ?pt ?ps"
    "nodes 2 (mem u) ?pt = [?pt]" "\<forall>va. leaf 2 (mem u) ?pt va = 0"
    "u = (boot_ram m)\<lparr>cpus := cpus u, freelist := freelist u, mem := mem u\<rparr>" "calm 0 {} u"
    using boot_ram_ok(2) [of m] by blast
  have sz: "aligned PGSIZE" "PGSIZE \<noteq> 0" "unat PGSIZE div 4096 = 1" "unat (0 :: u64) + unat PGSIZE \<le> unat MAXVA" "aligned 0"
    by (simp_all add: aligned_def PGSIZE_def unat_MAXVA)
  from mappages_runs [OF u(2) sz(5,1,2,4), of KERNBASE user_perm] u(4) obtain r s ps' k where
    s: "mappages ?pt 0 PGSIZE KERNBASE user_perm u = Some (r, s)" "extends 2 ?pt u ?ps s ps'"
      "\<forall>w<MAXVA. leaf 2 (mem s) ?pt w = mapped 0 k KERNBASE user_perm (leaf 2 (mem u) ?pt) w"
      "r = 0 \<and> k = 1 \<or> r = -1 \<and> k < 1 \<and> ps' = []" "length ?ps \<le> length ps' + 2 * 1"
    unfolding sz(3) by auto
  from s(4,5) have r: "r = 0" and k: "k = 1" by auto
  have leaf: "leaf 2 (mem s) ?pt w = (if vpn w = 0 then ?e else 0)" if "w < MAXVA" for w
    using s(3) that u(4) k by (auto simp: mapped_def vpn_def)
  have "ptree 2 (mem s) ?pt" using s(2) by (simp add: extends_def tree_def)
  moreover have "set (nodes 2 (mem s) ?pt) \<subseteq> ram_page ` {..<16}"
  proof -
    have "set (nodes 2 (mem s) ?pt) \<subseteq> set (nodes 2 (mem u) ?pt) \<union> set ?ps" using extends_nodes [OF s(2)] by blast
    also have "\<dots> \<subseteq> ram_page ` {..<16}" unfolding u(3) by (auto intro!: imageI)
    finally show ?thesis .
  qed
  then have "KERNBASE \<notin> set (nodes 2 (mem s) ?pt)" using kernbase_page(3) by auto
  moreover have fr: "frame_of (mem s) ?pt w = KERNBASE" if "w < MAXVA" "vpn w = 0" for w
    using leaf [OF that(1)] that(2) PTE2PA_make [OF kernbase_page(1) user_perm_bits(1)] by (simp add: frame_of_def)
  moreover have z: "vpn w = 0" if "user_ok (mem s) ?pt w" for w
    using that leaf [of w] by (auto simp: user_ok_def split: if_splits)
  ultimately have us: "uspace (mem s) ?pt" unfolding uspace_def by (metis user_ok_def)
  have low: "of_nat i < MAXVA \<and> vpn (of_nat i) = 0" if "i < 4096" for i
    using that by (simp add: vpn_def word_less_nat_alt unat_MAXVA unat_of_nat take_bit_nat_eq_self)
  have "user_range (mem s) ?pt 0 4096"
    unfolding user_range_def user_ok_def
    using low leaf fr user_perm_bits kernbase_page(2) by (simp add: unat_MAXVA)
  moreover have "writable (mem s) ?pt 0 4096" unfolding writable_def using low leaf user_perm_bits by simp
  moreover have "calm 0 {} s" using s(2) u(6) by (simp add: extends_def)
  moreover have "s = (boot_ram m)\<lparr>cpus := cpus s, freelist := freelist s, mem := mem s\<rparr>"
  proof -
    have "s = u\<lparr>cpus := cpus s, freelist := freelist s, mem := mem s\<rparr>" using s(2) unfolding extends_def by blast
    then show ?thesis by (subst (asm) u(5)) simp
  qed
  moreover have "one_page m s ?pt" using u(1) s(1) r unfolding one_page_def by blast
  ultimately show ?thesis using us by blast
qed

section \<open>Properties\<close>

text \<open>The entry that \<open>walk\<close> finds for an address, 0 when there is none.\<close>

definition pte_of :: "u64 \<Rightarrow> u64 \<Rightarrow> 'a kmem_scheme \<Rightarrow> u64" where
  "pte_of pt va s = (case walk pt va False s of Some (a, _) \<Rightarrow> if a = 0 then 0 else load64 (mem s) a | None \<Rightarrow> 0)"

lemma pte_of_leaf: "ptree 2 (mem s) pt \<Longrightarrow> va < MAXVA \<Longrightarrow> pte_of pt va s = leaf 2 (mem s) pt va"
  using leaf_none [of 2 "mem s" pt va] leaf_load [of 2 "mem s" pt va] by (simp add: pte_of_def walk_ro)

text \<open>C12. Mapping. \<open>mappages\<close> on an unmapped, page-aligned range of a well-formed table returns. When it returns 0
  the entries that \<open>walk\<close> finds are those of the range, pointing at consecutive frames with the given
  permissions, and the old ones everywhere else; it fails only with -1, when the free list has run
  empty, which cannot happen while more than two free pages per mapped page are left.\<close>

theorem mappages_inserts:
  assumes "tree 2 s pt ps" and "aligned va" and "aligned sz" and "sz \<noteq> 0" and "unat va + unat sz \<le> unat MAXVA"
    and "\<forall>w<MAXVA. vpn va \<le> vpn w \<and> vpn w < vpn va + unat sz div 4096 \<longrightarrow> pte_of pt w s AND PTE_V = 0"
  shows "\<exists>r t. mappages pt va sz pa perm s = Some (r, t) \<and>
    (r = 0 \<longrightarrow> (\<forall>w<MAXVA. pte_of pt w t =
       (if vpn va \<le> vpn w \<and> vpn w < vpn va + unat sz div 4096
        then PA2PTE (pa + of_nat (vpn w - vpn va) * PGSIZE) OR perm OR PTE_V else pte_of pt w s))) \<and>
    (r \<noteq> 0 \<longrightarrow> r = -1 \<and> freelist t = 0 \<and> length ps \<le> 2 * (unat sz div 4096))"
proof -
  have p: "ptree 2 (mem s) pt" using assms(1) by (simp add: tree_def)
  have "\<forall>w<MAXVA. vpn va \<le> vpn w \<and> vpn w < vpn va + unat sz div 4096 \<longrightarrow> leaf 2 (mem s) pt w AND PTE_V = 0"
    using assms(6) pte_of_leaf [OF p] by simp
  from mappages_runs [OF assms(1-5) this, of pa perm] obtain r t ps' k where t: "mappages pt va sz pa perm s = Some (r, t)"
    "extends 2 pt s ps t ps'" "\<forall>w<MAXVA. leaf 2 (mem t) pt w = mapped va k pa perm (leaf 2 (mem s) pt) w"
    "r = 0 \<and> k = unat sz div 4096 \<or> r = -1 \<and> k < unat sz div 4096 \<and> ps' = []" "length ps \<le> length ps' + 2 * (unat sz div 4096)"
    by blast
  have q: "ptree 2 (mem t) pt" "kmem_inv t ps'" using t(2) by (simp_all add: extends_def tree_def)
  have "freelist t = 0" if "ps' = []" using q(2) that by (simp add: kmem_inv_def)
  moreover have "pte_of pt w t = mapped va k pa perm (\<lambda>w. pte_of pt w s) w" if "w < MAXVA" for w
    using t(3) that pte_of_leaf [OF p that] pte_of_leaf [OF q(1) that] by (simp only: mapped_def)
  ultimately show ?thesis using t(1,4,5) by (intro exI [of _ r] exI [of _ t]) (auto simp: mapped_def [abs_def])
qed

text \<open>C13. Copying to a process and back. On writable user pages \<open>copyout\<close> returns 0 and changes exactly the
  bytes of the destination range in the process's view of its memory, no matter how many pages the range
  crosses; a \<open>copyin\<close> of the range then returns the bytes that were copied out.\<close>

theorem copyout_copyin:
  assumes "uspace (mem s) pt" and "user_range (mem s) pt a (length src)" and "writable (mem s) pt a (length src)"
  shows "\<exists>t. copyout pt a src s = Some (0, t) \<and> copyin pt a (length src) t = Some (0, src, t) \<and>
    (\<forall>w. uview (mem t) pt w =
      (if unat a \<le> unat w \<and> unat w < unat a + length src then Some (src ! (unat w - unat a)) else uview (mem s) pt w))"
proof -
  obtain m where m: "copyout pt a src s = Some (0, s\<lparr>mem := m\<rparr>)" "uspace m pt" "\<forall>w. leaf 2 m pt w = leaf 2 (mem s) pt w"
    "\<forall>w. uview m pt w = (if unat a \<le> unat w \<and> unat w < unat a + length src then Some (src ! (unat w - unat a)) else uview (mem s) pt w)"
    using copyout_writes [OF assms] by blast
  have r: "user_range m pt a (length src)" using assms(2) m(3) by (simp add: user_range_def user_ok_def frame_of_def)
  have "uview m pt (a + of_nat i) = Some (src ! i)" if "i < length src" for i
    using m(4) that unat_plus [of a i] assms(2) by (simp add: user_range_def unat_MAXVA)
  then have "ubytes m pt a (length src) = src" using r by (intro ubytes_view) simp_all
  then have "copyin pt a (length src) (s\<lparr>mem := m\<rparr>) = Some (0, src, s\<lparr>mem := m\<rparr>)"
    using copyin_ubytes [of "s\<lparr>mem := m\<rparr>" pt a "length src"] m(2) r by simp
  with m(1,4) show ?thesis by (intro exI [of _ "s\<lparr>mem := m\<rparr>"]) simp
qed

theorem mappages_inserts_witness:
  "\<exists>pt u t. uvmcreate (boot_ram ()) = Some (pt, u) \<and> mappages pt 0 PGSIZE KERNBASE user_perm u = Some (0, t) \<and>
     pte_of pt 5 t = PA2PTE KERNBASE OR user_perm OR PTE_V \<and> pte_of pt 4096 t = 0"
proof -
  let ?pt = "ram_page 0" and ?ps = "map ram_page [1..<10]"
  from uvmcreate_tree [OF boot_ram_ok(1) [of "()"]] obtain u where u: "uvmcreate (boot_ram ()) = Some (?pt, u)" "tree 2 u ?pt ?ps"
    "\<forall>va. leaf 2 (mem u) ?pt va = 0" by blast
  have z: "pte_of ?pt w u = 0" if "w < MAXVA" for w using pte_of_leaf [OF _ that, of u ?pt] u(2,3) by (simp add: tree_def)
  have sz: "aligned PGSIZE" "PGSIZE \<noteq> 0" "unat PGSIZE div 4096 = 1" "unat (0 :: u64) + unat PGSIZE \<le> unat MAXVA" "aligned 0"
    by (simp_all add: aligned_def PGSIZE_def unat_MAXVA)
  have "\<forall>w<MAXVA. vpn 0 \<le> vpn w \<and> vpn w < vpn 0 + unat PGSIZE div 4096 \<longrightarrow> pte_of ?pt w u AND PTE_V = 0" using z by simp
  from mappages_inserts [OF u(2) sz(5,1,2,4) this, of KERNBASE user_perm, unfolded sz(3)] obtain r t where
    t: "mappages ?pt 0 PGSIZE KERNBASE user_perm u = Some (r, t)" "r = 0"
      "\<forall>w<MAXVA. pte_of ?pt w t = (if vpn 0 \<le> vpn w \<and> vpn w < vpn 0 + 1
        then PA2PTE (KERNBASE + of_nat (vpn w - vpn 0) * PGSIZE) OR user_perm OR PTE_V else pte_of ?pt w u)"
    by auto
  have "(5 :: u64) < MAXVA" "(4096 :: u64) < MAXVA" "vpn 0 = 0" "vpn 5 = 0" "vpn 4096 = 1" by (simp_all add: MAXVA_def vpn_def)
  with t(3) z have "pte_of ?pt 5 t = PA2PTE KERNBASE OR user_perm OR PTE_V" "pte_of ?pt 4096 t = 0" by simp_all
  with u(1) t(1,2) show ?thesis by blast
qed

theorem copyout_copyin_witness:
  "\<exists>pt s t. one_page () s pt \<and> copyout pt 4090 [1, 2, 3] s = Some (0, t) \<and> copyin pt 4090 3 t = Some (0, [1, 2, 3], t)"
proof -
  obtain s :: ptable and pt where s: "one_page () s pt" "uspace (mem s) pt" "user_range (mem s) pt 0 4096" "writable (mem s) pt 0 4096"
    using one_page_ok [of "()"] by (elim exE conjE) (rule that)
  have "user_range (mem s) pt 4090 3" using user_range_mono [OF user_range_drop [OF s(3), of 4090], of 3] by simp
  moreover have "writable (mem s) pt 4090 3"
    unfolding writable_def
  proof (intro allI impI)
    fix i :: nat assume "i < 3"
    then have "leaf 2 (mem s) pt (0 + of_nat (4090 + i)) AND PTE_W \<noteq> 0" using s(4) unfolding writable_def by (intro s(4) [unfolded writable_def, rule_format]) simp
    then show "leaf 2 (mem s) pt (4090 + of_nat i) AND PTE_W \<noteq> 0" by simp
  qed
  ultimately obtain t where "copyout pt 4090 [1, 2, 3] s = Some (0, t)" "copyin pt 4090 (length [1, 2, 3 :: u8]) t = Some (0, [1, 2, 3], t)"
    using copyout_copyin [OF s(2), of 4090 "[1, 2, 3]"] by (simp only: list.size One_nat_def add_Suc_right add_0_right numeral_3_eq_3) blast
  with s(1) show ?thesis by (intro exI [of _ pt] exI [of _ s] exI [of _ t]) (simp only: list.size One_nat_def add_Suc_right add_0_right numeral_3_eq_3 simp_thms)
qed

end
