(* ===== verification/Fairness.thy ===== *)
theory Fairness
  imports Mlfq
begin

text \<open>
  What the MLFQ policy of \<^verbatim>\<open>kernel/proc.c\<close> promises over time: a process that keeps the CPU goes down
  a level after each slice, and the boost brings every process that can run back to the top level
  within \<open>STARVATION_THRESHOLD\<close> timer ticks, whatever harts they arrive on.
\<close>

section \<open>A sequence of ticks\<close>

lemma mlfq_tick_eq:
  assumes "intr_ok s"
  shows "mlfq_tick s = Some (let u = count_tick (s\<lparr>cpus := settled s\<rparr>) in
    case cproc (cpus s (hart s)) of None \<Rightarrow> u
    | Some p \<Rightarrow> if pstate (procs u p) = RUNNING then upd_proc p tick_proc u else u)"
  by (simp add: mlfq_tick_alt myproc_eq [OF assms] Let_def split: option.splits)

text \<open>Timer ticks on the harts \<open>hs\<close>, one after the other.\<close>

primrec tick_harts :: "nat list \<Rightarrow> 'a ptable_scheme \<Rightarrow> 'a ptable_scheme option" where
  "tick_harts [] s = Some s"
| "tick_harts (h # hs) s = do { s \<leftarrow> mlfq_tick (s\<lparr>hart := h\<rparr>); tick_harts hs s }"

definition ticking :: "'a ptable_scheme \<Rightarrow> bool" where
  "ticking s \<longleftrightarrow> (\<forall>h. cpu_ok (cpus s h)) \<and> 0 \<le> starvation_counter s \<and> starvation_counter s < STARVATION_THRESHOLD"

definition all_high :: "'a ptable_scheme \<Rightarrow> bool" where
  "all_high s \<longleftrightarrow> (\<forall>p<NPROC. pstate (procs s p) \<in> {RUNNABLE, RUNNING} \<longrightarrow> priority (procs s p) = MLFQ_HIGH)"

lemma tick_proc_boosted:
  "pstate q = RUNNING \<Longrightarrow> priority (tick_proc (boost_proc q)) = MLFQ_HIGH"
  by (simp add: tick_proc_def boost_proc_def Let_def get_timeslice_def mlfq_defs)

lemma one_tick:
  assumes "ticking s"
  shows "\<exists>t. mlfq_tick (s\<lparr>hart := h\<rparr>) = Some t \<and> ticking t \<and>
    (if starvation_counter s + 1 = STARVATION_THRESHOLD then all_high t else starvation_counter t = starvation_counter s + 1)"
proof -
  let ?s = "s\<lparr>hart := h, cpus := settle h (cpus s)\<rparr>"
  let ?u = "count_tick ?s"
  let ?t = "case cproc (cpus s h) of None \<Rightarrow> ?u | Some p \<Rightarrow> if pstate (procs ?u p) = RUNNING then upd_proc p tick_proc ?u else ?u"
  have "intr_ok (s\<lparr>hart := h\<rparr>)" using assms by (simp add: ticking_def)
  from mlfq_tick_eq [OF this] have e: "mlfq_tick (s\<lparr>hart := h\<rparr>) = Some ?t" by (simp add: Let_def)
  have c: "cpus ?t = settle h (cpus s)" by (simp add: count_tick_def upd_proc_def split: option.splits)
  have k: "starvation_counter ?t = starvation_counter ?u" by (simp add: upd_proc_def split: option.splits)
  have t: "ticking ?t" using assms unfolding ticking_def c k by (simp add: count_tick_def STARVATION_THRESHOLD_def)
  have "all_high ?t" if "starvation_counter s + 1 = STARVATION_THRESHOLD"
    using that unfolding all_high_def
    by (auto simp: count_tick_def upd_proc_def tick_proc_boosted split: option.splits) (simp_all add: boost_proc_def split: if_splits)
  moreover have "starvation_counter ?t = starvation_counter s + 1" if "starvation_counter s + 1 \<noteq> STARVATION_THRESHOLD"
    using that assms unfolding k by (simp add: count_tick_def ticking_def)
  ultimately show ?thesis using e t by auto
qed

lemma ticks_boost:
  assumes "ticking s" and "nat (STARVATION_THRESHOLD - starvation_counter s) \<le> length hs"
  shows "\<exists>t. tick_harts (take (nat (STARVATION_THRESHOLD - starvation_counter s)) hs) s = Some t \<and> all_high t"
  using assms
proof (induction "nat (STARVATION_THRESHOLD - starvation_counter s)" arbitrary: s hs)
  case 0
  then show ?case by (simp add: ticking_def)
next
  case (Suc n)
  then obtain h hs' where hs: "hs = h # hs'" by (cases hs) auto
  from one_tick [OF Suc.prems(1), of h] obtain t where t: "mlfq_tick (s\<lparr>hart := h\<rparr>) = Some t" "ticking t"
    "if starvation_counter s + 1 = STARVATION_THRESHOLD then all_high t else starvation_counter t = starvation_counter s + 1" by blast
  show ?case
  proof (cases "starvation_counter s + 1 = STARVATION_THRESHOLD")
    case True
    then have "nat (STARVATION_THRESHOLD - starvation_counter s) = 1" by simp
    then show ?thesis using t True hs by simp
  next
    case False
    then have n: "n = nat (STARVATION_THRESHOLD - starvation_counter t)" using t(3) Suc.hyps(2) by simp
    from Suc.hyps(1) [OF n t(2), of hs'] Suc.prems(2) Suc.hyps(2) hs n
    show ?thesis unfolding Suc.hyps(2) [symmetric] n using t(1) by simp
  qed
qed

section \<open>A process that keeps the CPU\<close>

text \<open>A tick, and the dispatch that follows when it ended the slice.\<close>

definition burn :: "proc \<Rightarrow> proc" where
  "burn q = (tick_proc q)\<lparr>pstate := RUNNING\<rparr>"

lemma burn_fields:
  "priority (burn q) = (if timeslice_used q + 1 < timeslice q \<or> MLFQ_LOW \<le> priority q then priority q else priority q + 1)"
  "timeslice (burn q) = (if timeslice_used q + 1 < timeslice q \<or> MLFQ_LOW \<le> priority q then timeslice q else get_timeslice (priority q + 1))"
  "timeslice_used (burn q) = (if timeslice_used q + 1 < timeslice q then timeslice_used q + 1 else 0)"
  "cpu_ticks (burn q) = cpu_ticks q + 1"
  by (simp_all add: burn_def tick_proc_def Let_def)

definition fresh_slice :: "proc \<Rightarrow> bool" where
  "fresh_slice q \<longleftrightarrow> priority q = MLFQ_HIGH \<and> timeslice q = get_timeslice MLFQ_HIGH \<and> timeslice_used q = 0"

text \<open>Level and use of the slice after \<open>n\<close> ticks.\<close>

definition level_after :: "nat \<Rightarrow> int" where
  "level_after n = (if n < 4 then MLFQ_HIGH else if n < 12 then MLFQ_MEDIUM else MLFQ_LOW)"

definition used_after :: "nat \<Rightarrow> nat" where
  "used_after n = (if n < 4 then n else if n < 12 then n - 4 else (n - 12) mod 16)"

lemma burn_steps:
  assumes "fresh_slice q"
  shows "priority ((burn ^^ n) q) = level_after n \<and> timeslice ((burn ^^ n) q) = get_timeslice (level_after n) \<and>
    timeslice_used ((burn ^^ n) q) = int (used_after n)"
proof (induction n)
  case 0
  then show ?case using assms by (simp add: fresh_slice_def level_after_def used_after_def)
next
  case (Suc n)
  have low: "used_after (Suc n) = (if used_after n + 1 < 16 then used_after n + 1 else 0)" if "12 \<le> n"
  proof -
    have "Suc n - 12 = Suc (n - 12)" using that by (rule Suc_diff_le)
    then show ?thesis using that mod_less_divisor [of 16 "n - 12"] by (auto simp: used_after_def mod_Suc)
  qed
  define r where "r = (burn ^^ n) q"
  have s: "(burn ^^ Suc n) q = burn r" by (simp add: r_def)
  note IH = Suc.IH [folded r_def]
  consider "n < 3" | "n = 3" | "4 \<le> n" "n < 11" | "n = 11" | "12 \<le> n" by linarith
  then have "priority (burn r) = level_after (Suc n) \<and> timeslice (burn r) = get_timeslice (level_after (Suc n)) \<and>
      timeslice_used (burn r) = int (used_after (Suc n))"
  proof cases
    case 5
    then show ?thesis using IH low by (auto simp: burn_fields level_after_def get_timeslice_def mlfq_defs)
  qed (use IH in \<open>simp_all add: burn_fields level_after_def used_after_def get_timeslice_def mlfq_defs\<close>)
  then show ?case unfolding s .
qed

lemma burn_cpu: "cpu_ticks ((burn ^^ n) q) = cpu_ticks q + of_nat n"
  by (induction n) (simp_all add: burn_fields)

section \<open>Properties\<close>





end
