(* ===== verification/Newproc.thy ===== *)
theory Newproc
  imports Usermem Fairness
begin

text \<open>
  Making a process: \<open>allocproc\<close> of \<^verbatim>\<open>kernel/proc.c\<close> with its page table, from the slot it takes to the
  state it hands to \<open>kfork\<close> and \<open>userinit\<close>, and what \<open>kkill\<close> can do to a slot that is not in use.
\<close>

section \<open>The allocator\<close>

text \<open>The allocator does not mind locks other than its own.\<close>

lemma kmem_inv_calm:
  assumes "kmem_inv s ps" and "calm me A t" and "KmemLock \<notin> A"
    and "mem t = mem s" and "freelist t = freelist s" and "kend t = kend s"
  shows "kmem_inv t ps"
  using assms calm_free [OF assms(2,3)] calm_intr_ok [OF assms(2)] by (simp add: kmem_inv_def valid_page_def)

section \<open>Slots\<close>

lemma allocproc_scan_runs:
  assumes "calm me {} s" and "List.find (\<lambda>p. pstate (procs s p) = UNUSED) ps = Some p"
  shows "\<exists>t. allocproc_scan ps s = Some (Some p, t) \<and> calm me {ProcLock p} t \<and> t = s\<lparr>cpus := cpus t, locks := locks t\<rparr>"
  using assms
proof (induction ps arbitrary: s)
  case (Cons q ps)
  obtain t where t: "acquire (ProcLock q) s = Some t" "calm me {ProcLock q} t" "t = s\<lparr>cpus := cpus t, locks := locks t\<rparr>"
    using acquire_only [OF Cons.prems(1), of "ProcLock q"] by auto
  have e: "procs t = procs s" by (subst t(3)) simp
  show ?case
  proof (cases "pstate (procs s q) = UNUSED")
    case True
    then show ?thesis using t e Cons.prems(2) by auto
  next
    case False
    obtain u where u: "release (ProcLock q) t = Some u" "calm me {} u" "u = t\<lparr>cpus := cpus u, locks := locks u\<rparr>"
      using release_only [OF t(2), of "ProcLock q"] by auto
    have e': "procs u = procs s" by (subst u(3)) (simp add: e)
    from Cons.IH [OF u(2)] Cons.prems(2) False e' obtain v where v: "allocproc_scan ps u = Some (Some p, v)"
      "calm me {ProcLock p} v" "v = u\<lparr>cpus := cpus v, locks := locks v\<rparr>" by auto
    have "v = s\<lparr>cpus := cpus v, locks := locks v\<rparr>" by (subst v(3), subst u(3), subst t(3)) simp
    then show ?thesis using t u v False e by auto
  qed
qed simp

lemma allocpid_runs:
  assumes "calm me A s" and "PidLock \<notin> A"
  shows "\<exists>t. allocpid s = Some (nextpid s, t) \<and> calm me A t \<and>
    t = s\<lparr>cpus := cpus t, locks := locks t, nextpid := nextpid s + 1\<rparr>"
proof -
  obtain t where t: "acquire PidLock s = Some t" "calm me (insert PidLock A) t" "t = s\<lparr>cpus := cpus t, locks := locks t\<rparr>"
    using acquire_only [OF assms] by blast
  have n: "nextpid t = nextpid s" by (subst t(3)) simp
  let ?u = "t\<lparr>nextpid := nextpid t + 1\<rparr>"
  have "calm me (insert PidLock A) ?u" using t(2) by (simp add: calm_def)
  from release_only [OF this, of PidLock] obtain v where v: "release PidLock ?u = Some v" "calm me A v"
    "v = ?u\<lparr>cpus := cpus v, locks := locks v\<rparr>" using assms(2) by auto
  have "v = s\<lparr>cpus := cpus v, locks := locks v, nextpid := nextpid s + 1\<rparr>" by (subst v(3), subst n, subst t(3)) simp
  then show ?thesis using t(1) v(1,2) n by (auto simp: allocpid_def)
qed

section \<open>The page table of a new process\<close>

lemma high_pages:
  "aligned TRAMPOLINE" "aligned TRAPFRAME" "vpn TRAMPOLINE = 67108863" "vpn TRAPFRAME = 67108862"
  "unat TRAMPOLINE + unat PGSIZE \<le> unat MAXVA" "unat TRAPFRAME + unat PGSIZE \<le> unat MAXVA"
  "aligned PGSIZE" "PGSIZE \<noteq> 0" "unat PGSIZE div 4096 = 1"
  by (simp_all add: aligned_def vpn_def TRAMPOLINE_def TRAPFRAME_def MAXVA_def PGSIZE_def)

definition proc_ptes :: "u64 \<Rightarrow> u64 \<Rightarrow> u64 \<Rightarrow> u64" where
  "proc_ptes tr tf w = (if vpn w = vpn TRAMPOLINE then PA2PTE tr OR (PTE_R OR PTE_X) OR PTE_V
     else if vpn w = vpn TRAPFRAME then PA2PTE tf OR (PTE_R OR PTE_W) OR PTE_V else 0)"

lemma proc_pagetable_runs:
  assumes "kmem_inv s ps" and "5 < length ps"
  shows "\<exists>pt t. proc_pagetable p s = Some (pt, t) \<and> pt \<noteq> 0 \<and> ptree 2 (mem t) pt \<and>
    (\<forall>w<MAXVA. leaf 2 (mem t) pt w = proc_ptes (trampoline s) (trapframe (procs s p)) w) \<and>
    t = s\<lparr>cpus := cpus t, freelist := freelist t, mem := mem t\<rparr> \<and> (\<forall>me A. calm me A s \<longrightarrow> calm me A t)"
proof -
  obtain pt ps1 where ps: "ps = pt # ps1" using assms(2) by (cases ps) auto
  have pt: "pt \<noteq> 0" using kmem_inv_aligned [OF assms(1)] ps by simp
  obtain u where u: "uvmcreate s = Some (pt, u)" "tree 2 u pt ps1" "\<forall>va. leaf 2 (mem u) pt va = 0"
    "u = s\<lparr>cpus := cpus u, freelist := freelist u, mem := mem u\<rparr>" "\<forall>me A. calm me A s \<longrightarrow> calm me A u"
    using uvmcreate_tree [OF assms(1) [unfolded ps]] by blast
  have tu: "trampoline u = trampoline s" "procs u = procs s" by (subst u(4), simp)+
  note hp = high_pages
  obtain r v qs k where v: "mappages pt TRAMPOLINE PGSIZE (trampoline s) (PTE_R OR PTE_X) u = Some (r, v)" "extends 2 pt u ps1 v qs"
    "\<forall>w<MAXVA. leaf 2 (mem v) pt w = mapped TRAMPOLINE k (trampoline s) (PTE_R OR PTE_X) (leaf 2 (mem u) pt) w"
    "r = 0 \<and> k = 1 \<or> r = -1 \<and> k < 1 \<and> qs = []" "length ps1 \<le> length qs + 2 * 1"
    using mappages_runs [OF u(2) hp(1,7,8,5), of "trampoline s" "PTE_R OR PTE_X"] u(3) unfolding hp(9) by auto
  have q: "qs \<noteq> []" "3 < length qs + 1" using v(5) assms(2) ps by auto
  then have r: "r = 0" "k = 1" using v(4) by auto
  have tv: "tree 2 v pt qs" using v(2) by (simp add: extends_def)
  have lv: "leaf 2 (mem v) pt w = (if vpn w = vpn TRAMPOLINE then PA2PTE (trampoline s) OR (PTE_R OR PTE_X) OR PTE_V else 0)" if "w < MAXVA" for w
    using v(3) that u(3) r(2) by (auto simp: mapped_def)
  have vs: "v = s\<lparr>cpus := cpus v, freelist := freelist v, mem := mem v\<rparr>"
  proof -
    have "v = u\<lparr>cpus := cpus v, freelist := freelist v, mem := mem v\<rparr>" using v(2) unfolding extends_def by blast
    then show ?thesis by (subst (asm) u(4)) simp
  qed
  have pv: "procs v = procs s" by (subst vs) simp
  have "\<forall>w<MAXVA. vpn TRAPFRAME \<le> vpn w \<and> vpn w < vpn TRAPFRAME + 1 \<longrightarrow> leaf 2 (mem v) pt w AND PTE_V = 0"
    using lv hp(3,4) by auto
  then obtain r' x qs' k' where x: "mappages pt TRAPFRAME PGSIZE (trapframe (procs s p)) (PTE_R OR PTE_W) v = Some (r', x)" "extends 2 pt v qs x qs'"
    "\<forall>w<MAXVA. leaf 2 (mem x) pt w = mapped TRAPFRAME k' (trapframe (procs s p)) (PTE_R OR PTE_W) (leaf 2 (mem v) pt) w"
    "r' = 0 \<and> k' = 1 \<or> r' = -1 \<and> k' < 1 \<and> qs' = []" "length qs \<le> length qs' + 2 * 1"
    using mappages_runs [OF tv hp(2,7,8,6), of "trapframe (procs s p)" "PTE_R OR PTE_W"] unfolding hp(9) by auto
  have r': "r' = 0" "k' = 1" using x(4,5) v(5) assms(2) ps by auto
  have "leaf 2 (mem x) pt w = proc_ptes (trampoline s) (trapframe (procs s p)) w" if "w < MAXVA" for w
    using x(3) that lv [OF that] r'(2) hp(3,4) by (auto simp: mapped_def proc_ptes_def)
  moreover have "x = s\<lparr>cpus := cpus x, freelist := freelist x, mem := mem x\<rparr>"
  proof -
    have "x = v\<lparr>cpus := cpus x, freelist := freelist x, mem := mem x\<rparr>" using x(2) unfolding extends_def by blast
    then show ?thesis by (subst (asm) vs) simp
  qed
  moreover have "\<forall>me A. calm me A s \<longrightarrow> calm me A x" using u(5) v(2) x(2) unfolding extends_def by blast
  moreover have "ptree 2 (mem x) pt" using x(2) by (simp add: extends_def tree_def)
  moreover have "proc_pagetable p s = Some (pt, x)" using u(1) v(1) x(1) r r' pt tu pv by (simp add: proc_pagetable_def)
  ultimately show ?thesis using pt by blast
qed

section \<open>allocproc\<close>

text \<open>What a new process looks like, apart from the addresses of its pages.\<close>

definition newborn :: "u32 \<Rightarrow> int \<Rightarrow> u64 \<Rightarrow> proc \<Rightarrow> proc \<Rightarrow> bool" where
  "newborn now n ra old q \<longleftrightarrow> pstate q = USED \<and> pid q = n \<and> fresh_slice q \<and> cpu_ticks q = 0 \<and> sched_count q = 0 \<and>
     start_time q = ucast now \<and> end_time q = 0 \<and> total_wait q = 0 \<and>
     pkilled q = pkilled old \<and> kstack q = kstack old \<and> pagetable q \<noteq> 0 \<and> trapframe q \<noteq> 0 \<and>
     ctx_ra (pcontext q) = ra \<and> ctx_sp (pcontext q) = kstack old + PGSIZE"

lemma allocproc_found_runs:
  assumes c: "calm me {ProcLock p} s" and inv: "kmem_inv s ps" and len: "6 < length ps"
  shows "\<exists>t. allocproc_found p s = Some (Some p, t) \<and> calm me {ProcLock p} t \<and> nextpid t = nextpid s + 1 \<and>
    (\<forall>q. q \<noteq> p \<longrightarrow> procs t q = procs s q) \<and> newborn (ticks s) (nextpid s) (forkret_addr s) (procs s p) (procs t p) \<and>
    (\<forall>w<MAXVA. pte_of (pagetable (procs t p)) w t = proc_ptes (trampoline s) (trapframe (procs t p)) w)"
proof -
  obtain s1 where s1: "allocpid s = Some (nextpid s, s1)" "calm me {ProcLock p} s1"
    "s1 = s\<lparr>cpus := cpus s1, locks := locks s1, nextpid := nextpid s + 1\<rparr>"
    using allocpid_runs [OF c] by auto
  let ?s2 = "init_mlfq_proc p (upd_proc p (\<lambda>q. q\<lparr>pid := nextpid s, pstate := USED\<rparr>) s1)"
  have e1: "mem s1 = mem s" "freelist s1 = freelist s" "kend s1 = kend s" "procs s1 = procs s" "ticks s1 = ticks s"
    "trampoline s1 = trampoline s" "forkret_addr s1 = forkret_addr s" "nextpid s1 = nextpid s + 1" by (subst s1(3), simp)+
  have c2: "calm me {ProcLock p} ?s2" using s1(2) by (simp add: calm_def init_mlfq_proc_def upd_proc_def)
  have "kmem_inv ?s2 ps" by (rule kmem_inv_calm [OF inv c2]) (simp_all add: init_mlfq_proc_def upd_proc_def e1)
  moreover obtain tf qs where ps: "ps = tf # qs" using len by (cases ps) auto
  ultimately have i2: "kmem_inv ?s2 (tf # qs)" by simp
  let ?s3 = "after_kalloc tf ?s2"
  note k = kmem_inv_kalloc [OF i2]
  let ?s4 = "upd_proc p (\<lambda>q. q\<lparr>trapframe := tf\<rparr>) ?s3"
  have c4: "calm me {ProcLock p} ?s4" using c2 by (simp add: calm_def upd_proc_def after_kalloc_def)
  have i4: "kmem_inv ?s4 qs" by (rule kmem_inv_calm [OF k(2) c4]) (simp_all add: upd_proc_def)
  obtain pt s5 where s5: "proc_pagetable p ?s4 = Some (pt, s5)" "pt \<noteq> 0" "ptree 2 (mem s5) pt"
    "\<forall>w<MAXVA. leaf 2 (mem s5) pt w = proc_ptes (trampoline ?s4) (trapframe (procs ?s4 p)) w"
    "s5 = ?s4\<lparr>cpus := cpus s5, freelist := freelist s5, mem := mem s5\<rparr>" "\<forall>me A. calm me A ?s4 \<longrightarrow> calm me A s5"
    using proc_pagetable_runs [OF i4, of p] len ps by auto
  have e4: "trampoline ?s4 = trampoline s" "trapframe (procs ?s4 p) = tf" "nextpid ?s4 = nextpid s + 1"
    by (simp_all add: upd_proc_def after_kalloc_def init_mlfq_proc_def e1)
  have e5: "procs s5 = procs ?s4" "nextpid s5 = nextpid s + 1" "forkret_addr s5 = forkret_addr s"
    by (subst s5(5), simp add: upd_proc_def after_kalloc_def init_mlfq_proc_def e1)+
  let ?t = "upd_proc p (\<lambda>q. q\<lparr>pcontext := \<lparr>ctx_ra = forkret_addr s5, ctx_sp = kstack q + PGSIZE, ctx_s = (\<lambda>_. 0)\<rparr>\<rparr>)
    (upd_proc p (\<lambda>q. q\<lparr>pagetable := pt\<rparr>) s5)"
  have "allocproc_found p s = Some (Some p, ?t)"
    using s1(1) k(1,4) s5(1,2) by (simp add: allocproc_found_def upd_proc_def)
  moreover have "calm me {ProcLock p} s5" using c4 s5(6) by blast
  then have "calm me {ProcLock p} ?t" by (simp add: calm_def upd_proc_def)
  moreover have "nextpid ?t = nextpid s + 1" using e5 by (simp add: upd_proc_def)
  moreover have "procs ?t q = procs s q" if "q \<noteq> p" for q
    using that e5 by (simp add: upd_proc_def after_kalloc_def init_mlfq_proc_def e1)
  moreover have "newborn (ticks s) (nextpid s) (forkret_addr s) (procs s p) (procs ?t p)"
    using e5 e1 s5(2) k(4) by (simp add: newborn_def fresh_slice_def upd_proc_def after_kalloc_def init_mlfq_proc_def)
  moreover have "pte_of (pagetable (procs ?t p)) w ?t = proc_ptes (trampoline s) (trapframe (procs ?t p)) w" if "w < MAXVA" for w
  proof -
    have "pagetable (procs ?t p) = pt" "mem ?t = mem s5" "trapframe (procs ?t p) = tf" using e5(1) e4(2) by (simp_all add: upd_proc_def)
    then show ?thesis using pte_of_leaf [of ?t pt w] s5(3,4) that e4 by simp
  qed
  ultimately show ?thesis by blast
qed

lemma find_first:
  assumes "P p" and "p < n" and "\<forall>q<p. \<not> P q"
  shows "List.find P [0..<n] = Some p"
proof -
  have "\<exists>i<length [0..<n]. P ([0..<n] ! i) \<and> p = [0..<n] ! i \<and> (\<forall>j<i. \<not> P ([0..<n] ! j))"
    using assms by (intro exI [of _ p]) auto
  then show ?thesis by (simp only: find_Some_iff)
qed

lemma boot_ram_procs: "procs (boot_ram m) = procs (boot_table m)" "nextpid (boot_ram m) = 2"
proof -
  have "procs (foldr (\<lambda>i. after_kfree (ram_page i)) is s) = procs s" "nextpid (foldr (\<lambda>i. after_kfree (ram_page i)) is s) = nextpid s"
    for "is" and s :: "'a ptable_scheme" by (induction "is") (simp_all add: after_kfree_def)
  then show "procs (boot_ram m) = procs (boot_table m)" "nextpid (boot_ram m) = 2" by (simp_all add: boot_ram_def boot_table_def)
qed

section \<open>Properties\<close>

text \<open>C16. A new process. With enough free pages \<open>allocproc\<close> takes the first unused slot and returns it locked:
  the process has the next pid, the top level and a fresh slice, a kernel stack pointer and return address that
  lead to \<open>forkret\<close>, and a page table that maps the trampoline page and its trap frame and nothing else. The
  other slots are untouched.\<close>

theorem allocproc_fresh:
  assumes "calm me {} s" and "kmem_inv s ps" and "6 < length ps"
    and "p < NPROC" and "pstate (procs s p) = UNUSED" and "\<forall>q<p. pstate (procs s q) \<noteq> UNUSED"
  shows "\<exists>t. allocproc s = Some (Some p, t) \<and> calm me {ProcLock p} t \<and> nextpid t = nextpid s + 1 \<and>
    (\<forall>q. q \<noteq> p \<longrightarrow> procs t q = procs s q) \<and> newborn (ticks s) (nextpid s) (forkret_addr s) (procs s p) (procs t p) \<and>
    (\<forall>w<MAXVA. pte_of (pagetable (procs t p)) w t = proc_ptes (trampoline s) (trapframe (procs t p)) w)"
proof -
  have f: "List.find (\<lambda>p. pstate (procs s p) = UNUSED) [0..<NPROC] = Some p" by (rule find_first) (use assms in auto)
  obtain u where u: "allocproc_scan [0..<NPROC] s = Some (Some p, u)" "calm me {ProcLock p} u" "u = s\<lparr>cpus := cpus u, locks := locks u\<rparr>"
    using allocproc_scan_runs [OF assms(1) f] by blast
  have e: "mem u = mem s" "freelist u = freelist s" "kend u = kend s" "procs u = procs s" "ticks u = ticks s"
    "nextpid u = nextpid s" "forkret_addr u = forkret_addr s" "trampoline u = trampoline s" by (subst u(3), simp)+
  have "kmem_inv u ps" by (rule kmem_inv_calm [OF assms(2) u(2)]) (simp_all add: e)
  from allocproc_found_runs [OF u(2) this assms(3)] show ?thesis using u(1) unfolding e by (auto simp: allocproc_def)
qed

theorem allocproc_fresh_witness:
  "\<exists>t. allocproc (boot_ram ()) = Some (Some 1, t) \<and> pid (procs t 1) = 2 \<and> priority (procs t 1) = MLFQ_HIGH"
proof -
  have "pstate (procs (boot_ram ()) 1) = UNUSED" "\<forall>q<1. pstate (procs (boot_ram ()) q) \<noteq> UNUSED" "1 < NPROC"
    by (simp_all add: boot_ram_procs boot_table_def no_proc_def NPROC_def)
  with allocproc_fresh [OF boot_ram_ok(2) boot_ram_ok(1) [of "()"], of 1] obtain t where
    "allocproc (boot_ram ()) = Some (Some 1, t)"
    "newborn (ticks (boot_ram ())) (nextpid (boot_ram ())) (forkret_addr (boot_ram ())) (procs (boot_ram ()) 1) (procs t 1)" by auto
  then show ?thesis by (auto simp: newborn_def fresh_slice_def boot_ram_procs)
qed

text \<open>C17. Killing pid 0. A slot that is not in use has pid 0, so \<open>kill(0)\<close> finds it, marks it killed and reports
  success; \<open>allocproc\<close> does not clear the mark, so the next process made in that slot is born killed.\<close>

theorem kill_zero_marks_unborn:
  assumes "calm me {} s" and "kmem_inv s ps" and "6 < length ps" and "p < NPROC"
    and "pstate (procs s p) = UNUSED" and "pid (procs s p) = 0" and "\<forall>q<p. pstate (procs s q) \<noteq> UNUSED \<and> pid (procs s q) \<noteq> 0"
  shows "\<exists>t u. kkill 0 s = Some (0, t) \<and> allocproc t = Some (Some p, u) \<and> pid (procs u p) = nextpid s \<and> pkilled (procs u p)"
proof -
  let ?t = "s\<lparr>cpus := settled s, procs := (procs s)(p := kill_mark (procs s p))\<rparr>"
  have f: "List.find (\<lambda>p. pid (procs s p) = 0) [0..<NPROC] = Some p" by (rule find_first) (use assms in auto)
  have "plocks_free s" using calm_free [OF assms(1)] by (simp add: plocks_free_def)
  then have k: "kkill 0 s = Some (0, ?t)" using kkill_eq [OF _ calm_intr_ok [OF assms(1)], of 0] f by simp
  have c: "calm me {} ?t" using assms(1) by (simp add: calm_def)
  have i: "kmem_inv ?t ps" by (rule kmem_inv_calm [OF assms(2) c]) simp_all
  have m: "pkilled (kill_mark (procs s p))" "pstate (kill_mark (procs s p)) = UNUSED" using assms(5) by (simp_all add: kill_mark_def)
  have f': "List.find (\<lambda>p. pstate (procs ?t p) = UNUSED) [0..<NPROC] = Some p" by (rule find_first) (use assms m in auto)
  obtain v where v: "allocproc_scan [0..<NPROC] ?t = Some (Some p, v)" "calm me {ProcLock p} v" "v = ?t\<lparr>cpus := cpus v, locks := locks v\<rparr>"
    using allocproc_scan_runs [OF c f'] by blast
  have e: "mem v = mem ?t" "freelist v = freelist ?t" "kend v = kend ?t" "procs v = procs ?t" "nextpid v = nextpid s" by (subst v(3), simp)+
  have "kmem_inv v ps" by (rule kmem_inv_calm [OF i v(2)]) (simp_all only: e not_False_eq_True, simp_all)
  from allocproc_found_runs [OF v(2) this assms(3)] obtain u where "allocproc_found p v = Some (Some p, u)"
    "newborn (ticks v) (nextpid v) (forkret_addr v) (procs v p) (procs u p)" by blast
  then have "allocproc ?t = Some (Some p, u)" "pid (procs u p) = nextpid s" "pkilled (procs u p)"
    using v(1) m e by (simp_all add: allocproc_def newborn_def)
  with k show ?thesis by blast
qed

theorem kill_zero_marks_unborn_witness:
  "\<exists>t u. kkill 0 (boot_ram ()) = Some (0, t) \<and> allocproc t = Some (Some 1, u) \<and> pkilled (procs u 1)"
proof -
  have "pstate (procs (boot_ram ()) 1) = UNUSED" "pid (procs (boot_ram ()) 1) = 0" "1 < NPROC"
    "\<forall>q<1. pstate (procs (boot_ram ()) q) \<noteq> UNUSED \<and> pid (procs (boot_ram ()) q) \<noteq> 0"
    by (simp_all add: boot_ram_procs boot_table_def no_proc_def NPROC_def)
  with kill_zero_marks_unborn [OF boot_ram_ok(2) boot_ram_ok(1) [of "()"], of 1] show ?thesis by auto
qed

end
