(* ===== verification/Ringbuf.thy ===== *)
theory Ringbuf
  imports Prelude
begin

text \<open>
  Ring buffers as the kernel keeps them: 32-bit counters that only grow and wrap around, and an array
  indexed by them modulo its size. \<open>segment buf k r w\<close> is what lies between the counters \<open>r\<close> and \<open>w\<close>.
  It is the contents of a pipe and of the console's input buffer.
\<close>

definition segment :: "(nat \<Rightarrow> 'b) \<Rightarrow> nat \<Rightarrow> u32 \<Rightarrow> u32 \<Rightarrow> 'b list" where
  "segment buf k r w = map (\<lambda>i. buf (unat (r + of_nat i) mod k)) [0..<unat (w - r)]"

lemma segment_empty [simp]: "segment buf k r r = []"
  by (simp add: segment_def)

lemma segment_length [simp]: "length (segment buf k r w) = unat (w - r)"
  by (simp add: segment_def)

lemma segment_eq_Nil [simp]: "segment buf k r w = [] \<longleftrightarrow> w = r"
  by (metis length_0_conv segment_length right_minus_eq unat_eq_zero)

lemma u32_add_nat: "r + of_nat (unat (w - r)) = (w :: u32)"
  by simp

lemma unat_u32_bound: "unat (x :: u32) < 2 ^ 32"
  using unat_bound [of x] by simp

lemma unat_diff_Suc: "w \<noteq> r \<Longrightarrow> unat (w - r) = Suc (unat (w - (r + 1)))" for r w :: u32
proof -
  assume "w \<noteq> r"
  then have "w - r \<noteq> 0" by simp
  then have "0 < unat (w - r)" "unat (w - r - 1) = unat (w - r) - 1" by (simp_all add: unat_gt_0 unat_minus_one)
  then show ?thesis by (simp add: diff_diff_eq)
qed

lemma unat_diff_inc: "unat (w - r) < 2 ^ 32 - 1 \<Longrightarrow> unat (w + 1 - r) = Suc (unat (w - r))" for r w :: u32
proof -
  assume a: "unat (w - r) < 2 ^ 32 - 1"
  have "w + 1 - r \<noteq> 0"
  proof
    assume "w + 1 - r = 0"
    then have "w - r = - 1" by (simp add: algebra_simps)
    then have "unat (w - r) = 2 ^ 32 - 1" by (simp add: unsigned_minus_1_eq_mask mask_eq_exp_minus_1)
    with a show False by simp
  qed
  then have "w + 1 \<noteq> r" by auto
  from unat_diff_Suc [OF this] show ?thesis by simp
qed

text \<open>Taking one off the front.\<close>

lemma segment_pop: "w \<noteq> r \<Longrightarrow> segment buf k r w = buf (unat r mod k) # segment buf k (r + 1) w"
proof -
  assume "w \<noteq> r"
  then have l: "unat (w - r) = Suc (unat (w - (r + 1)))" by (rule unat_diff_Suc)
  show ?thesis unfolding segment_def l
    by (subst upt_conv_Cons) (simp_all add: map_Suc_upt [symmetric] add.assoc del: upt_Suc)
qed

text \<open>Indices of a segment no longer than the array are all different, counters that wrapped around
  included, since the size of the array divides 2 to the 32nd.\<close>

lemma unat_mod_add:
  assumes "k dvd 2 ^ 32"
  shows "unat (r + of_nat i :: u32) mod k = (unat r + i) mod k"
proof -
  have "unat (r + of_nat i :: u32) = (unat r + i) mod 2 ^ 32"
    by (simp add: unat_word_ariths unat_of_nat mod_simps)
  then show ?thesis using assms by (simp add: mod_mod_cancel)
qed

lemma slot_distinct:
  assumes k: "k dvd 2 ^ 32" and i: "i < j" "j - i < k"
  shows "unat (r + of_nat i :: u32) mod k \<noteq> unat (r + of_nat j :: u32) mod k"
proof
  assume "unat (r + of_nat i :: u32) mod k = unat (r + of_nat j :: u32) mod k"
  then have "(unat r + i) mod k = (unat r + j) mod k" unfolding unat_mod_add [OF k] .
  then have "k dvd (unat r + j) - (unat r + i)" using i by (metis mod_eq_dvd_iff_nat add_le_cancel_left less_imp_le_nat)
  then have "k dvd j - i" by simp
  with i show False by (metis dvd_imp_le leD zero_less_diff)
qed

text \<open>Adding one at the end, when there is room.\<close>

lemma segment_push:
  assumes k: "k dvd 2 ^ 32" "k < 2 ^ 32" and r: "unat (w - r) < k"
  shows "segment (buf(unat w mod k := c)) k r (w + 1) = segment buf k r w @ [c]"
proof -
  let ?n = "unat (w - r)"
  have l: "unat (w + 1 - r) = Suc ?n" using k r by (intro unat_diff_inc) simp
  have w: "w = r + of_nat ?n" by simp
  have ne: "unat (r + of_nat i) mod k \<noteq> unat w mod k" if "i < ?n" for i
    using slot_distinct [OF k(1) that, of r] r that w by (metis diff_le_self le_less_trans)
  show ?thesis unfolding segment_def l using ne w by simp
qed

lemma segment_unpush:
  assumes "w \<noteq> r"
  shows "segment buf k r (w - 1) = butlast (segment buf k r w)"
proof -
  have "unat (w - r) = Suc (unat (w - 1 - r))" using assms unat_diff_Suc [of w r] by (simp add: algebra_simps)
  then show ?thesis by (simp add: segment_def)
qed

text \<open>A counter in between splits the segment.\<close>

lemma segment_split:
  assumes "unat (w - r) \<le> unat (e - r)"
  shows "segment buf k r e = segment buf k r w @ segment buf k w e"
proof -
  have "e - w = (e - r) - (w - r)" by simp
  then have l: "unat (e - w) = unat (e - r) - unat (w - r)" using assms by (metis unat_sub word_le_nat_alt)
  then have "unat (e - r) = unat (w - r) + unat (e - w)" using assms by simp
  then have "[0..<unat (e - r)] = [0..<unat (w - r)] @ map (\<lambda>i. i + unat (w - r)) [0..<unat (e - w)]"
    using upt_add_eq_append [of 0 "unat (w - r)" "unat (e - w)"] by (simp add: map_add_upt add.commute)
  moreover have "r + of_nat (i + unat (w - r)) = w + of_nat i" for i
    using u32_add_nat [of r w] by (simp add: add.commute add.left_commute)
  ultimately show ?thesis by (simp add: segment_def o_def add.commute)
qed

end
