(* ===== verification/Editing.thy ===== *)
theory Editing
  imports Console Calm Ringbuf
begin

text \<open>
  The console as a line editor. The circular buffer of \<^verbatim>\<open>kernel/console.c\<close> with its three counters
  refines a pair of byte lists: the input that has been committed and not yet read, and the line that is
  being typed. Printing is total when the UART can take a character, and what \<open>printf\<close> prints is a
  function of its format and arguments.
\<close>

section \<open>Printing returns\<close>

definition tty :: "'a cons_scheme \<Rightarrow> bool \<times> bool \<times> bool \<times> bytes \<times> (nat \<Rightarrow> u8) \<times> u32 \<times> u32 \<times> u32" where
  "tty s = (panicking s, panicked s, uart_idle s, uart_in s, cons_buf s, cons_r s, cons_w s, cons_e s)"

text \<open>The kernel is not in a panic and the UART is ready.\<close>

definition serves :: "nat \<Rightarrow> lockid set \<Rightarrow> 'a cons_scheme \<Rightarrow> bool" where
  "serves me A s \<longleftrightarrow> calm me A s \<and> \<not> panicking s \<and> \<not> panicked s \<and> uart_idle s"

lemma servesD: "serves me A s \<Longrightarrow> calm me A s" "serves me A s \<Longrightarrow> \<not> panicking s" "serves me A s \<Longrightarrow> \<not> panicked s"
    "serves me A s \<Longrightarrow> uart_idle s"
  by (simp_all add: serves_def)

lemma servesI: "serves me B s \<Longrightarrow> calm me A t \<Longrightarrow> tty t = tty s \<Longrightarrow> serves me A t"
  by (simp add: serves_def tty_def)

lemma tty_quiet: "quiet me s t \<Longrightarrow> tty t = tty s \<and> uart_log t = uart_log s"
  unfolding quiet_def by (auto simp: tty_def)

lemma serves_acquire:
  assumes "serves me A s" and "l \<notin> A"
  shows "runs (acquire l s) (\<lambda>t. serves me (insert l A) t \<and> tty t = tty s \<and> uart_log t = uart_log s)"
  using calm_acquire [OF servesD(1) [OF assms(1)] assms(2)]
  by (rule runs_mono) (auto dest: tty_quiet intro: servesI [OF assms(1)])

lemma serves_release:
  assumes "serves me A s" and "l \<in> A"
  shows "runs (release l s) (\<lambda>t. serves me (A - {l}) t \<and> tty t = tty s \<and> uart_log t = uart_log s)"
  using calm_release [OF servesD(1) [OF assms(1)] assms(2)]
  by (rule runs_mono) (auto dest: tty_quiet intro: servesI [OF assms(1)])

lemma serves_wakeup:
  assumes "serves me A s" and "\<And>p. ProcLock p \<in> A \<Longrightarrow> p = me"
  shows "runs (wakeup ch s) (\<lambda>t. serves me A t \<and> tty t = tty s)"
  using calm_wakeup [OF servesD(1) [OF assms(1)] assms(2)]
  by (rule runs_mono) (auto dest: tty_quiet intro: servesI [OF assms(1)])

lemma uart_log_cpus [simp]: "s\<lparr>uart_log := x, cpus := y\<rparr> = s\<lparr>cpus := y, uart_log := x\<rparr>" for s :: "'a cons_scheme"
  by (cases s) simp

lemma uartputc_runs:
  assumes "serves me A s"
  shows "runs (uartputc_sync c s) (\<lambda>t. serves me A t \<and> tty t = tty s \<and> uart_log t = uart_log s @ [(THR, c)])"
proof (rule runs_eq)
  let ?s = "WriteReg THR c s"
  have "intr_ok ?s" using calm_intr_ok [OF servesD(1) [OF assms]] by (simp add: WriteReg_def)
  from push_pop [OF this] have "pop_off (WriteReg THR c (push_off s)) = Some (?s\<lparr>cpus := settled ?s\<rparr>)"
    by (simp add: push_off_eq WriteReg_def)
  then show "uartputc_sync c s = Some (?s\<lparr>cpus := settled ?s\<rparr>)"
    using servesD [OF assms] by (simp add: uartputc_sync_def push_off_eq WriteReg_def)
  show "serves me A (?s\<lparr>cpus := settled ?s\<rparr>) \<and> tty (?s\<lparr>cpus := settled ?s\<rparr>) = tty s \<and>
      uart_log (?s\<lparr>cpus := settled ?s\<rparr>) = uart_log s @ [(THR, c)]"
    using assms by (simp add: serves_def calm_def tty_def WriteReg_def)
qed

lemma uartputc_some:
  assumes "serves me A s"
  obtains t where "uartputc_sync c s = Some t" and "serves me A t" and "tty t = tty s" and "uart_log t = uart_log s @ [(THR, c)]"
  using uartputc_runs [OF assms, of c] that by (elim runsE conjE) blast

lemma consputc_runs:
  assumes "serves me A s"
  shows "runs (consputc c s) (\<lambda>t. serves me A t \<and> tty t = tty s)"
proof (cases "c = BACKSPACE")
  case True
  obtain t where t: "uartputc_sync 8 s = Some t" "serves me A t" "tty t = tty s" using uartputc_some [OF assms, of 8] .
  obtain u where u: "uartputc_sync 32 t = Some u" "serves me A u" "tty u = tty t" using uartputc_some [OF t(2), of 32] .
  obtain v where "uartputc_sync 8 u = Some v" "serves me A v" "tty v = tty u" using uartputc_some [OF u(2), of 8] .
  then show ?thesis using True t u by (simp add: consputc_def runs_def)
next
  case False
  obtain t where "uartputc_sync (word_of_int c) s = Some t" "serves me A t" "tty t = tty s" using uartputc_some [OF assms] .
  then show ?thesis using False by (simp add: consputc_def runs_def)
qed

lemma consputs_runs:
  assumes "serves me A s"
  shows "runs (consputs cs s) (\<lambda>t. serves me A t \<and> tty t = tty s \<and> uart_log t = uart_log s @ map (Pair THR) cs)"
  using assms
proof (induction cs arbitrary: s)
  case (Cons c cs)
  have "uint c < 256" using uint_lt2p [of c] by simp
  then have "uint c \<noteq> BACKSPACE" by (simp add: BACKSPACE_def)
  moreover obtain t where "uartputc_sync c s = Some t" "serves me A t" "tty t = tty s" "uart_log t = uart_log s @ [(THR, c)]"
    using uartputc_some [OF Cons.prems, of c] .
  ultimately have "consputc (uint c) s = Some t" "serves me A t" "tty t = tty s" "uart_log t = uart_log s @ [(THR, c)]"
    by (simp_all add: consputc_def)
  moreover from Cons.IH [OF this(2)] obtain u where "consputs cs t = Some u" "serves me A u" "tty u = tty t"
    "uart_log u = uart_log t @ map (Pair THR) cs" by (elim runsE conjE)
  ultimately show ?case by (simp add: runs_def)
qed (simp add: runs_def)

section \<open>What printf prints\<close>

lemma consputs_append: "consputs (xs @ ys) s = do { s \<leftarrow> consputs xs s; consputs ys s }"
  by (induction xs arbitrary: s) (simp_all add: bind_assoc)

lemma bind_None [simp]: "m \<bind> (\<lambda>_. None) = None"
  by (cases m) simp_all

lemma printf_loop_formatted:
  fixes s :: "'a cons_scheme"
  shows "printf_loop f as s = do { out \<leftarrow> formatted kdigits f as; consputs out s }"
proof (induction kdigits f as arbitrary: s rule: formatted.induct)
  case (2 c cs as)
  show ?case
  proof (cases "c \<noteq> asc (CHR ''%'')")
    case True
    have IH: "printf_loop cs as = (\<lambda>s :: 'a cons_scheme. do { out \<leftarrow> formatted kdigits cs as; consputs out s })" by (rule ext) (rule 2(1) [OF True])
    with True show ?thesis by (cases "formatted kdigits cs as") simp_all
  next
    case False
    obtain d k where dk: "read_directive cs = (d, k)" by (cases "read_directive cs") auto
    show ?thesis
    proof (cases "d = End")
      case True
      then show ?thesis using False dk by simp
    next
      case nE: False
      show ?thesis
      proof (cases "directive_chars kdigits d as")
        case None
        then show ?thesis using False dk nE by simp
      next
        case (Some r)
        obtain out as' where r: "r = (out, as')" by (cases r) auto
        have IH: "printf_loop (drop k cs) as' = (\<lambda>s :: 'a cons_scheme. do { out \<leftarrow> formatted kdigits (drop k cs) as'; consputs out s })"
          by (rule ext) (use 2(2) [OF _ _ _ nE, of "(d, k)" k "(out, as')" out as'] False dk Some r in simp)
        show ?thesis using False dk nE Some r IH
          by (cases "formatted kdigits (drop k cs) as'") (simp_all add: consputs_append)
      qed
    qed
  qed
qed simp

lemma printf_runs:
  assumes "serves me A s" and "PrLock \<notin> A" and "formatted kdigits f as = Some out"
  shows "runs (printf f as s) (\<lambda>t. serves me A t \<and> tty t = tty s \<and> uart_log t = uart_log s @ map (Pair THR) out)"
proof -
  obtain t where t: "acquire PrLock s = Some t" "serves me (insert PrLock A) t" "tty t = tty s" "uart_log t = uart_log s"
    using serves_acquire [OF assms(1,2)] by (auto elim!: runsE)
  obtain u where u: "printf_loop f as t = Some u" "serves me (insert PrLock A) u" "tty u = tty s" "uart_log u = uart_log s @ map (Pair THR) out"
    using consputs_runs [OF t(2), of out] t(3,4) by (auto simp: printf_loop_formatted assms(3) elim!: runsE)
  obtain v where v: "release PrLock u = Some v" "serves me A v" "tty v = tty s" "uart_log v = uart_log s @ map (Pair THR) out"
    using serves_release [OF u(2), of PrLock] u(3,4) assms(2) by (auto elim!: runsE)
  show ?thesis using t(1) u(1) v servesD(2) [OF assms(1)] servesD(2) [OF u(2)] by (simp add: printf_def runs_def)
qed

lemma formatted_dump: "\<exists>out. formatted kdigits (str ''%d %s %s'') [Word a, Str b, Str c] = Some out"
  by (simp add: str_def asc_def read_directive_def at_def)

lemma formatted_newline: "formatted kdigits [10] [] = Some [10]"
  by (simp add: asc_def)

lemma procdump_loop_runs:
  assumes "serves me A s" and "PrLock \<notin> A"
  shows "runs (procdump_loop ps s) (\<lambda>t. serves me A t \<and> tty t = tty s)"
  using assms(1)
proof (induction ps arbitrary: s)
  case (Cons p ps)
  let ?as = "[Word (word_of_int (pid (procs s p))), Str (Some (state_name (pstate (procs s p)))), Str (Some (cstring (pname (procs s p))))]"
  obtain out where o: "formatted kdigits (str ''%d %s %s'') ?as = Some out" using formatted_dump by blast
  obtain t where t: "printf (str ''%d %s %s'') ?as s = Some t" "serves me A t" "tty t = tty s"
    using printf_runs [OF Cons.prems assms(2) o] by (auto elim!: runsE)
  obtain u where u: "printf [10] [] t = Some u" "serves me A u" "tty u = tty t"
    using printf_runs [OF t(2) assms(2) formatted_newline] by (auto elim!: runsE)
  from Cons.IH [OF u(2)] Cons.IH [OF Cons.prems] t u show ?case by (simp add: runs_def)
qed (simp add: runs_def)

lemma procdump_runs:
  assumes "serves me A s" and "PrLock \<notin> A"
  shows "runs (procdump s) (\<lambda>t. serves me A t \<and> tty t = tty s)"
proof -
  obtain u where u: "printf [10] [] s = Some u" "serves me A u" "tty u = tty s"
    using printf_runs [OF assms formatted_newline] by (auto elim!: runsE)
  from procdump_loop_runs [OF u(2) assms(2), of "[0..<NPROC]"] u show ?thesis by (simp add: procdump_def runs_def)
qed

section \<open>The line editor\<close>

text \<open>What has been committed and not yet read, and what is being typed.\<close>

definition committed :: "'a cons_scheme \<Rightarrow> bytes" where
  "committed s = segment (cons_buf s) 128 (cons_r s) (cons_w s)"

definition typed :: "'a cons_scheme \<Rightarrow> bytes" where
  "typed s = segment (cons_buf s) 128 (cons_w s) (cons_e s)"

text \<open>The counters are in order and at most the size of the buffer apart.\<close>

definition cons_ok :: "'a cons_scheme \<Rightarrow> bool" where
  "cons_ok s \<longleftrightarrow> unat (cons_e s - cons_r s) \<le> 128 \<and> unat (cons_w s - cons_r s) \<le> unat (cons_e s - cons_r s)"

fun edit :: "u8 \<Rightarrow> bytes \<times> bytes \<Rightarrow> bytes \<times> bytes" where
  "edit c (com, cur) =
     (if c = 16 then (com, cur)
      else if c = 21 then (com, rev (dropWhile (\<lambda>b. b \<noteq> 10) (rev cur)))
      else if c = 8 \<or> c = 127 then (com, butlast cur)
      else if c \<noteq> 0 \<and> length com + length cur < 128 then
        let c = (if c = 13 then 10 else c); cur = cur @ [c]
        in if c = 10 \<or> c = 4 \<or> length com + length cur = 128 then (com @ cur, []) else (com, cur)
      else (com, cur))"

lemma view_tty: "tty t = tty s \<Longrightarrow> committed t = committed s \<and> typed t = typed s \<and> cons_ok t = cons_ok s"
  by (simp add: tty_def committed_def typed_def cons_ok_def)

lemma cons_lengths:
  assumes "cons_ok s"
  shows "length (committed s) + length (typed s) = unat (cons_e s - cons_r s)"
    and "segment (cons_buf s) 128 (cons_r s) (cons_e s) = committed s @ typed s"
proof -
  show 2: "segment (cons_buf s) 128 (cons_r s) (cons_e s) = committed s @ typed s"
    using assms segment_split [of "cons_w s" "cons_r s" "cons_e s"] by (simp add: cons_ok_def committed_def typed_def)
  then have "length (committed s @ typed s) = unat (cons_e s - cons_r s)" by (metis segment_length)
  then show "length (committed s) + length (typed s) = unat (cons_e s - cons_r s)" by simp
qed

text \<open>One character less.\<close>

lemma back_one:
  assumes ok: "cons_ok s" and ne: "cons_e s \<noteq> cons_w s"
  shows "cons_ok (s\<lparr>cons_e := cons_e s - 1\<rparr>)" and "committed (s\<lparr>cons_e := cons_e s - 1\<rparr>) = committed s"
    and "typed (s\<lparr>cons_e := cons_e s - 1\<rparr>) = butlast (typed s)"
    and "last (typed s) = cons_buf s (unat ((cons_e s - 1) mod INPUT_BUF_SIZE))"
    and "unat (cons_e s - cons_w s) = Suc (unat (cons_e s - 1 - cons_w s))"
proof -
  show s: "unat (cons_e s - cons_w s) = Suc (unat (cons_e s - 1 - cons_w s))"
    using unat_diff_Suc [OF ne] by (simp add: algebra_simps)
  have l: "length (committed s) + Suc (unat (cons_e s - 1 - cons_w s)) = unat (cons_e s - cons_r s)"
    using cons_lengths(1) [OF ok] s by (simp add: typed_def)
  then have "cons_e s \<noteq> cons_r s" by auto
  then have r: "unat (cons_e s - cons_r s) = Suc (unat (cons_e s - 1 - cons_r s))"
    using unat_diff_Suc [of "cons_e s" "cons_r s"] by (simp add: algebra_simps)
  show "cons_ok (s\<lparr>cons_e := cons_e s - 1\<rparr>)" using ok r l by (simp add: cons_ok_def committed_def)
  show "committed (s\<lparr>cons_e := cons_e s - 1\<rparr>) = committed s" by (simp add: committed_def)
  show "typed (s\<lparr>cons_e := cons_e s - 1\<rparr>) = butlast (typed s)" using segment_unpush [OF ne] by (simp add: typed_def)
  have "cons_w s + of_nat (unat (cons_e s - 1 - cons_w s)) = cons_e s - 1" by simp
  then show "last (typed s) = cons_buf s (unat ((cons_e s - 1) mod INPUT_BUF_SIZE))"
    by (simp add: typed_def segment_def s INPUT_BUF_SIZE_def unat_mod)
qed

lemma dropWhile_last: "xs \<noteq> [] \<Longrightarrow> rev (dropWhile P (rev xs)) = (if P (last xs) then rev (dropWhile P (rev (butlast xs))) else xs)"
  by (cases xs rule: rev_cases) simp_all

lemma kill_line_runs:
  assumes "serves me A s" and "cons_ok s"
  shows "runs (kill_line s) (\<lambda>t. serves me A t \<and> cons_ok t \<and> committed t = committed s \<and> uart_in t = uart_in s \<and>
    typed t = rev (dropWhile (\<lambda>b. b \<noteq> 10) (rev (typed s))))"
  using assms
proof (induction "unat (cons_e s - cons_w s)" arbitrary: s)
  case 0
  then have "cons_e s = cons_w s" by (simp add: unat_eq_zero)
  then show ?case using 0(2,3) by (subst kill_line.simps) (simp add: runs_def typed_def)
next
  case (Suc n)
  then have ne: "cons_e s \<noteq> cons_w s" by auto
  then have ty: "typed s \<noteq> []" by (simp add: typed_def)
  note b = back_one [OF Suc.prems(2) ne]
  show ?case
  proof (cases "cons_buf s (unat ((cons_e s - 1) mod INPUT_BUF_SIZE)) = 10")
    case True
    then show ?thesis using Suc.prems ne b(4) ty by (subst kill_line.simps) (simp add: runs_def dropWhile_last)
  next
    case False
    let ?s = "s\<lparr>cons_e := cons_e s - 1\<rparr>"
    have "serves me A ?s" using Suc.prems(1) by (simp add: serves_def calm_def)
    from consputc_runs [OF this, of BACKSPACE]
    obtain t where t: "consputc BACKSPACE ?s = Some t" "serves me A t" "tty t = tty ?s" by (auto elim!: runsE)
    have v: "committed t = committed s" "typed t = butlast (typed s)" "cons_ok t" using view_tty [OF t(3)] b by simp_all
    have "cons_e t = cons_e s - 1" "cons_w t = cons_w s" and i: "uart_in t = uart_in s" using t(3) by (simp_all add: tty_def)
    then have "n = unat (cons_e t - cons_w t)" using Suc.hyps(2) b(5) by simp
    from Suc.hyps(1) [OF this t(2) v(3)] show ?thesis
      using False ne t(1) v i b(4) ty by (subst kill_line.simps) (simp add: runs_def dropWhile_last)
  qed
qed

text \<open>One character more.\<close>

definition put_char :: "u8 \<Rightarrow> 'a cons_scheme \<Rightarrow> 'a cons_scheme" where
  "put_char c s = s\<lparr>cons_buf := (cons_buf s)(unat (cons_e s mod INPUT_BUF_SIZE) := c), cons_e := cons_e s + 1\<rparr>"

lemma one_more:
  assumes ok: "cons_ok s" and room: "unat (cons_e s - cons_r s) < 128"
  shows "cons_ok (put_char c s)" and "committed (put_char c s) = committed s" and "typed (put_char c s) = typed s @ [c]"
    and "unat (cons_e (put_char c s) - cons_r (put_char c s)) = Suc (unat (cons_e s - cons_r s))"
proof -
  let ?t = "put_char c s"
  have e: "unat (cons_e s mod INPUT_BUF_SIZE) = unat (cons_e s) mod 128" by (simp add: INPUT_BUF_SIZE_def unat_mod)
  show l: "unat (cons_e ?t - cons_r ?t) = Suc (unat (cons_e s - cons_r s))"
    using unat_diff_inc [of "cons_e s" "cons_r s"] room by (simp add: put_char_def)
  show ok': "cons_ok ?t" using ok room l by (simp add: cons_ok_def) (simp add: put_char_def)
  have "segment (cons_buf ?t) 128 (cons_r ?t) (cons_e ?t) = segment (cons_buf s) 128 (cons_r s) (cons_e s) @ [c]"
    using segment_push [of 128 "cons_e s" "cons_r s" "cons_buf s" c] room by (simp add: put_char_def e)
  then have "committed ?t @ typed ?t = committed s @ typed s @ [c]"
    unfolding cons_lengths(2) [OF ok'] cons_lengths(2) [OF ok] by simp
  moreover have "length (committed ?t) = length (committed s)" by (simp add: committed_def put_char_def)
  ultimately show "committed ?t = committed s" "typed ?t = typed s @ [c]" by simp_all
qed

lemma commit_line:
  assumes "cons_ok s"
  shows "cons_ok (s\<lparr>cons_w := cons_e s\<rparr>)" and "committed (s\<lparr>cons_w := cons_e s\<rparr>) = committed s @ typed s"
    and "typed (s\<lparr>cons_w := cons_e s\<rparr>) = []"
proof -
  show "cons_ok (s\<lparr>cons_w := cons_e s\<rparr>)" using assms by (simp add: cons_ok_def)
  show "committed (s\<lparr>cons_w := cons_e s\<rparr>) = committed s @ typed s"
    using cons_lengths(2) [OF assms] by (simp add: committed_def)
  show "typed (s\<lparr>cons_w := cons_e s\<rparr>) = []" by (simp add: typed_def)
qed

text \<open>The result of an interrupt: the editor's step, and nothing else the console's clients see.\<close>

definition edited :: "nat \<Rightarrow> lockid set \<Rightarrow> u8 \<Rightarrow> 'a cons_scheme \<Rightarrow> 'a cons_scheme \<Rightarrow> bool" where
  "edited me A c s t \<longleftrightarrow> serves me A t \<and> cons_ok t \<and> (committed t, typed t) = edit c (committed s, typed s) \<and> uart_in t = uart_in s"

lemma serves_upd: "serves me A s \<Longrightarrow> serves me A (put_char c s)" "serves me A s \<Longrightarrow> serves me A (s\<lparr>cons_w := w\<rparr>)"
    "serves me A s \<Longrightarrow> serves me A (s\<lparr>cons_e := w\<rparr>)"
  by (simp_all add: serves_def put_char_def calm_def)

lemma insert_runs:
  assumes sv: "serves me A s" and A: "\<And>p. ProcLock p \<in> A \<Longrightarrow> p = me" and ok: "cons_ok s"
    and c: "c \<notin> {0, 8, 16, 21, 127}" and room: "unat (cons_e s - cons_r s) < 128"
    and d: "d = (if c = 13 then 10 else c)"
  shows "runs (do {
       s \<leftarrow> consputc (uint d) s;
       let s = put_char d s;
       if d = 10 \<or> d = 4 \<or> cons_e s - cons_r s = INPUT_BUF_SIZE then wakeup (Some ChanCons) (s\<lparr>cons_w := cons_e s\<rparr>) else Some s
     }) (edited me A c s)"
proof -
  obtain t where t: "consputc (uint d) s = Some t" "serves me A t" "tty t = tty s" using consputc_runs [OF sv] by (auto elim!: runsE)
  have v: "committed t = committed s" "typed t = typed s" "cons_ok t" using view_tty [OF t(3)] ok by simp_all
  have f: "cons_e t = cons_e s" "cons_r t = cons_r s" "uart_in t = uart_in s" using t(3) by (simp_all add: tty_def)
  let ?u = "put_char d t"
  have "unat (cons_e t - cons_r t) < 128" using room f by simp
  note m = one_more [OF v(3) this, of d]
  have len: "length (committed s) + length (typed s) = unat (cons_e s - cons_r s)" by (rule cons_lengths(1) [OF ok])
  have full: "cons_e ?u - cons_r ?u = INPUT_BUF_SIZE \<longleftrightarrow> length (committed s) + length (typed s @ [d]) = 128"
    using m(4) f len by (simp add: word_unat_eq_iff INPUT_BUF_SIZE_def)
  have ed: "edit c (committed s, typed s) =
      (if d = 10 \<or> d = 4 \<or> length (committed s) + length (typed s @ [d]) = 128 then (committed s @ typed s @ [d], []) else (committed s, typed s @ [d]))"
    using c d room len by (simp add: Let_def)
  have i: "uart_in ?u = uart_in s" using f by (simp add: put_char_def)
  show ?thesis
  proof (cases "d = 10 \<or> d = 4 \<or> cons_e ?u - cons_r ?u = INPUT_BUF_SIZE")
    case True
    let ?w = "?u\<lparr>cons_w := cons_e ?u\<rparr>"
    obtain x where x: "wakeup (Some ChanCons) ?w = Some x" "serves me A x" "tty x = tty ?w"
      using serves_wakeup [OF serves_upd(2) [OF serves_upd(1) [OF t(2), of d], of "cons_e ?u"] A, of "Some ChanCons"] by (auto elim!: runsE)
    have "committed x = committed s @ typed s @ [d]" "typed x = []" "cons_ok x"
      using view_tty [OF x(3)] commit_line [OF m(1)] m(2,3) v by simp_all
    moreover have "uart_in x = uart_in s" using x(3) i by (simp add: tty_def)
    ultimately show ?thesis using True t(1) x(1,2) full ed by (simp add: runs_def edited_def)
  next
    case False
    then show ?thesis using t(1) serves_upd(1) [OF t(2), of d] m v i full ed by (simp add: runs_def edited_def)
  qed
qed

lemma consoleintr_runs:
  assumes "serves me {} s" and "cons_ok s"
  shows "runs (consoleintr c s) (edited me {} c s)"
proof -
  obtain t where t: "acquire ConsLock s = Some t" "serves me {ConsLock} t" "tty t = tty s"
    using serves_acquire [OF assms(1), of ConsLock] by (auto elim!: runsE)
  have v: "committed t = committed s" "typed t = typed s" "cons_ok t" and i: "uart_in t = uart_in s"
    using view_tty [OF t(3)] assms(2) t(3) by (simp_all add: tty_def)
  have nop: "edited me {ConsLock} c t t" if "edit c (committed t, typed t) = (committed t, typed t)"
    using t(2) v that by (simp add: edited_def)
  have room: "cons_e t - cons_r t < INPUT_BUF_SIZE \<longleftrightarrow> unat (cons_e t - cons_r t) < 128"
    by (simp add: word_less_nat_alt INPUT_BUF_SIZE_def)
  have "runs (if c = 16 then procdump t
           else if c = 21 then kill_line t
           else if c = 8 \<or> c = 127 then
             if cons_e t \<noteq> cons_w t then consputc BACKSPACE (t\<lparr>cons_e := cons_e t - 1\<rparr>) else Some t
           else if c \<noteq> 0 \<and> cons_e t - cons_r t < INPUT_BUF_SIZE then do {
             let c = (if c = 13 then 10 else c);
             s \<leftarrow> consputc (uint c) t;
             let s = put_char c s;
             if c = 10 \<or> c = 4 \<or> cons_e s - cons_r s = INPUT_BUF_SIZE
             then wakeup (Some ChanCons) (s\<lparr>cons_w := cons_e s\<rparr>)
             else Some s
           } else Some t) (edited me {ConsLock} c t)" (is "runs ?m _")
  proof -
    consider "c = 16" | "c = 21" | "c = 8 \<or> c = 127" "cons_e t = cons_w t" | "c = 8 \<or> c = 127" "cons_e t \<noteq> cons_w t"
      | "c \<notin> {0, 8, 16, 21, 127}" "unat (cons_e t - cons_r t) < 128"
      | "c \<notin> {8, 16, 21, 127}" "c = 0 \<or> \<not> unat (cons_e t - cons_r t) < 128" by auto
    then show ?thesis
    proof cases
      case 1
      obtain u where u: "procdump t = Some u" "serves me {ConsLock} u" "tty u = tty t" using procdump_runs [OF t(2)] by (auto elim!: runsE)
      then show ?thesis using 1 view_tty [OF u(3)] v by (simp add: runs_def edited_def tty_def)
    next
      case 2
      then show ?thesis using kill_line_runs [OF t(2) v(3)] by (auto simp: runs_def edited_def)
    next
      case 3
      then have "typed t = []" by (simp add: typed_def)
      then show ?thesis using 3 nop by (auto simp: runs_def)
    next
      case 4
      note b = back_one [OF v(3) 4(2)]
      let ?u = "t\<lparr>cons_e := cons_e t - 1\<rparr>"
      obtain x where x: "consputc BACKSPACE ?u = Some x" "serves me {ConsLock} x" "tty x = tty ?u"
        using consputc_runs [OF serves_upd(3) [OF t(2), of "cons_e t - 1"], of BACKSPACE] by (auto elim!: runsE)
      have "uart_in x = uart_in t" using x(3) by (simp add: tty_def)
      then have "edited me {ConsLock} c t x" using 4(1) x(2) view_tty [OF x(3)] b by (auto simp: edited_def)
      then show ?thesis using 4 x(1) by (auto simp: runs_def)
    next
      case 5
      then show ?thesis using insert_runs [OF t(2) _ v(3) 5 refl] room by (cases "c = 13") simp_all
    next
      case 6
      then have "edit c (committed t, typed t) = (committed t, typed t)" using cons_lengths(1) [OF v(3)] by auto
      then show ?thesis using 6 nop room by (auto simp: runs_def)
    qed
  qed
  then obtain u where u: "?m = Some u" "edited me {ConsLock} c t u" by (elim runsE)
  then have su: "serves me {ConsLock} u" by (simp add: edited_def)
  obtain x where x: "release ConsLock u = Some x" "serves me {} x" "tty x = tty u"
    using serves_release [OF su, of ConsLock] by (auto elim!: runsE)
  have "edited me {} c s x" using u(2) x(2) view_tty [OF x(3)] v i x(3) by (simp add: edited_def tty_def)
  then show ?thesis using t(1) u(1) x(1) by (simp add: consoleintr_def runs_def put_char_def Let_def cong: if_cong)
qed

text \<open>The characters that have arrived.\<close>

lemma uart_input_runs:
  assumes "serves me {} s" and "cons_ok s"
  shows "runs (uart_input s) (\<lambda>t. serves me {} t \<and> cons_ok t \<and> uart_in t = [] \<and>
    (committed t, typed t) = fold edit (uart_in s) (committed s, typed s))"
  using assms
proof (induction "uart_in s" arbitrary: s)
  case Nil
  then have "uart_in s = []" by simp
  then show ?case using Nil(2,3) by (subst uart_input.simps) (simp add: uartgetc_def runs_def)
next
  case (Cons c cs)
  let ?s = "s\<lparr>uart_in := cs\<rparr>"
  have i: "uart_in s = c # cs" using Cons.hyps(2) by simp
  have "serves me {} ?s" "cons_ok ?s" using Cons.prems by (simp_all add: serves_def calm_def cons_ok_def)
  from consoleintr_runs [OF this, of c] obtain t where t: "consoleintr c ?s = Some t" "edited me {} c ?s t" by (elim runsE)
  then have e: "serves me {} t" "cons_ok t" "uart_in t = cs" "(committed t, typed t) = edit c (committed s, typed s)"
    by (simp_all add: edited_def committed_def typed_def)
  from Cons.hyps(1) [OF e(3) [symmetric] e(1,2)] t(1) e show ?case
    by (subst uart_input.simps) (simp add: uartgetc_def i runs_def del: edit.simps)
qed

section \<open>Numbers\<close>

lemma kdigits_value: "\<forall>v<10. uint (kdigits ! v) = int v + 48"
proof -
  have "list_all (\<lambda>v. uint (kdigits ! v) = int v + 48) [0..<10]" by code_simp
  then show ?thesis by (simp only: list_all_iff set_upt atLeastLessThan_iff) simp
qed

lemma digit_not_minus:
  assumes "\<forall>v\<in>set vs. v < 10" and "x \<in> set (map ((!) kdigits) vs)"
  shows "x \<noteq> asc (CHR ''-'')"
proof -
  obtain v where "v < 10" "x = kdigits ! v" using assms by auto
  then have "uint x = int v + 48" using kdigits_value by simp
  then show ?thesis by (auto simp: asc_def)
qed

lemma horner_kdigits: "horner (rev (digits_rev kdigits 10 x)) = int x"
    and kdigits_no_minus: "\<forall>c\<in>set (digits_rev kdigits 10 x). c \<noteq> asc (CHR ''-'')"
proof -
  have l: "10 \<le> length kdigits" by (simp add: kdigits_def str_def)
  obtain vs where vs: "digits_rev kdigits 10 x = map ((!) kdigits) vs" "\<forall>v\<in>set vs. v < 10" "value_of 10 vs = x"
    using digits_rev_value [of 10 kdigits x] l by auto
  show "horner (rev (digits_rev kdigits 10 x)) = int x" unfolding vs(1) using horner_digits [OF vs(2) kdigits_value] vs(3) by simp
  show "\<forall>c\<in>set (digits_rev kdigits 10 x). c \<noteq> asc (CHR ''-'')" unfolding vs(1) using digit_not_minus [OF vs(2)] by blast
qed

section \<open>Properties\<close>

text \<open>C18. The console edits lines. An interrupt of the UART handles every character that has arrived and returns.
  The buffer with its three counters then holds what the line editor makes of those characters: printable ones
  are appended while there is room, backspace and \<open>^U\<close> erase only what has not been committed, and a line is
  committed at a newline, at \<open>^D\<close> or when the buffer is full.\<close>

theorem console_edits_lines:
  assumes "calm me {} s" and "\<not> panicking s" and "\<not> panicked s" and "uart_idle s" and "cons_ok s"
  shows "\<exists>t. uartintr s = Some t \<and> uart_in t = [] \<and> cons_ok t \<and>
    (committed t, typed t) = fold edit (uart_in s) (committed s, typed s)"
proof -
  have sv: "serves me {} s" using assms by (simp add: serves_def)
  obtain t where t: "acquire TxLock s = Some t" "serves me {TxLock} t" "tty t = tty s"
    using serves_acquire [OF sv, of TxLock] by (auto elim!: runsE)
  have id: "uart_idle t" by (rule servesD(4) [OF t(2)])
  have "serves me {TxLock} (t\<lparr>tx_busy := False\<rparr>)" using t(2) by (simp add: serves_def calm_def)
  then obtain u where u: "wakeup (Some ChanTx) (t\<lparr>tx_busy := False\<rparr>) = Some u" "serves me {TxLock} u" "tty u = tty (t\<lparr>tx_busy := False\<rparr>)"
    using serves_wakeup [of me "{TxLock}" "t\<lparr>tx_busy := False\<rparr>" "Some ChanTx"] by (auto elim!: runsE)
  obtain v where v: "release TxLock u = Some v" "serves me {} v" "tty v = tty u"
    using serves_release [OF u(2), of TxLock] by (auto elim!: runsE)
  have e: "tty v = tty s" using v(3) u(3) t(3) by (simp add: tty_def)
  then have w: "cons_ok v" "committed v = committed s" "typed v = typed s" "uart_in v = uart_in s"
    using view_tty [OF e] assms(5) by (simp_all add: tty_def)
  obtain x where "uart_input v = Some x" "cons_ok x" "uart_in x = []" "(committed x, typed x) = fold edit (uart_in v) (committed v, typed v)"
    using uart_input_runs [OF v(2) w(1)] by (auto elim!: runsE)
  then show ?thesis using t(1) u(1) v(1) w id by (simp add: uartintr_def)
qed


text \<open>C20. Numbers fit and read back. The 20 characters of \<open>buf\<close> in \<open>printint\<close> are enough for every 64-bit number in
  the bases it is called with, and the decimal digits sent denote the number, signed or unsigned, the smallest
  negative number included.\<close>

theorem printint_exact:
  "length (int_buf kdigits x 10 sg) \<le> 20 \<and> length (int_buf kdigits x 16 False) \<le> 20 \<and>
   read_int (rev (int_buf kdigits x 10 sg)) = (if sg then sint x else uint x)"
proof (intro conjI)
  have b: "unat x < 2 ^ 64" using unat_bound [of x] by simp
  have l20: "length (digits_rev kdigits 10 (unat x)) \<le> 20" by (rule digits_rev_length) (use b in simp_all)
  show "length (int_buf kdigits x 10 sg) \<le> 20"
  proof (cases "sg \<and> sint x < 0")
    case True
    have "int (unat (- x)) \<le> 2 ^ 63" using abs_neg [of x] True sint_ge [of x] by simp
    then have "int (unat (- x)) < int (10 ^ 19)" by simp
    then have "unat (- x) < 10 ^ 19" by (simp only: of_nat_less_iff)
    then have "length (digits_rev kdigits 10 (unat (- x))) \<le> 19" by (intro digits_rev_length) simp_all
    then show ?thesis using True by (simp add: int_buf_def)
  qed (use l20 in \<open>auto simp: int_buf_def Let_def\<close>)
  have "length (digits_rev kdigits 16 (unat x)) \<le> 16" by (rule digits_rev_length) (use b in simp_all)
  then show "length (int_buf kdigits x 16 False) \<le> 20" by (simp add: int_buf_def)
  have nm: "read_int (rev (digits_rev kdigits 10 n)) = int n" for n
  proof -
    have "rev (digits_rev kdigits 10 n) \<noteq> [] \<longrightarrow> hd (rev (digits_rev kdigits 10 n)) \<noteq> asc (CHR ''-'')"
      using kdigits_no_minus [of n] by (metis hd_in_set set_rev)
    then show ?thesis using horner_kdigits [of n] by (auto simp: read_int_def)
  qed
  show "read_int (rev (int_buf kdigits x 10 sg)) = (if sg then sint x else uint x)"
  proof (cases "sg \<and> sint x < 0")
    case True
    then show ?thesis using horner_kdigits [of "unat (- x)"] abs_neg [of x] by (simp add: int_buf_def read_int_def)
  next
    case False
    then show ?thesis using nm [of "unat x"] sint_nonneg [of x] by (auto simp: int_buf_def Let_def)
  qed
qed

definition quiet_tty :: "bytes \<Rightarrow> cons" where
  "quiet_tty input = ptable.extend (at_rest\<lparr>cpus := (\<lambda>_. \<lparr>cproc = Some 0, noff = 0, intena = False, sie = True\<rparr>)\<rparr>)
     (cons.fields False False [] input True False (\<lambda>_. 0) 0 0 0 (\<lambda>_. None) (\<lambda>_. None))"

lemma quiet_tty_ok: "calm 0 {} (quiet_tty input)" "\<not> panicking (quiet_tty input)" "\<not> panicked (quiet_tty input)"
    "uart_idle (quiet_tty input)" "cons_ok (quiet_tty input)" "uart_in (quiet_tty input) = input" "uart_log (quiet_tty input) = []"
    "committed (quiet_tty input) = []" "typed (quiet_tty input) = []"
  by (simp_all add: quiet_tty_def ptable.defs cons.defs at_rest_def calm_def free_lock_def cons_ok_def committed_def typed_def)

theorem console_edits_lines_witness:
  "\<exists>t. uartintr (quiet_tty [104, 105, 33, 127, 13, 120]) = Some t \<and> committed t = [104, 105, 10] \<and> typed t = [120]"
proof -
  note q = quiet_tty_ok [of "[104, 105, 33, 127, 13, 120]"]
  have "fold edit [104, 105, 33, 127, 13, 120] ([], []) = ([104, 105, 10], [120])" by simp
  then show ?thesis using console_edits_lines [OF q(1-5)] q(6-9) by auto
qed


end
