(* ===== verification/Channel.thy ===== *)
theory Channel
  imports Pipe Usermem Ringbuf
begin

text \<open>
  Pipes as queues of bytes. The circular buffer of \<^verbatim>\<open>kernel/pipe.c\<close> between \<open>nread\<close> and \<open>nwrite\<close> refines
  a list; \<open>pipewrite\<close> appends what it takes from the writer's memory and \<open>piperead\<close> delivers a prefix of
  the list to the reader's. The queue laws are an interface, which the buffer of a pipe implements.
\<close>

section \<open>Queues\<close>

locale byte_queue =
  fixes contents :: "'q \<Rightarrow> u8 list" and ok :: "'q \<Rightarrow> bool" and cap :: nat
    and push :: "u8 \<Rightarrow> 'q \<Rightarrow> 'q" and front :: "'q \<Rightarrow> u8" and pop :: "'q \<Rightarrow> 'q"
  assumes push: "ok q \<Longrightarrow> length (contents q) < cap \<Longrightarrow> ok (push c q) \<and> contents (push c q) = contents q @ [c]"
    and pop: "ok q \<Longrightarrow> contents q \<noteq> [] \<Longrightarrow> ok (pop q) \<and> contents q = front q # contents (pop q)"
    and bounded: "ok q \<Longrightarrow> length (contents q) \<le> cap"
begin

lemma pushes:
  "ok q \<Longrightarrow> length (contents q) + length cs \<le> cap \<Longrightarrow> ok (fold push cs q) \<and> contents (fold push cs q) = contents q @ cs"
proof (induction cs arbitrary: q)
  case (Cons c cs)
  then have p: "ok (push c q) \<and> contents (push c q) = contents q @ [c]" by (intro push) simp_all
  with Cons show ?case by simp
qed simp

lemma pops:
  "ok q \<Longrightarrow> n \<le> length (contents q) \<Longrightarrow>
   ok ((pop ^^ n) q) \<and> contents ((pop ^^ n) q) = drop n (contents q) \<and> (\<forall>i<n. front ((pop ^^ i) q) = contents q ! i)"
proof (induction n)
  case (Suc n)
  then have IH: "ok ((pop ^^ n) q)" "contents ((pop ^^ n) q) = drop n (contents q)" "\<forall>i<n. front ((pop ^^ i) q) = contents q ! i" by simp_all
  have "contents ((pop ^^ n) q) \<noteq> []" using IH(2) Suc.prems by simp
  from pop [OF IH(1) this] have p: "ok (pop ((pop ^^ n) q))" "drop n (contents q) = front ((pop ^^ n) q) # contents (pop ((pop ^^ n) q))"
    using IH(2) by simp_all
  have d: "drop n (contents q) = contents q ! n # drop (Suc n) (contents q)" using Suc.prems by (simp add: Cons_nth_drop_Suc)
  have "front ((pop ^^ n) q) = contents q ! n" "contents (pop ((pop ^^ n) q)) = drop (Suc n) (contents q)" using p(2) d by simp_all
  with IH p(1) show ?case by (simp add: less_Suc_eq)
qed simp

end

section \<open>The buffer of a pipe\<close>

definition content :: "pipe \<Rightarrow> bytes" where
  "content x = segment (pdata x) PIPESIZE (nread x) (nwrite x)"

definition pipe_ok :: "pipe \<Rightarrow> bool" where
  "pipe_ok x \<longleftrightarrow> unat (nwrite x - nread x) \<le> PIPESIZE"

definition pipe_front :: "pipe \<Rightarrow> u8" where
  "pipe_front x = pdata x (unat (nread x) mod PIPESIZE)"

definition pipe_pop :: "pipe \<Rightarrow> pipe" where
  "pipe_pop x = x\<lparr>nread := nread x + 1\<rparr>"

lemma content_length [simp]: "length (content x) = unat (nwrite x - nread x)"
  by (simp add: content_def)

lemma pipesize: "PIPESIZE dvd 2 ^ 32" "PIPESIZE < 2 ^ 32"
  by (simp_all add: PIPESIZE_def)

interpretation pipeq: byte_queue content pipe_ok PIPESIZE pipe_push pipe_front pipe_pop
proof unfold_locales
  fix x c assume ok: "pipe_ok x" and l: "length (content x) < PIPESIZE"
  have "unat (nwrite x + 1 - nread x) = Suc (unat (nwrite x - nread x))" using l pipesize by (intro unat_diff_inc) simp
  then show "pipe_ok (pipe_push c x) \<and> content (pipe_push c x) = content x @ [c]"
    using l segment_push [OF pipesize, of "nwrite x" "nread x" "pdata x" c] by (simp add: pipe_ok_def content_def pipe_push_def)
next
  fix x assume ok: "pipe_ok x" and ne: "content x \<noteq> []"
  then have "nwrite x \<noteq> nread x" by (simp add: content_def)
  then show "pipe_ok (pipe_pop x) \<and> content x = pipe_front x # content (pipe_pop x)"
    using ok segment_pop [of "nwrite x" "nread x" "pdata x" PIPESIZE] unat_diff_Suc [of "nwrite x" "nread x"]
    by (simp add: pipe_ok_def content_def pipe_front_def pipe_pop_def)
next
  fix x assume "pipe_ok x"
  then show "length (content x) \<le> PIPESIZE" by (simp add: pipe_ok_def)
qed

lemma full_iff: "nwrite x = nread x + of_nat PIPESIZE \<longleftrightarrow> length (content x) = PIPESIZE"
proof
  assume "length (content x) = PIPESIZE"
  then have "of_nat (unat (nwrite x - nread x)) = (of_nat PIPESIZE :: u32)" by (simp only: content_length)
  then have "nwrite x - nread x = of_nat PIPESIZE" by simp
  then show "nwrite x = nread x + of_nat PIPESIZE" by (simp add: algebra_simps)
qed (simp add: PIPESIZE_def)

lemma empty_iff: "content x = [] \<longleftrightarrow> nread x = nwrite x"
proof
  assume "content x = []"
  then have "unat (nwrite x - nread x) = 0" using content_length [of x] by simp
  then have "nwrite x - nread x = 0" by (simp only: unat_eq_0)
  then show "nread x = nwrite x" by simp
qed (simp add: content_def)

section \<open>Writing\<close>

lemma quiet_pipes: "quiet me s t \<Longrightarrow> pipes t = pipes s"
  by (auto simp: quiet_def)

lemma pipe_done_runs:
  fixes s :: "'a pipetab_scheme"
  assumes c: "calm me {PipeLock pi} s"
  shows "\<exists>t. pipe_done pi ch i s = Some (Return i, t) \<and> calm me {} t \<and> all_woken me ch t \<and> quiet me s t"
proof -
  let ?t = "s\<lparr>cpus := settled s, procs := wake_all (Some ch) (Some me) [0..<NPROC] (procs s)\<rparr>"
  have w: "wakeup (Some ch) s = Some ?t" by (rule wakeup_only [OF c]) simp
  obtain t where t: "wakeup (Some ch) s = Some t" "calm me {PipeLock pi} t" "quiet me s t"
    using calm_wakeup [OF c, of "Some ch"] by (auto elim!: runsE)
  obtain u where u: "release (PipeLock pi) t = Some u" "calm me {} u" "u = t\<lparr>cpus := cpus u, locks := locks u\<rparr>"
    using release_only [OF t(2), of "PipeLock pi"] by auto
  have "procs u = procs ?t" using w t(1) by (subst u(3)) simp
  then have "all_woken me ch u" by (intro all_woken_wake_all) simp
  moreover have "quiet me s u" by (rule quiet_trans [OF t(3)], subst u(3)) (rule quiet_locks)
  ultimately show ?thesis using t u by (simp add: pipe_done_def)
qed

declare pipewrite_loop.simps [simp del] piperead_copy.simps [simp del]

text \<open>One turn of the loop, and as many as there is room for.\<close>

lemma calm_pipe: "calm me A s \<Longrightarrow> calm me A (s\<lparr>cpus := settled s, pipes := x\<rparr>)"
  by (simp add: calm_def)

lemma pipewrite_step:
  fixes s :: "'a pipetab_scheme"
  assumes c: "calm me {PipeLock pi} s" and nk: "\<not> pkilled (procs s me)" and ro: "readopen (pipes s pi)"
    and room: "length (content (pipes s pi)) < PIPESIZE" and us: "uspace (mem s) (pagetable (procs s me))"
    and r: "user_range (mem s) (pagetable (procs s me)) (addr + word_of_int i) 1" and lt: "i < n"
  shows "pipewrite_loop pi me addr n i s = pipewrite_loop pi me addr n (i + 1)
    (s\<lparr>cpus := settled s, pipes := (pipes s)(pi := pipe_push (hd (ubytes (mem s) (pagetable (procs s me)) (addr + word_of_int i) 1)) (pipes s pi))\<rparr>)"
proof -
  let ?a = "s\<lparr>cpus := settled s\<rparr>"
  have k: "killed me s = Some (False, ?a)"
    using killed_eq [OF calm_free [OF c] calm_intr_ok [OF c], of me] nk by simp
  have f: "nwrite (pipes s pi) \<noteq> nread (pipes s pi) + of_nat PIPESIZE" using room by (simp add: full_iff)
  have i: "copyin (pagetable (procs s me)) (addr + word_of_int i) 1 ?a = Some (0, ubytes (mem s) (pagetable (procs s me)) (addr + word_of_int i) 1, ?a)"
    using copyin_ubytes [of ?a "pagetable (procs s me)" "addr + word_of_int i" 1] us r by simp
  show ?thesis
    unfolding pipewrite_loop.simps [of pi me addr n i] using i by (simp add: lt ro k f upd_pipe_def)
qed

lemma pipe_push_open [simp]: "readopen (pipe_push c x) = readopen x"
  by (simp add: pipe_push_def)

lemma pipewrite_steps:
  fixes s :: "'a pipetab_scheme"
  assumes "calm me {PipeLock pi} s" and "\<not> pkilled (procs s me)" and "readopen (pipes s pi)" and "pipe_ok (pipes s pi)"
    and "length (content (pipes s pi)) + j \<le> PIPESIZE" and "uspace (mem s) (pagetable (procs s me))"
    and "user_range (mem s) (pagetable (procs s me)) (addr + word_of_int i) j" and "i + int j \<le> n"
  shows "\<exists>c. calm me {PipeLock pi} (s\<lparr>cpus := c\<rparr>) \<and> pipewrite_loop pi me addr n i s = pipewrite_loop pi me addr n (i + int j)
    (s\<lparr>cpus := c, pipes := (pipes s)(pi := fold pipe_push (ubytes (mem s) (pagetable (procs s me)) (addr + word_of_int i) j) (pipes s pi))\<rparr>)"
  using assms
proof (induction j arbitrary: i s)
  case 0
  then show ?case by (intro exI [of _ "cpus s"]) (simp add: ubytes_def)
next
  case (Suc j)
  let ?pt = "pagetable (procs s me)"
  let ?b = "hd (ubytes (mem s) ?pt (addr + word_of_int i) 1)"
  let ?s = "s\<lparr>cpus := settled s, pipes := (pipes s)(pi := pipe_push ?b (pipes s pi))\<rparr>"
  have b: "ubytes (mem s) ?pt (addr + word_of_int i) (Suc j) = ?b # ubytes (mem s) ?pt (addr + word_of_int (i + 1)) j"
    using ubytes_split [of "mem s" ?pt "addr + word_of_int i" 1 j] by (simp add: ubytes_def algebra_simps)
  have r1: "user_range (mem s) ?pt (addr + word_of_int i) 1" using user_range_mono [OF Suc.prems(7), of 1] by simp
  have r2: "user_range (mem s) ?pt (addr + word_of_int (i + 1)) j"
    using user_range_drop [OF Suc.prems(7), of 1] by (simp add: algebra_simps)
  have p: "pipe_ok (pipe_push ?b (pipes s pi)) \<and> content (pipe_push ?b (pipes s pi)) = content (pipes s pi) @ [?b]"
    using Suc.prems by (intro pipeq.push) simp_all
  have l: "length (content (pipe_push ?b (pipes s pi))) + j \<le> PIPESIZE"
    using Suc.prems(5) p by (simp del: content_length)
  have "\<exists>c. calm me {PipeLock pi} (?s\<lparr>cpus := c\<rparr>) \<and> pipewrite_loop pi me addr n (i + 1) ?s = pipewrite_loop pi me addr n (i + 1 + int j)
    (?s\<lparr>cpus := c, pipes := (pipes ?s)(pi := fold pipe_push (ubytes (mem ?s) (pagetable (procs ?s me)) (addr + word_of_int (i + 1)) j) (pipes ?s pi))\<rparr>)"
    by (rule Suc.IH) (use Suc.prems p l r2 calm_pipe in \<open>simp_all del: content_length\<close>)
  then obtain c where c: "calm me {PipeLock pi} (?s\<lparr>cpus := c\<rparr>)" and e: "pipewrite_loop pi me addr n (i + 1) ?s = pipewrite_loop pi me addr n (i + 1 + int j)
    (?s\<lparr>cpus := c, pipes := (pipes ?s)(pi := fold pipe_push (ubytes (mem ?s) (pagetable (procs ?s me)) (addr + word_of_int (i + 1)) j) (pipes ?s pi))\<rparr>)"
    by (elim exE conjE) (rule that)
  have st: "pipewrite_loop pi me addr n i s = pipewrite_loop pi me addr n (i + 1) ?s"
    using Suc.prems r1 by (intro pipewrite_step) simp_all
  have u: "?s\<lparr>cpus := c, pipes := (pipes ?s)(pi := fold pipe_push (ubytes (mem ?s) (pagetable (procs ?s me)) (addr + word_of_int (i + 1)) j) (pipes ?s pi))\<rparr> =
    s\<lparr>cpus := c, pipes := (pipes s)(pi := fold pipe_push (ubytes (mem s) ?pt (addr + word_of_int i) (Suc j)) (pipes s pi))\<rparr>"
    unfolding b by simp
  have k: "i + 1 + int j = i + int (Suc j)" by simp
  have "calm me {PipeLock pi} (s\<lparr>cpus := c\<rparr>)" by (rule calm_cong [OF c]) simp_all
  then show ?case unfolding st e u k by (intro exI [of _ c] conjI refl)
qed

text \<open>
  What a write does: with room for everything it returns, having appended the bytes; otherwise it fills the
  buffer and waits for a reader, having woken those that wait for data.
\<close>

definition pipe_frame :: "u64 \<Rightarrow> 'a pipetab_scheme \<Rightarrow> 'a pipetab_scheme \<Rightarrow> bool" where
  "pipe_frame pi s t \<longleftrightarrow> mem t = mem s \<and> freelist t = freelist s \<and> (\<forall>q. q \<noteq> pi \<longrightarrow> pipes t q = pipes s q) \<and>
     readopen (pipes t pi) = readopen (pipes s pi) \<and> writeopen (pipes t pi) = writeopen (pipes s pi)"

lemma fold_push_open [simp]:
  "readopen (fold pipe_push cs x) = readopen x" "writeopen (fold pipe_push cs x) = writeopen x" "nread (fold pipe_push cs x) = nread x"
  by (induction cs arbitrary: x) (simp_all add: pipe_push_def)

lemma pipewrite_loop_all:
  fixes s :: "'a pipetab_scheme"
  assumes a: "calm me {PipeLock pi} s" "\<not> pkilled (procs s me)" "readopen (pipes s pi)" "pipe_ok (pipes s pi)"
    "length (content (pipes s pi)) + k \<le> PIPESIZE" "uspace (mem s) (pagetable (procs s me))"
    "user_range (mem s) (pagetable (procs s me)) (addr + word_of_int i) k" "n = i + int k"
  shows "\<exists>t. pipewrite_loop pi me addr n i s = Some (Return n, t) \<and> calm me {} t \<and> all_woken me (ChanPipeRead pi) t \<and>
    pipe_frame pi s t \<and> pipe_ok (pipes t pi) \<and>
    content (pipes t pi) = content (pipes s pi) @ ubytes (mem s) (pagetable (procs s me)) (addr + word_of_int i) k"
proof -
  let ?bs = "ubytes (mem s) (pagetable (procs s me)) (addr + word_of_int i) k"
  have lb: "length ?bs = k" by (simp add: ubytes_def)
  obtain c where c: "calm me {PipeLock pi} (s\<lparr>cpus := c\<rparr>)" "pipewrite_loop pi me addr n i s = pipewrite_loop pi me addr n (i + int k)
    (s\<lparr>cpus := c, pipes := (pipes s)(pi := fold pipe_push ?bs (pipes s pi))\<rparr>)"
    using pipewrite_steps [OF a(1-7), of n] a(8) by auto
  let ?s = "s\<lparr>cpus := c, pipes := (pipes s)(pi := fold pipe_push ?bs (pipes s pi))\<rparr>"
  have cs: "calm me {PipeLock pi} ?s" by (rule calm_cong [OF c(1)]) simp_all
  obtain t where t: "pipe_done pi (ChanPipeRead pi) n ?s = Some (Return n, t)" "calm me {} t" "all_woken me (ChanPipeRead pi) t" "quiet me ?s t"
    using pipe_done_runs [OF cs] by blast
  have "pipewrite_loop pi me addr n i s = Some (Return n, t)"
    unfolding c(2) using a(8) t(1) by (simp add: pipewrite_loop.simps)
  moreover have "pipes t = pipes ?s" "mem t = mem s" "freelist t = freelist s" using quiet_pipes [OF t(4)] quiet_sel [OF t(4)] by simp_all
  moreover have "pipe_ok (fold pipe_push ?bs (pipes s pi)) \<and> content (fold pipe_push ?bs (pipes s pi)) = content (pipes s pi) @ ?bs"
    by (rule pipeq.pushes [OF a(4)]) (use a(5) lb in \<open>simp del: content_length\<close>)
  ultimately show ?thesis using t(2,3) by (intro exI [of _ t]) (simp add: pipe_frame_def del: content_length)
qed

lemma pipewrite_loop_full:
  fixes s :: "'a pipetab_scheme"
  assumes a: "calm me {PipeLock pi} s" "\<not> pkilled (procs s me)" "readopen (pipes s pi)" "pipe_ok (pipes s pi)"
    "length (content (pipes s pi)) + k = PIPESIZE" "uspace (mem s) (pagetable (procs s me))"
    "user_range (mem s) (pagetable (procs s me)) (addr + word_of_int i) k" "i + int k < n"
  shows "\<exists>l t. pipewrite_loop pi me addr n i s = Some (Blocked (i + int k) l, t) \<and> fst l = me \<and> asleep_on me (ChanPipeWrite pi) t \<and>
    all_woken me (ChanPipeRead pi) t \<and> pipe_frame pi s t \<and> pipe_ok (pipes t pi) \<and>
    content (pipes t pi) = content (pipes s pi) @ ubytes (mem s) (pagetable (procs s me)) (addr + word_of_int i) k"
proof -
  let ?bs = "ubytes (mem s) (pagetable (procs s me)) (addr + word_of_int i) k"
  let ?x = "fold pipe_push ?bs (pipes s pi)"
  have lb: "length ?bs = k" by (simp add: ubytes_def)
  obtain c where c: "calm me {PipeLock pi} (s\<lparr>cpus := c\<rparr>)" "pipewrite_loop pi me addr n i s = pipewrite_loop pi me addr n (i + int k)
    (s\<lparr>cpus := c, pipes := (pipes s)(pi := ?x)\<rparr>)"
    using pipewrite_steps [OF a(1-4) _ a(6,7), of n] a(5,8) by auto
  let ?s = "s\<lparr>cpus := c, pipes := (pipes s)(pi := ?x)\<rparr>"
  have cs: "calm me {PipeLock pi} ?s" by (rule calm_cong [OF c(1)]) simp_all
  have p: "pipe_ok ?x \<and> content ?x = content (pipes s pi) @ ?bs"
    by (rule pipeq.pushes [OF a(4)]) (use a(5) lb in \<open>simp del: content_length\<close>)
  have f: "nwrite ?x = nread ?x + of_nat PIPESIZE" unfolding full_iff using p a(5) lb by (simp del: content_length)
  let ?a = "?s\<lparr>cpus := settled ?s\<rparr>"
  have k: "killed me ?s = Some (False, ?a)"
    using killed_eq [OF calm_free [OF cs] calm_intr_ok [OF cs], of me] a(2) by simp
  let ?w = "?a\<lparr>cpus := settled ?a, procs := wake_all (Some (ChanPipeRead pi)) (Some me) [0..<NPROC] (procs s)\<rparr>"
  have ca: "calm me {PipeLock pi} ?a" using calm_settled [OF cs] .
  have w: "wakeup (Some (ChanPipeRead pi)) ?a = Some ?w"
    using wakeup_only [OF ca, of "Some (ChanPipeRead pi)"] by simp
  have cw: "calm me {PipeLock pi} ?w" by (rule calm_cong [OF calm_settled [OF ca]]) simp_all
  have aw: "all_woken me (ChanPipeRead pi) ?w" by (rule all_woken_wake_all) simp
  obtain l t where t: "sleep_enter (ChanPipeWrite pi) (PipeLock pi) ?w = Some (l, t)" "asleep_on me (ChanPipeWrite pi) t" "fst l = me"
    and te: "t = ?w\<lparr>cpus := cpus t, locks := locks t, procs := (procs ?w)(me := (procs ?w me)\<lparr>pchan := Some (ChanPipeWrite pi), pstate := SLEEPING\<rparr>)\<rparr>"
    using sleep_enter_runs [OF cw, of "ChanPipeWrite pi"] by auto
  have "pipewrite_loop pi me addr n i s = Some (Blocked (i + int k) l, t)"
    unfolding c(2) using a(3,8) f k w t(1) by (simp add: pipewrite_loop.simps [of pi me addr n "i + int k"])
  moreover have "pipes t = pipes ?s" "mem t = mem s" "freelist t = freelist s" by (subst te, simp)+
  moreover have "procs t = (procs ?w)(me := (procs ?w me)\<lparr>pchan := Some (ChanPipeWrite pi), pstate := SLEEPING\<rparr>)" by (subst te) simp
  then have "all_woken me (ChanPipeRead pi) t" using aw by (simp add: all_woken_def)
  ultimately show ?thesis using t(2,3) p by (intro exI [of _ l] exI [of _ t]) (simp add: pipe_frame_def del: content_length)
qed

section \<open>Reading\<close>

lemma piperead_step:
  fixes s :: "'a pipetab_scheme"
  assumes ne: "content (pipes s pi) \<noteq> []" and us: "uspace (mem s) (pagetable (procs s me))" and lt: "i < n"
    and r: "user_range (mem s) (pagetable (procs s me)) a 1" "writable (mem s) (pagetable (procs s me)) a 1" and a: "a = addr + word_of_int i"
  shows "\<exists>m. piperead_copy pi me addr n i s = piperead_copy pi me addr n (i + 1)
      (s\<lparr>mem := m, pipes := (pipes s)(pi := pipe_pop (pipes s pi))\<rparr>) \<and>
    uspace m (pagetable (procs s me)) \<and> (\<forall>w. leaf 2 m (pagetable (procs s me)) w = leaf 2 (mem s) (pagetable (procs s me)) w) \<and>
    (\<forall>w. uview m (pagetable (procs s me)) w = (if unat w = unat a then Some (pipe_front (pipes s pi)) else uview (mem s) (pagetable (procs s me)) w))"
proof -
  let ?pt = "pagetable (procs s me)" and ?c = "pipe_front (pipes s pi)"
  obtain m where m: "copyout ?pt a [?c] s = Some (0, s\<lparr>mem := m\<rparr>)" "uspace m ?pt" "\<forall>w. leaf 2 m ?pt w = leaf 2 (mem s) ?pt w"
    "\<forall>w. uview m ?pt w = (if unat a \<le> unat w \<and> unat w < unat a + length [?c] then Some ([?c] ! (unat w - unat a)) else uview (mem s) ?pt w)"
    using copyout_writes [OF us, of a "[?c]"] r by (auto simp only: list.size One_nat_def add_Suc_right add_0_right)
  have "nread (pipes s pi) \<noteq> nwrite (pipes s pi)" using ne by (auto simp: content_def)
  then have "piperead_copy pi me addr n i s = piperead_copy pi me addr n (i + 1) (s\<lparr>mem := m, pipes := (pipes s)(pi := pipe_pop (pipes s pi))\<rparr>)"
    using m(1) lt by (simp add: piperead_copy.simps [of pi me addr n i] a pipe_front_def upd_pipe_def pipe_pop_def)
  with m(2-4) show ?thesis by (intro exI [of _ m]) (auto simp: le_antisym)
qed

lemma piperead_steps:
  fixes s :: "'a pipetab_scheme"
  assumes ok: "pipe_ok (pipes s pi)" and us: "uspace (mem s) (pagetable (procs s me))"
    and r: "user_range (mem s) (pagetable (procs s me)) addr k" "writable (mem s) (pagetable (procs s me)) addr k"
    and len: "k \<le> length (content (pipes s pi))" and n: "int k \<le> n"
  shows "\<exists>m. piperead_copy pi me addr n 0 s = piperead_copy pi me addr n (int k)
      (s\<lparr>mem := m, pipes := (pipes s)(pi := (pipe_pop ^^ k) (pipes s pi))\<rparr>) \<and>
    uspace m (pagetable (procs s me)) \<and> (\<forall>w. leaf 2 m (pagetable (procs s me)) w = leaf 2 (mem s) (pagetable (procs s me)) w) \<and>
    (\<forall>w. uview m (pagetable (procs s me)) w =
      (if unat addr \<le> unat w \<and> unat w < unat addr + k then Some (content (pipes s pi) ! (unat w - unat addr)) else uview (mem s) (pagetable (procs s me)) w))"
  using r len n
proof (induction k)
  case 0
  then show ?case using us by (intro exI [of _ "mem s"]) auto
next
  case (Suc k)
  let ?pt = "pagetable (procs s me)" and ?a = "addr + of_nat k" and ?x = "(pipe_pop ^^ k) (pipes s pi)"
  have rk: "user_range (mem s) ?pt addr k" "writable (mem s) ?pt addr k"
    using Suc.prems(1,2) by (auto simp: user_range_def writable_def)
  have lk: "k \<le> length (content (pipes s pi))" "int k \<le> n" using Suc.prems(3,4) by simp_all
  obtain m where m: "piperead_copy pi me addr n 0 s = piperead_copy pi me addr n (int k) (s\<lparr>mem := m, pipes := (pipes s)(pi := ?x)\<rparr>)"
    "uspace m ?pt" "\<forall>w. leaf 2 m ?pt w = leaf 2 (mem s) ?pt w"
    "\<forall>w. uview m ?pt w = (if unat addr \<le> unat w \<and> unat w < unat addr + k then Some (content (pipes s pi) ! (unat w - unat addr)) else uview (mem s) ?pt w)"
    using Suc.IH [OF rk lk] by (elim exE conjE) (rule that)
  let ?s = "s\<lparr>mem := m, pipes := (pipes s)(pi := ?x)\<rparr>"
  have p: "content ?x = drop k (content (pipes s pi))" "pipe_ok ?x" using pipeq.pops [OF ok, of k] Suc.prems(3) by auto
  have ne: "content ?x \<noteq> []" using p(1) Suc.prems(3) by (simp del: content_length)
  have fr: "pipe_front ?x = content (pipes s pi) ! k" using pipeq.pops [OF ok, of "Suc k"] Suc.prems(3) by auto
  have ua: "unat ?a = unat addr + k" using Suc.prems(1) by (intro unat_plus) (simp add: user_range_def unat_MAXVA)
  have r1: "user_range m ?pt ?a 1" "writable m ?pt ?a 1"
    using Suc.prems(1,2) m(3) ua by (auto simp: user_range_def writable_def user_ok_def frame_of_def)
  have sel: "pipes ?s pi = ?x" "mem ?s = m" "procs ?s = procs s" by simp_all
  have prem: "content (pipes ?s pi) \<noteq> []" "uspace (mem ?s) (pagetable (procs ?s me))" "int k < n"
    "user_range (mem ?s) (pagetable (procs ?s me)) ?a 1" "writable (mem ?s) (pagetable (procs ?s me)) ?a 1" "?a = addr + word_of_int (int k)"
    unfolding sel by (fact ne m(2) r1 | use Suc.prems(4) in simp)+
  note st = piperead_step [OF prem]
  obtain m' where m': "piperead_copy pi me addr n (int k) ?s = piperead_copy pi me addr n (int k + 1) (?s\<lparr>mem := m', pipes := (pipes ?s)(pi := pipe_pop ?x)\<rparr>)"
    "uspace m' ?pt" "\<forall>w. leaf 2 m' ?pt w = leaf 2 m ?pt w"
    "\<forall>w. uview m' ?pt w = (if unat w = unat ?a then Some (pipe_front ?x) else uview m ?pt w)"
    using st [unfolded sel] by (elim exE conjE) (rule that)
  have "piperead_copy pi me addr n 0 s = piperead_copy pi me addr n (int (Suc k)) (s\<lparr>mem := m', pipes := (pipes s)(pi := (pipe_pop ^^ Suc k) (pipes s pi))\<rparr>)"
    unfolding m(1) m'(1) by (simp add: add.commute)
  moreover have "\<forall>w. leaf 2 m' ?pt w = leaf 2 (mem s) ?pt w" using m'(3) m(3) by simp
  moreover have "uview m' ?pt w = (if unat addr \<le> unat w \<and> unat w < unat addr + Suc k then Some (content (pipes s pi) ! (unat w - unat addr)) else uview (mem s) ?pt w)" for w
    using m'(4) m(4) fr ua by auto
  ultimately show ?case using m'(2) by (intro exI [of _ m']) blast
qed

lemma piperead_copy_runs:
  fixes s :: "'a pipetab_scheme"
  assumes c: "calm me {PipeLock pi} s" and ok: "pipe_ok (pipes s pi)" and us: "uspace (mem s) (pagetable (procs s me))"
    and k: "k = min n (length (content (pipes s pi)))"
    and r: "user_range (mem s) (pagetable (procs s me)) addr k" "writable (mem s) (pagetable (procs s me)) addr k"
  shows "\<exists>t. piperead_copy pi me addr (int n) 0 s = Some (Return (int k), t) \<and> calm me {} t \<and> all_woken me (ChanPipeWrite pi) t \<and>
    pipe_ok (pipes t pi) \<and> content (pipes t pi) = drop k (content (pipes s pi)) \<and>
    (\<forall>w. uview (mem t) (pagetable (procs s me)) w =
      (if unat addr \<le> unat w \<and> unat w < unat addr + k then Some (content (pipes s pi) ! (unat w - unat addr)) else uview (mem s) (pagetable (procs s me)) w))"
proof -
  let ?pt = "pagetable (procs s me)" and ?x = "(pipe_pop ^^ k) (pipes s pi)"
  have kl: "k \<le> length (content (pipes s pi))" "int k \<le> int n" using k by simp_all
  obtain m where m: "piperead_copy pi me addr (int n) 0 s = piperead_copy pi me addr (int n) (int k) (s\<lparr>mem := m, pipes := (pipes s)(pi := ?x)\<rparr>)"
    "\<forall>w. uview m ?pt w = (if unat addr \<le> unat w \<and> unat w < unat addr + k then Some (content (pipes s pi) ! (unat w - unat addr)) else uview (mem s) ?pt w)"
    using piperead_steps [OF ok us r kl] by (elim exE conjE) (rule that)
  let ?s = "s\<lparr>mem := m, pipes := (pipes s)(pi := ?x)\<rparr>"
  have p: "pipe_ok ?x" "content ?x = drop k (content (pipes s pi))" using pipeq.pops [OF ok kl(1)] by auto
  have stop: "nread ?x = nwrite ?x" if "int k < int n"
  proof -
    have "content ?x = []" using that k p(2) by (simp del: content_length)
    then show ?thesis by (simp only: empty_iff)
  qed
  have cs: "calm me {PipeLock pi} ?s" by (rule calm_cong [OF c]) simp_all
  obtain t where t: "pipe_done pi (ChanPipeWrite pi) (int k) ?s = Some (Return (int k), t)" "calm me {} t" "all_woken me (ChanPipeWrite pi) t" "quiet me ?s t"
    using pipe_done_runs [OF cs, of "ChanPipeWrite pi" "int k"] by (elim exE conjE) (rule that)
  have "piperead_copy pi me addr (int n) (int k) ?s = Some (Return (int k), t)"
    using t(1) stop by (simp add: piperead_copy.simps [of pi me addr "int n" "int k"])
  moreover have "pipes t pi = ?x" "mem t = m" using quiet_pipes [OF t(4)] quiet_sel(2) [OF t(4)] by simp_all
  ultimately show ?thesis using t(2,3) p m by (intro exI [of _ t]) simp
qed

lemma piperead_waits:
  fixes s :: "'a pipetab_scheme"
  assumes c: "calm me {PipeLock pi} s" and nk: "\<not> pkilled (procs s me)" and e: "content (pipes s pi) = []" and w: "writeopen (pipes s pi)"
  shows "\<exists>l t. piperead_wait pi me addr n s = Some (Blocked 0 l, t) \<and> fst l = me \<and> asleep_on me (ChanPipeRead pi) t \<and> pipe_frame pi s t \<and> pipes t pi = pipes s pi"
proof -
  let ?a = "s\<lparr>cpus := settled s\<rparr>"
  have k: "killed me s = Some (False, ?a)"
    using killed_eq [OF calm_free [OF c] calm_intr_ok [OF c], of me] nk by simp
  obtain l t where t: "sleep_enter (ChanPipeRead pi) (PipeLock pi) ?a = Some (l, t)" "asleep_on me (ChanPipeRead pi) t" "fst l = me"
    and te: "t = ?a\<lparr>cpus := cpus t, locks := locks t, procs := (procs ?a)(me := (procs ?a me)\<lparr>pchan := Some (ChanPipeRead pi), pstate := SLEEPING\<rparr>)\<rparr>"
    using sleep_enter_runs [OF calm_settled [OF c], of "ChanPipeRead pi"] by auto
  have "nread (pipes s pi) = nwrite (pipes s pi)" using e by (simp only: empty_iff)
  then have "piperead_wait pi me addr n s = Some (Blocked 0 l, t)" using w k t(1) by (simp add: piperead_wait_def)
  moreover have "pipes t = pipes s" "mem t = mem s" "freelist t = freelist s" by (subst te, simp)+
  ultimately show ?thesis using t(2,3) by (simp add: pipe_frame_def)
qed

lemma pipe_enter:
  fixes s :: "'a pipetab_scheme"
  assumes c: "calm me {} s"
  obtains b where "myproc s = Some (Some me, s\<lparr>cpus := settled s\<rparr>)" "acquire (PipeLock pi) (s\<lparr>cpus := settled s\<rparr>) = Some b"
    "calm me {PipeLock pi} b" "mem b = mem s" "procs b = procs s" "pipes b = pipes s" "freelist b = freelist s"
proof -
  have m: "myproc s = Some (Some me, s\<lparr>cpus := settled s\<rparr>)" using myproc_eq [OF calm_intr_ok [OF c]] calm_cproc [OF c] by simp
  obtain b where b: "acquire (PipeLock pi) (s\<lparr>cpus := settled s\<rparr>) = Some b" "calm me {PipeLock pi} b"
    "b = s\<lparr>cpus := settled s\<rparr>\<lparr>cpus := cpus b, locks := locks b\<rparr>"
    using acquire_only [OF calm_settled [OF c], of "PipeLock pi"] by auto
  have "mem b = mem s" "procs b = procs s" "pipes b = pipes s" "freelist b = freelist s" by (subst b(3), simp)+
  with m b(1,2) show thesis by (rule that)
qed

section \<open>Pipes are queues\<close>

text \<open>C21. A write to a pipe with an open read end takes the bytes from the writer's memory in order: if they fit
  into the 512 bytes of the buffer it appends them all, wakes every process waiting for data and returns their
  number; otherwise it fills the buffer exactly, wakes the readers and goes to sleep waiting for room, having
  released the pipe's lock. It changes neither memory nor any other pipe.\<close>

theorem pipe_write_appends:
  fixes s :: "'a pipetab_scheme"
  assumes "calm me {} s" and "\<not> pkilled (procs s me)" and "readopen (pipes s pi)" and "pipe_ok (pipes s pi)"
    and "uspace (mem s) (pagetable (procs s me))" and "user_range (mem s) (pagetable (procs s me)) addr n"
    and "room = PIPESIZE - length (content (pipes s pi))"
  shows "\<exists>r t. pipewrite pi addr (int n) s = Some (r, t) \<and> pipe_frame pi s t \<and> pipe_ok (pipes t pi) \<and>
    content (pipes t pi) = content (pipes s pi) @ ubytes (mem s) (pagetable (procs s me)) addr (min n room) \<and>
    all_woken me (ChanPipeRead pi) t \<and>
    (if n \<le> room then r = Return (int n) \<and> calm me {} t
     else (\<exists>i. r = Blocked (int room) (me, i)) \<and> asleep_on me (ChanPipeWrite pi) t)"
proof -
  from pipe_enter [OF assms(1), of pi] obtain b where b: "myproc s = Some (Some me, s\<lparr>cpus := settled s\<rparr>)"
    "acquire (PipeLock pi) (s\<lparr>cpus := settled s\<rparr>) = Some b" "calm me {PipeLock pi} b"
    and sel: "mem b = mem s" "procs b = procs s" "pipes b = pipes s" "freelist b = freelist s" .
  have w: "pipewrite pi addr (int n) s = pipewrite_loop pi me addr (int n) 0 b" using b(1,2) by (simp add: pipewrite_def deref_def)
  have fr: "pipe_frame pi b t = pipe_frame pi s t" for t using sel by (simp add: pipe_frame_def)
  have le: "length (content (pipes s pi)) \<le> PIPESIZE" using assms(4) by (rule pipeq.bounded)
  show ?thesis
  proof (cases "n \<le> room")
    case True
    then have "length (content (pipes s pi)) + n \<le> PIPESIZE" using assms(7) le by linarith
    with pipewrite_loop_all [of me pi b n addr 0 "int n", unfolded sel fr] obtain t where
      "pipewrite_loop pi me addr (int n) 0 b = Some (Return (int n), t)" "calm me {} t" "all_woken me (ChanPipeRead pi) t" "pipe_frame pi s t"
      "pipe_ok (pipes t pi)" "content (pipes t pi) = content (pipes s pi) @ ubytes (mem s) (pagetable (procs s me)) addr n"
      using assms b(3) True le by (auto simp del: content_length)
    with w True show ?thesis by (intro exI [of _ "Return (int n)"] exI [of _ t]) simp
  next
    case False
    have "length (content (pipes s pi)) + room = PIPESIZE" using assms(7) le by linarith
    with pipewrite_loop_full [of me pi b room addr 0 "int n", unfolded sel fr] obtain l t where
      "pipewrite_loop pi me addr (int n) 0 b = Some (Blocked (int room) l, t)" "fst l = me" "asleep_on me (ChanPipeWrite pi) t" "all_woken me (ChanPipeRead pi) t"
      "pipe_frame pi s t" "pipe_ok (pipes t pi)" "content (pipes t pi) = content (pipes s pi) @ ubytes (mem s) (pagetable (procs s me)) addr room"
      using assms b(3) False le user_range_mono [OF assms(6), of room] by (auto simp del: content_length)
    with w False show ?thesis by (intro exI [of _ "Blocked (int room) l"] exI [of _ t]) (cases l, simp)
  qed
qed

text \<open>C22. A read from a pipe that holds data, or whose write end is closed, delivers the oldest bytes to the
  reader's memory, as many as were asked for and are there, removes exactly these from the pipe and wakes the
  waiting writers; of the reader's memory nothing else changes. A read from an empty pipe that can still be
  written goes to sleep.\<close>

theorem pipe_read_takes:
  fixes s :: "'a pipetab_scheme"
  assumes "calm me {} s" and "\<not> pkilled (procs s me)" and "pipe_ok (pipes s pi)" and "uspace (mem s) (pagetable (procs s me))"
    and "k = min n (length (content (pipes s pi)))"
    and "user_range (mem s) (pagetable (procs s me)) addr k" and "writable (mem s) (pagetable (procs s me)) addr k"
  shows "if content (pipes s pi) = [] \<and> writeopen (pipes s pi)
    then \<exists>i t. piperead pi addr (int n) s = Some (Blocked 0 (me, i), t) \<and> asleep_on me (ChanPipeRead pi) t \<and> pipe_frame pi s t \<and> pipes t pi = pipes s pi
    else \<exists>t. piperead pi addr (int n) s = Some (Return (int k), t) \<and> calm me {} t \<and> all_woken me (ChanPipeWrite pi) t \<and>
      pipe_ok (pipes t pi) \<and> content (pipes t pi) = drop k (content (pipes s pi)) \<and>
      (\<forall>w. uview (mem t) (pagetable (procs s me)) w =
        (if unat addr \<le> unat w \<and> unat w < unat addr + k then Some (content (pipes s pi) ! (unat w - unat addr)) else uview (mem s) (pagetable (procs s me)) w))"
proof -
  from pipe_enter [OF assms(1), of pi] obtain b where b: "myproc s = Some (Some me, s\<lparr>cpus := settled s\<rparr>)"
    "acquire (PipeLock pi) (s\<lparr>cpus := settled s\<rparr>) = Some b" "calm me {PipeLock pi} b"
    and sel: "mem b = mem s" "procs b = procs s" "pipes b = pipes s" "freelist b = freelist s" .
  have w: "piperead pi addr (int n) s = piperead_wait pi me addr (int n) b" using b(1,2) by (simp add: piperead_def deref_def)
  have fr: "pipe_frame pi b t = pipe_frame pi s t" for t using sel by (simp add: pipe_frame_def)
  show ?thesis
  proof (cases "content (pipes s pi) = [] \<and> writeopen (pipes s pi)")
    case True
    from piperead_waits [of me pi b addr "int n", unfolded sel fr] obtain l t where
      "piperead_wait pi me addr (int n) b = Some (Blocked 0 l, t)" "fst l = me" "asleep_on me (ChanPipeRead pi) t" "pipe_frame pi s t" "pipes t pi = pipes s pi"
      using assms b(3) True by (auto simp del: content_length)
    with w True show ?thesis by (cases l) auto
  next
    case False
    then have "\<not> (nread (pipes s pi) = nwrite (pipes s pi) \<and> writeopen (pipes s pi))" by (auto simp: content_def)
    then have "piperead_wait pi me addr (int n) b = piperead_copy pi me addr (int n) 0 b" using sel by (auto simp: piperead_wait_def)
    with w piperead_copy_runs [OF b(3), of k n addr, unfolded sel, OF assms(3-7)] show ?thesis unfolding if_not_P [OF False] by simp
  qed
qed

text \<open>A process with one page of memory and a pipe whose counters are about to wrap around.\<close>

definition sample_pipe :: pipe where
  "sample_pipe = \<lparr>pdata = \<lambda>_. 0, nread = - 1, nwrite = - 1, readopen = True, writeopen = True\<rparr>"

definition loaded_pipe :: pipe where
  "loaded_pipe = fold pipe_push [1, 2, 3] sample_pipe"

definition piped :: "u64 \<Rightarrow> pipe \<Rightarrow> 'a pipetab_scheme \<Rightarrow> 'a pipetab_scheme" where
  "piped pt x s = s\<lparr>procs := (procs s)(0 := (procs s 0)\<lparr>pagetable := pt, pkilled := False\<rparr>), pipes := \<lambda>_. x\<rparr>"

lemma piped_sel [simp]:
  "mem (piped pt x s) = mem s" "pipes (piped pt x s) pi = x" "pagetable (procs (piped pt x s) 0) = pt" "\<not> pkilled (procs (piped pt x s) 0)"
  "calm me A (piped pt x s) = calm me A s"
  by (simp_all add: piped_def calm_def)

lemma piped_one_page:
  obtains s :: "'a pipetab_scheme" and pt where "\<exists>m. one_page m s pt" "\<And>x. uspace (mem (piped pt x s)) pt"
    "\<And>x. user_range (mem (piped pt x s)) pt 0 3" "\<And>x. writable (mem (piped pt x s)) pt 0 3" "\<And>x. calm 0 {} (piped pt x s)"
proof -
  fix m
  obtain s :: "'a pipetab_scheme" and pt where s: "one_page m s pt" "uspace (mem s) pt" "user_range (mem s) pt 0 4096" "writable (mem s) pt 0 4096" "calm 0 {} s"
    using one_page_ok [of m] by (elim exE conjE) (rule that)
  have "user_range (mem s) pt 0 3" using user_range_mono [OF s(3)] by simp
  moreover have "writable (mem s) pt 0 3" using s(4) by (simp add: writable_def)
  ultimately show thesis using s by (intro that [of s pt]) (auto intro: exI [of _ m])
qed

lemma sample_content:
  "pipe_ok sample_pipe" "content sample_pipe = []" "pipe_ok loaded_pipe" "content loaded_pipe = [1, 2, 3]"
proof -
  show e: "pipe_ok sample_pipe" "content sample_pipe = []" by (simp_all add: sample_pipe_def pipe_ok_def content_def PIPESIZE_def)
  show "pipe_ok loaded_pipe" "content loaded_pipe = [1, 2, 3]"
    using pipeq.pushes [OF e(1), of "[1, 2, 3]"] e(2) by (simp_all add: PIPESIZE_def loaded_pipe_def)
qed

theorem pipe_write_appends_witness:
  "\<exists>(s :: pipetab) pt t. (\<exists>m. one_page m s pt) \<and> pipewrite 7 0 3 (piped pt sample_pipe s) = Some (Return 3, t) \<and>
     content (pipes t 7) = ubytes (mem s) pt 0 3 \<and> all_woken 0 (ChanPipeRead 7) t"
proof -
  obtain s :: pipetab and pt where s: "\<exists>m. one_page m s pt" "\<And>x. uspace (mem (piped pt x s)) pt"
    "\<And>x. user_range (mem (piped pt x s)) pt 0 3" "\<And>x. writable (mem (piped pt x s)) pt 0 3" "\<And>x. calm 0 {} (piped pt x s)"
    using piped_one_page by metis
  have "PIPESIZE = PIPESIZE - length (content sample_pipe)" unfolding sample_content(2) by simp
  moreover have "3 \<le> PIPESIZE" "readopen sample_pipe" by (simp_all add: sample_pipe_def PIPESIZE_def)
  moreover note s(2,3) sample_content(1,2)
  ultimately obtain t where "pipewrite 7 0 3 (piped pt sample_pipe s) = Some (Return 3, t)" "content (pipes t 7) = ubytes (mem s) pt 0 3" "all_woken 0 (ChanPipeRead 7) t"
    using pipe_write_appends [OF s(5), of sample_pipe 7 0 3 PIPESIZE] by (auto simp del: content_length)
  with s(1) show ?thesis by blast
qed

theorem pipe_read_takes_witness:
  "\<exists>(s :: pipetab) pt t. (\<exists>m. one_page m s pt) \<and> piperead 7 0 2 (piped pt loaded_pipe s) = Some (Return 2, t) \<and>
     content (pipes t 7) = [3] \<and> uview (mem t) pt 1 = Some 2"
proof -
  let ?x = loaded_pipe
  obtain s :: pipetab and pt where s: "\<exists>m. one_page m s pt" "\<And>x. uspace (mem (piped pt x s)) pt"
    "\<And>x. user_range (mem (piped pt x s)) pt 0 3" "\<And>x. writable (mem (piped pt x s)) pt 0 3" "\<And>x. calm 0 {} (piped pt x s)"
    using piped_one_page by metis
  have r: "user_range (mem (piped pt ?x s)) pt 0 2" "writable (mem (piped pt ?x s)) pt 0 2"
    using user_range_mono [OF s(3) [of ?x]] s(4) [of ?x] by (simp_all add: writable_def)
  have "(2 :: nat) = min 2 (length (content ?x))" unfolding sample_content(4) by simp
  from pipe_read_takes [OF s(5), of ?x 7 2 2 0] this r s(2) sample_content(3,4)
  obtain t where "piperead 7 0 2 (piped pt ?x s) = Some (Return 2, t)" "content (pipes t 7) = [3]"
    "\<forall>w. uview (mem t) pt w = (if unat (0 :: u64) \<le> unat w \<and> unat w < unat (0 :: u64) + 2 then Some ([1, 2, 3] ! (unat w - unat (0 :: u64))) else uview (mem s) pt w)"
    by (auto simp del: content_length)
  moreover from this(3) have "uview (mem t) pt 1 = Some 2" by simp
  ultimately show ?thesis using s(1) by blast
qed

end
