(* ===== verification/Ulib.thy ===== *)
theory Ulib
  imports Cstring Format
begin

text \<open>
  The library of user programs, \<^verbatim>\<open>user/ulib.c\<close>, over the byte memory of a process, and the system
  calls of \<^verbatim>\<open>user/user.h\<close> as user programs see them. The kernel is a parameter of user code: a
  record of functions over a world \<open>'w\<close>, one for each entry of \<^verbatim>\<open>user/usys.pl\<close> that the modelled
  programs call. A call that reads hands over the bytes it has read.
\<close>

section \<open>System calls\<close>

record 'w os =
  os_read :: "int \<Rightarrow> nat \<Rightarrow> 'w \<Rightarrow> int \<times> bytes \<times> 'w"
  os_write :: "int \<Rightarrow> bytes \<Rightarrow> 'w \<Rightarrow> int \<times> 'w"
  os_open :: "bytes \<Rightarrow> u32 \<Rightarrow> 'w \<Rightarrow> int \<times> 'w"
  os_close :: "int \<Rightarrow> 'w \<Rightarrow> int \<times> 'w"
  os_fstat :: "int \<Rightarrow> 'w \<Rightarrow> (int \<times> bytes) \<times> 'w"
  os_mkdir :: "bytes \<Rightarrow> 'w \<Rightarrow> int \<times> 'w"
  os_unlink :: "bytes \<Rightarrow> 'w \<Rightarrow> int \<times> 'w"
  os_link :: "bytes \<Rightarrow> bytes \<Rightarrow> 'w \<Rightarrow> int \<times> 'w"
  os_kill :: "u32 \<Rightarrow> 'w \<Rightarrow> int \<times> 'w"
  os_sbrk :: "u32 \<Rightarrow> u32 \<Rightarrow> 'w \<Rightarrow> u64 \<times> 'w"

section \<open>Strings and memory\<close>

text \<open>The loops over strings do not return on a memory without a NUL byte.\<close>

partial_function (option) ustrcpy_loop :: "memory \<Rightarrow> u64 \<Rightarrow> u64 \<Rightarrow> memory option" where
  "ustrcpy_loop m s t = (let c = m t; m = m(s := c) in if c \<noteq> 0 then ustrcpy_loop m (s + 1) (t + 1) else Some m)"

definition ustrcpy :: "memory \<Rightarrow> u64 \<Rightarrow> u64 \<Rightarrow> (u64 \<times> memory) option" where
  "ustrcpy m s t = do { m \<leftarrow> ustrcpy_loop m s t; Some (s, m) }"

partial_function (option) ustrcmp :: "memory \<Rightarrow> u64 \<Rightarrow> u64 \<Rightarrow> int option" where
  "ustrcmp m p q = (if m p \<noteq> 0 \<and> m p = m q then ustrcmp m (p + 1) (q + 1) else Some (uint (m p) - uint (m q)))"

partial_function (option) ustrlen_loop :: "memory \<Rightarrow> u64 \<Rightarrow> nat \<Rightarrow> nat option" where
  "ustrlen_loop m s n = (if m (s + of_nat n) \<noteq> 0 then ustrlen_loop m s (Suc n) else Some n)"

definition ustrlen :: "memory \<Rightarrow> u64 \<Rightarrow> u32 option" where
  "ustrlen m s = do { n \<leftarrow> ustrlen_loop m s 0; Some (of_nat n) }"

function umemset_loop :: "memory \<Rightarrow> u64 \<Rightarrow> u8 \<Rightarrow> u32 \<Rightarrow> u32 \<Rightarrow> memory" where
  "umemset_loop m cdst c i n =
     (if i < n then umemset_loop (m(cdst + scast i := c)) cdst c (i + 1) n else m)"
  by pat_completeness auto
termination
  by (relation "measure (\<lambda>(m, cdst, c, i, n). unat n - unat i)")
     (auto simp: unat_add_1 word_less_nat_alt)

definition umemset :: "memory \<Rightarrow> u64 \<Rightarrow> u32 \<Rightarrow> u32 \<Rightarrow> memory" where
  "umemset m dst c n = umemset_loop m dst (ucast c) 0 n"

partial_function (option) strchr :: "memory \<Rightarrow> u64 \<Rightarrow> u8 \<Rightarrow> u64 option" where
  "strchr m s c = (if m s \<noteq> 0 then if m s = c then Some s else strchr m (s + 1) c else Some 0)"

text \<open>\<open>gets\<close> stores the characters as they come and terminates them.\<close>

function gets_loop :: "'w os \<Rightarrow> u64 \<Rightarrow> int \<Rightarrow> int \<Rightarrow> memory \<Rightarrow> 'w \<Rightarrow> int \<times> memory \<times> 'w" where
  "gets_loop os buf mx i m w =
     (if i + 1 < mx then
        let (cc, cs, w) = os_read os 0 1 w
        in if cc < 1 then (i, m, w)
           else let c = hd cs; m = m(buf + word_of_int i := c); i = i + 1
                in if c = asc (CHR 0x0A) \<or> c = asc (CHR 0x0D) then (i, m, w)
                   else gets_loop os buf mx i m w
      else (i, m, w))"
  by pat_completeness auto
termination
  by (relation "measure (\<lambda>(os, buf, mx, i, m, w). nat (mx - i))") auto

definition gets :: "'w os \<Rightarrow> u64 \<Rightarrow> int \<Rightarrow> memory \<Rightarrow> 'w \<Rightarrow> u64 \<times> memory \<times> 'w" where
  "gets os buf mx m w = (let (i, m, w) = gets_loop os buf mx 0 m w in (buf, m(buf + word_of_int i := 0), w))"

definition ustat :: "'w os \<Rightarrow> bytes \<Rightarrow> 'w \<Rightarrow> (int \<times> bytes) \<times> 'w" where
  "ustat os n w =
     (let (fd, w) = os_open os n 0 w
      in if fd < 0 then ((-1, []), w)
         else let (r, w) = os_fstat os fd w; (_, w) = os_close os fd w in (r, w))"

partial_function (option) atoi_loop :: "memory \<Rightarrow> u64 \<Rightarrow> u32 \<Rightarrow> u32 option" where
  "atoi_loop m s n =
     (if asc (CHR ''0'') \<le> m s \<and> m s \<le> asc (CHR ''9'')
      then atoi_loop m (s + 1) (n * 10 + ucast (m s) - ucast (asc (CHR ''0'')))
      else Some n)"

definition atoi :: "memory \<Rightarrow> u64 \<Rightarrow> u32 option" where
  "atoi m s = atoi_loop m s 0"

primrec umemmove_fwd :: "nat \<Rightarrow> memory \<Rightarrow> u64 \<Rightarrow> u64 \<Rightarrow> memory" where
  "umemmove_fwd 0 m dst src = m"
| "umemmove_fwd (Suc n) m dst src = umemmove_fwd n (m(dst := m src)) (dst + 1) (src + 1)"

primrec umemmove_back :: "nat \<Rightarrow> memory \<Rightarrow> u64 \<Rightarrow> u64 \<Rightarrow> memory" where
  "umemmove_back 0 m dst src = m"
| "umemmove_back (Suc n) m dst src = umemmove_back n (m(dst - 1 := m (src - 1))) (dst - 1) (src - 1)"

text \<open>The count is an \<open>int\<close>: a negative one moves nothing.\<close>

definition umemmove :: "memory \<Rightarrow> u64 \<Rightarrow> u64 \<Rightarrow> int \<Rightarrow> u64 \<times> memory" where
  "umemmove m vdst vsrc n =
     (vdst, if vsrc > vdst then umemmove_fwd (nat n) m vdst vsrc
            else umemmove_back (nat n) m (vdst + word_of_int n) (vsrc + word_of_int n))"

primrec umemcmp_loop :: "nat \<Rightarrow> memory \<Rightarrow> u64 \<Rightarrow> u64 \<Rightarrow> int" where
  "umemcmp_loop 0 m p1 p2 = 0"
| "umemcmp_loop (Suc n) m p1 p2 =
     (if m p1 \<noteq> m p2 then uint (m p1) - uint (m p2) else umemcmp_loop n m (p1 + 1) (p2 + 1))"

definition umemcmp :: "memory \<Rightarrow> u64 \<Rightarrow> u64 \<Rightarrow> u32 \<Rightarrow> int" where
  "umemcmp m s1 s2 n = umemcmp_loop (unat n) m s1 s2"

definition umemcpy :: "memory \<Rightarrow> u64 \<Rightarrow> u64 \<Rightarrow> u32 \<Rightarrow> u64 \<times> memory" where
  "umemcpy m dst src n = umemmove m dst src (sint n)"

definition sbrk :: "'w os \<Rightarrow> u32 \<Rightarrow> 'w \<Rightarrow> u64 \<times> 'w" where
  "sbrk os n w = os_sbrk os n 1 w"

definition sbrklazy :: "'w os \<Rightarrow> u32 \<Rightarrow> 'w \<Rightarrow> u64 \<times> 'w" where
  "sbrklazy os n w = os_sbrk os n 2 w"

declare umemset_loop.simps [simp del] gets_loop.simps [simp del]

section \<open>Strings in memory\<close>

lemma cstr_Nil [simp]: "cstr m a [] \<longleftrightarrow> m a = 0"
  by (simp add: cstr_def)

lemma cstr_Cons [simp]: "cstr m a (b # bs) \<longleftrightarrow> m a = b \<and> b \<noteq> 0 \<and> cstr m (a + 1) bs"
  by (auto simp: cstr_def load_bytes_Suc algebra_simps)

lemma ustrlen_loop_cstr: "cstr m (a + of_nat k) bs \<Longrightarrow> ustrlen_loop m a k = Some (k + length bs)"
proof (induction bs arbitrary: k)
  case (Cons b bs)
  have "ustrlen_loop m a (Suc k) = Some (Suc k + length bs)" by (rule Cons.IH) (use Cons.prems in \<open>simp add: algebra_simps\<close>)
  with Cons.prems show ?case by (subst ustrlen_loop.simps) simp
qed (subst ustrlen_loop.simps, simp)

lemma ustrlen_cstr: "cstr m a bs \<Longrightarrow> ustrlen m a = Some (of_nat (length bs))"
  using ustrlen_loop_cstr [of m a 0 bs] by (simp add: ustrlen_def)

text \<open>The sign of \<open>strcmp\<close> is the lexicographic order of the strings.\<close>

fun lex_cmp :: "bytes \<Rightarrow> bytes \<Rightarrow> int" where
  "lex_cmp [] [] = 0"
| "lex_cmp [] (y # ys) = - uint y"
| "lex_cmp (x # xs) [] = uint x"
| "lex_cmp (x # xs) (y # ys) = (if x = y then lex_cmp xs ys else uint x - uint y)"

lemma ustrcmp_cstr: "cstr m p xs \<Longrightarrow> cstr m q ys \<Longrightarrow> ustrcmp m p q = Some (lex_cmp xs ys)"
  by (induction xs ys arbitrary: p q rule: lex_cmp.induct) (subst ustrcmp.simps, auto)+

lemma lex_cmp_0: "0 \<notin> set xs \<Longrightarrow> 0 \<notin> set ys \<Longrightarrow> lex_cmp xs ys = 0 \<longleftrightarrow> xs = ys"
  by (induction xs ys rule: lex_cmp.induct) (auto simp: word_uint_eq_iff)

lemma strchr_cstr:
  "cstr m a bs \<Longrightarrow> c \<noteq> 0 \<Longrightarrow> strchr m a c =
     Some (if c \<in> set bs then a + of_nat (length (takeWhile (\<lambda>b. b \<noteq> c) bs)) else 0)"
  by (induction bs arbitrary: a) (subst strchr.simps, auto simp: algebra_simps)+

lemma ustrcpy_loop_cstr:
  assumes "cstr m t bs" and "apart s (Suc (length bs)) t (Suc (length bs))" and "length bs < 2 ^ 63"
  shows "ustrcpy_loop m s t = Some (store_bytes m s (bs @ [0]))"
  using assms
proof (induction bs arbitrary: m s t)
  case Nil
  then show ?case
    using store_bytes_Cons [of "[]" m s 0] by (subst ustrcpy_loop.simps) (simp add: Let_def)
next
  case (Cons b bs)
  let ?m = "m(s := b)"
  have keep: "load_bytes ?m t (Suc (Suc (length bs))) = load_bytes m t (Suc (Suc (length bs)))"
    using load_fun_upd_apart [of s "Suc (length bs)" t "Suc (Suc (length bs))" m b] Cons.prems(2) by simp
  then have "load_bytes ?m (t + 1) (Suc (length bs)) = load_bytes m (t + 1) (Suc (length bs))"
    by (simp add: load_bytes_Suc [of _ t])
  moreover have "cstr m (t + 1) bs" using Cons.prems(1) by simp
  ultimately have "cstr ?m (t + 1) bs" by (simp add: cstr_def load_bytes_snoc)
  then have "ustrcpy_loop ?m (s + 1) (t + 1) = Some (store_bytes ?m (s + 1) (bs @ [0]))"
    by (rule Cons.IH) (use Cons.prems(2,3) apart_shift in simp_all)
  then show ?case
    using Cons.prems store_bytes_Cons [of "bs @ [0]" m s b] by (subst ustrcpy_loop.simps) (simp add: Let_def)
qed

section \<open>Moving memory\<close>

lemma umemmove_fwd_same: "umemmove_fwd n m d s = memmove_fwd n m d s"
  by (induction n arbitrary: m d s) simp_all

lemma umemmove_back_same: "umemmove_back n m d s = memmove_back n m d s"
  by (induction n arbitrary: m d s) simp_all

text \<open>C31. The \<open>memmove\<close> of user programs moves the bytes as if through a buffer, however source and destination
  overlap, and returns the destination; a count that is not positive moves nothing.\<close>

theorem umemmove_moves:
  assumes "n < 2 ^ 31" and "unat dst + nat n < 2 ^ 64" and "unat src + nat n < 2 ^ 64"
  shows "umemmove m dst src n = (dst, store_bytes m dst (load_bytes m src (nat n)))"
proof -
  have le: "nat n \<le> 2 ^ 64" using assms(1) by simp
  have at: "unat (src + of_nat i) = unat src + i" "unat (dst + of_nat i) = unat dst + i" if "i \<le> nat n" for i
    using that assms(2,3) by (auto intro!: unat_plus)
  have ne: "src + of_nat i \<noteq> dst + of_nat j" if "i \<le> nat n" "j \<le> nat n" "unat src + i \<noteq> unat dst + j" for i j
    using at that by metis
  show ?thesis
  proof (cases "src > dst")
    case True
    then have "memmove_fwd (nat n) m dst src = store_bytes m dst (load_bytes m src (nat n))"
      by (intro memmove_fwd_eq [OF le] ne) (simp_all add: word_less_nat_alt)
    with True show ?thesis by (simp add: umemmove_def umemmove_fwd_same)
  next
    case False
    show ?thesis
    proof (cases "0 \<le> n")
      case True
      have "memmove_back (nat n) m (dst + of_nat (nat n)) (src + of_nat (nat n)) = store_bytes m dst (load_bytes m src (nat n))"
        by (intro memmove_back_eq [OF le] ne) (use False in \<open>simp_all add: word_less_nat_alt not_less\<close>)
      with False True show ?thesis by (simp add: umemmove_def umemmove_back_same of_nat_nat)
    qed (use False in \<open>simp add: umemmove_def\<close>)
  qed
qed

theorem umemmove_moves_witness:
  "map (snd (umemmove (store_bytes (\<lambda>_. 0) 100 [1, 2, 3, 4]) 101 100 3)) [101, 102, 103, 104] = [1, 2, 3, 0]"
proof -
  let ?m = "store_bytes (\<lambda>_. 0) (100 :: u64) [1, 2, 3, 4 :: u8]"
  have "load_bytes ?m 100 3 = [1, 2, 3]" by (simp add: load_bytes_def store_bytes_def upt_rec)
  then show ?thesis using umemmove_moves [of 3 101 100 ?m] by (simp add: store_bytes_def)
qed

section \<open>Numbers\<close>

definition udigits :: bytes where
  "udigits = str ''0123456789ABCDEF''"

definition decimal :: "u8 \<Rightarrow> bool" where
  "decimal c \<longleftrightarrow> 48 \<le> c \<and> c \<le> 57"

lemma asc_digits: "asc (CHR ''0'') = 48" "asc (CHR ''9'') = 57" "asc (CHR ''-'') = 45"
  by (simp_all add: asc_def)

lemma atoi_loop_digits:
  assumes "load_bytes m a (length cs) = cs" and "\<forall>c\<in>set cs. decimal c" and "\<not> decimal (m (a + of_nat (length cs)))"
  shows "atoi_loop m a n = Some (foldl (\<lambda>n c. n * 10 + ucast c - 48) n cs)"
  using assms
proof (induction cs arbitrary: a n)
  case Nil
  then show ?case by (subst atoi_loop.simps) (auto simp: decimal_def asc_digits)
next
  case (Cons c cs)
  have a: "load_bytes m (a + 1) (length cs) = cs" "m a = c" using Cons.prems(1) by (simp_all add: load_bytes_Suc)
  have "a + 1 + of_nat (length cs) = a + of_nat (length (c # cs))" by simp
  then have "\<not> decimal (m (a + 1 + of_nat (length cs)))" using Cons.prems(3) by (simp only: not_False_eq_True)
  from Cons.IH [OF a(1) _ this] have "atoi_loop m (a + 1) k = Some (foldl (\<lambda>n c. n * 10 + ucast c - 48) k cs)" for k
    using Cons.prems(2) by simp
  then show ?case using Cons.prems(2) a(2) by (subst atoi_loop.simps) (simp add: decimal_def asc_digits)
qed

lemma foldl_horner: "foldl (\<lambda>n c. n * 10 + ucast c - 48) (word_of_int k) cs = (word_of_int (foldl (\<lambda>n c. 10 * n + (uint c - 48)) k cs) :: u32)" for cs :: bytes
proof (induction cs arbitrary: k)
  case (Cons c cs)
  have "word_of_int k * 10 + ucast c - 48 = (word_of_int (10 * k + (uint c - 48)) :: u32)"
    by (simp add: unsigned_ucast_eq flip: word_of_int_uint)
  then show ?case by (simp only: foldl_Cons Cons.IH)
qed simp

lemma atoi_digits:
  "load_bytes m a (length cs) = cs \<Longrightarrow> \<forall>c\<in>set cs. decimal c \<Longrightarrow> \<not> decimal (m (a + of_nat (length cs))) \<Longrightarrow>
     atoi m a = Some (word_of_int (horner cs))"
  using atoi_loop_digits [of m a cs 0] foldl_horner [of 0 cs] by (simp add: atoi_def horner_def)

lemma udigits_decimal: "\<forall>v<10. uint (udigits ! v) = int v + 48 \<and> decimal (udigits ! v)"
proof -
  have "list_all (\<lambda>v. uint (udigits ! v) = int v + 48 \<and> decimal (udigits ! v)) [0..<10]" by code_simp
  then show ?thesis by (simp only: list_all_iff set_upt atLeastLessThan_iff) simp
qed

lemma printed_decimal:
  "horner (rev (digits_rev udigits 10 x)) = int x \<and> (\<forall>c\<in>set (digits_rev udigits 10 x). decimal c)"
proof -
  obtain vs where vs: "digits_rev udigits 10 x = map ((!) udigits) vs" "\<forall>v\<in>set vs. v < 10" "value_of 10 vs = x"
    using digits_rev_value [of 10 udigits x] by (auto simp: udigits_def str_def)
  then show ?thesis using horner_digits [OF vs(2), of udigits] udigits_decimal by auto
qed

text \<open>C30. A number that \<open>printf\<close> prints with \<^verbatim>\<open>%d\<close> is read back by \<open>atoi\<close>: if the memory holds the characters of a
  non-negative number, followed by anything but a digit, \<open>atoi\<close> returns the number, modulo the 32 bits of an
  \<open>int\<close>.\<close>

theorem atoi_reads_printed:
  assumes "0 \<le> sint v" and "load_bytes m a (length cs) = cs" and "cs = rev (int_buf udigits v 10 True)"
    and "\<not> decimal (m (a + of_nat (length cs)))"
  shows "atoi m a = Some (ucast v)"
proof -
  have cs: "cs = rev (digits_rev udigits 10 (unat v))" using assms(1,3) by (simp add: int_buf_def)
  have "atoi m a = Some (word_of_int (horner cs))"
    using printed_decimal [of "unat v"] assms(2,4) by (intro atoi_digits) (simp_all add: cs)
  also have "horner cs = uint v" using printed_decimal [of "unat v"] by (simp add: cs)
  finally show ?thesis by simp
qed

theorem atoi_reads_printed_witness:
  "rev (int_buf udigits 42 10 True) = [52, 50] \<and> atoi (store_bytes (\<lambda>_. 0) 64 [52, 50]) 64 = Some 42"
proof
  have "digits_rev udigits 10 42 = [udigits ! 2, udigits ! 4]"
    by (simp add: digits_rev.simps [of udigits 10 42] digits_rev.simps [of udigits 10 4])
  moreover have "udigits ! 2 = 50" "udigits ! 4 = 52" by (simp_all add: udigits_def str_def asc_def)
  ultimately show c: "rev (int_buf udigits 42 10 True) = [52, 50]" by (simp add: int_buf_def)
  let ?m = "store_bytes (\<lambda>_. 0) 64 [52, 50 :: u8]"
  have l: "load_bytes ?m 64 (length [52, 50 :: u8]) = [52, 50]" by (rule load_store_same) simp
  have n: "\<not> decimal (?m (64 + of_nat (length [52, 50 :: u8])))" by (simp add: store_bytes_def decimal_def)
  show "atoi ?m 64 = Some 42" using atoi_reads_printed [OF _ l c [symmetric] n] by simp
qed

section \<open>Files as streams of bytes\<close>

text \<open>
  What user programs rely on: reading a descriptor yields the bytes that are still to come, at most as many as
  asked for, and none only at the end; a write to a descriptor takes all the bytes. \<open>inp\<close> and \<open>out\<close> say what
  is to come and what has been written.
\<close>

definition delivers :: "'w os \<Rightarrow> int \<Rightarrow> ('w \<Rightarrow> bytes) \<Rightarrow> ('w \<Rightarrow> bytes) \<Rightarrow> bool" where
  "delivers os fd inp out \<longleftrightarrow> (\<forall>n w. \<exists>k w'. os_read os fd n w = (int k, take k (inp w), w') \<and>
     k \<le> n \<and> k \<le> length (inp w) \<and> (0 < n \<longrightarrow> inp w \<noteq> [] \<longrightarrow> 0 < k) \<and> inp w' = drop k (inp w) \<and> out w' = out w)"

definition accepts :: "'w os \<Rightarrow> int \<Rightarrow> ('w \<Rightarrow> bytes) \<Rightarrow> ('w \<Rightarrow> bytes) \<Rightarrow> bool" where
  "accepts os fd inp out \<longleftrightarrow> (\<forall>bs w. \<exists>w'. os_write os fd bs w = (int (length bs), w') \<and> inp w' = inp w \<and> out w' = out w @ bs)"

lemma delivers_read:
  assumes "delivers os fd inp out"
  obtains k w' where "os_read os fd n w = (int k, take k (inp w), w')" "k \<le> n" "k \<le> length (inp w)"
    "0 < n \<Longrightarrow> inp w \<noteq> [] \<Longrightarrow> 0 < k" "inp w' = drop k (inp w)" "out w' = out w"
  using assms unfolding delivers_def by blast

lemma accepts_write:
  assumes "accepts os fd inp out"
  obtains w' where "os_write os fd bs w = (int (length bs), w')" "inp w' = inp w" "out w' = out w @ bs"
  using assms unfolding accepts_def by blast

text \<open>A kernel whose world is a tape to read, at most \<open>k\<close> bytes at a time, and a tape to write.\<close>

definition tape :: "nat \<Rightarrow> (bytes \<times> bytes) os" where
  "tape k = \<lparr>os_read = (\<lambda>fd n (i, x). let j = min (min n k) (length i) in (int j, take j i, (drop j i, x))),
     os_write = (\<lambda>fd bs (i, x). (int (length bs), (i, x @ bs))), os_open = (\<lambda>n mode w. (3, w)), os_close = (\<lambda>fd w. (0, w)),
     os_fstat = (\<lambda>fd w. ((-1, []), w)), os_mkdir = (\<lambda>n w. (0, w)), os_unlink = (\<lambda>n w. (0, w)), os_link = (\<lambda>a b w. (0, w)),
     os_kill = (\<lambda>p w. (0, w)), os_sbrk = (\<lambda>n t w. (- 1, w))\<rparr>"

lemma tape_delivers: "0 < k \<Longrightarrow> delivers (tape k) fd fst snd"
  unfolding delivers_def
proof (intro allI)
  fix n and w :: "bytes \<times> bytes"
  assume k: "0 < k"
  obtain i x where w: "w = (i, x)" by (cases w) auto
  show "\<exists>j w'. os_read (tape k) fd n w = (int j, take j (fst w), w') \<and> j \<le> n \<and> j \<le> length (fst w) \<and>
      (0 < n \<longrightarrow> fst w \<noteq> [] \<longrightarrow> 0 < j) \<and> fst w' = drop j (fst w) \<and> snd w' = snd w"
    using k by (intro exI [of _ "min (min n k) (length i)"] exI [of _ "(drop (min (min n k) (length i)) i, x)"])
      (simp add: tape_def w Let_def)
qed

lemma tape_accepts: "accepts (tape k) fd fst snd"
  by (auto simp: accepts_def tape_def)

section \<open>Lines\<close>

fun take_line :: "bytes \<Rightarrow> bytes" where
  "take_line [] = []"
| "take_line (c # cs) = (if c = 10 \<or> c = 13 then [c] else c # take_line cs)"

lemma gets_loop_line:
  assumes d: "delivers os 0 inp out" and "int i + 1 + int k = mx" and "i + k < 2 ^ 31"
    and "length bs = i" and "ls = take k (take_line (inp w))"
  shows "\<exists>w'. gets_loop os buf mx (int i) (store_bytes m buf bs) w =
      (int (i + length ls), store_bytes m buf (bs @ ls), w') \<and> inp w' = drop (length ls) (inp w) \<and> out w' = out w"
  using assms(2-5)
proof (induction k arbitrary: i bs w ls)
  case 0
  then show ?case by (simp add: gets_loop.simps)
next
  case (Suc k)
  obtain j w' where r: "os_read os 0 1 w = (int j, take j (inp w), w')" "j \<le> 1" "j \<le> length (inp w)"
    "inp w \<noteq> [] \<Longrightarrow> 0 < j" "inp w' = drop j (inp w)" "out w' = out w"
    by (rule delivers_read [OF d, of 1 w]) simp
  show ?case
  proof (cases "inp w")
    case Nil
    with r Suc.prems show ?thesis by (subst gets_loop.simps) simp
  next
    case (Cons c cs)
    then have j: "j = 1" using r by simp
    have st: "(store_bytes m buf bs)(buf + word_of_int (int i) := c) = store_bytes m buf (bs @ [c])"
      using store_bytes_fun_upd [of bs m buf c] Suc.prems by simp
    have crlf: "asc (CHR 0x0A) = 10" "asc (CHR 0x0D) = 13" by (simp_all add: asc_def)
    have lt: "int i + 1 < mx" using Suc.prems by simp
    show ?thesis
    proof (cases "c = 10 \<or> c = 13")
      case True
      with Suc.prems r Cons j st show ?thesis by (subst gets_loop.simps) (auto simp: crlf)
    next
      case False
      let ?ls = "take k (take_line (inp w'))"
      have "\<exists>v. gets_loop os buf mx (int (Suc i)) (store_bytes m buf (bs @ [c])) w' =
          (int (Suc i + length ?ls), store_bytes m buf ((bs @ [c]) @ ?ls), v) \<and> inp v = drop (length ?ls) (inp w') \<and> out v = out w'"
        by (rule Suc.IH) (use Suc.prems in simp_all)
      moreover have "ls = c # ?ls" using Suc.prems(4) False Cons r(5) j by simp
      moreover have "gets_loop os buf mx (int i) (store_bytes m buf bs) w = gets_loop os buf mx (int (Suc i)) (store_bytes m buf (bs @ [c])) w'"
        using lt r(1) j Cons False st by (subst gets_loop.simps) (simp add: crlf add.commute)
      ultimately show ?thesis using r(5,6) Cons j by simp
    qed
  qed
qed

text \<open>C29. \<open>gets\<close> reads one line: it consumes the characters of its input up to and including the first newline or
  carriage return, but at most \<open>max - 1\<close> of them, and leaves them in the buffer as a string.\<close>

theorem gets_reads_line:
  assumes "delivers os 0 inp out" and "0 < mx" and "mx < 2 ^ 31" and "ls = take (nat mx - 1) (take_line (inp w))"
  shows "\<exists>w'. gets os buf mx m w = (buf, store_bytes m buf (ls @ [0]), w') \<and> inp w' = drop (length ls) (inp w) \<and> out w' = out w"
proof -
  have "nat mx < nat (2 ^ 31)" using assms(2,3) by (simp only: nat_less_eq_zless)
  then have "0 + (nat mx - 1) < 2 ^ 31" by simp
  then obtain w' where g: "gets_loop os buf mx (int 0) (store_bytes m buf []) w = (int (0 + length ls), store_bytes m buf ([] @ ls), w')"
    "inp w' = drop (length ls) (inp w)" "out w' = out w"
    using gets_loop_line [OF assms(1), of 0 "nat mx - 1" mx "[]" ls w buf m] assms(2-4) by auto
  have "length ls < 2 ^ 64" using assms(2,3) by (simp add: assms(4))
  then have "(store_bytes m buf ls)(buf + of_nat (length ls) := 0) = store_bytes m buf (ls @ [0])"
    by (intro store_bytes_fun_upd) simp
  with g show ?thesis by (simp add: gets_def)
qed

theorem gets_reads_line_witness:
  "\<exists>m w. gets (tape 5) 0 100 (\<lambda>_. 7) ([108, 115, 10, 120], []) = (0, m, w) \<and> map m [0, 1, 2, 3, 4] = [108, 115, 10, 0, 7] \<and> fst w = [120]"
proof -
  let ?i = "[108, 115, 10, 120] :: bytes"
  have d: "delivers (tape 5) 0 fst snd" by (simp add: tape_delivers)
  have l: "[108, 115, 10] = take (nat 100 - 1) (take_line (fst (?i, [] :: bytes)))" by simp
  obtain w where w: "gets (tape 5) 0 100 (\<lambda>_. 7) (?i, []) = (0, store_bytes (\<lambda>_. 7) 0 ([108, 115, 10] @ [0]), w)"
    "fst w = drop (length [108, 115, 10 :: u8]) (fst (?i, [] :: bytes))"
    using gets_reads_line [OF d _ _ l, of 0 "\<lambda>_. 7"] by (elim meta_impE exE conjE) (simp, simp, rule that)
  then show ?thesis
    by (intro exI [of _ "store_bytes (\<lambda>_. 7) 0 ([108, 115, 10] @ [0])"] exI [of _ w] conjI) (assumption, simp_all add: store_bytes_def)
qed

end
