(* ===== verification/Tools.thy ===== *)
theory Tools
  imports Ulib
begin

text \<open>
  \<^verbatim>\<open>user/printf.c\<close> and the programs \<^verbatim>\<open>cat\<close>, \<^verbatim>\<open>echo\<close>, \<^verbatim>\<open>wc\<close>, \<^verbatim>\<open>mkdir\<close>, \<^verbatim>\<open>rm\<close>, \<^verbatim>\<open>ln\<close> and \<^verbatim>\<open>kill\<close> of
  \<^verbatim>\<open>user/\<close>, over the system calls of \<open>Ulib\<close>. A function that may call \<open>exit\<close> returns the status in an option;
  \<open>None\<close> of the outer option is a program that never ends, or a \<open>printf\<close> without the arguments its format asks
  for. \<open>argv\<close> is a list of strings.
\<close>

section \<open>printf\<close>

definition putc :: "'w os \<Rightarrow> int \<Rightarrow> u8 \<Rightarrow> 'w \<Rightarrow> 'w" where
  "putc os fd c w = snd (os_write os fd [c] w)"

primrec putcs :: "'w os \<Rightarrow> int \<Rightarrow> bytes \<Rightarrow> 'w \<Rightarrow> 'w" where
  "putcs os fd [] w = w"
| "putcs os fd (c # cs) w = putcs os fd cs (putc os fd c w)"

text \<open>The state between a \<^verbatim>\<open>%\<close> and the end of its directive is the branch after the \<^verbatim>\<open>%\<close>; a \<^verbatim>\<open>%\<close> that ends the format
  prints nothing.\<close>

function vprintf :: "'w os \<Rightarrow> int \<Rightarrow> bytes \<Rightarrow> arg list \<Rightarrow> 'w \<Rightarrow> 'w option" where
  "vprintf os fd [] ap w = Some w"
| "vprintf os fd (c0 # fmt) ap w =
     (if c0 \<noteq> asc (CHR ''%'') then vprintf os fd fmt ap (putc os fd c0 w)
      else let (d, k) = read_directive fmt
           in if d = End then Some w
              else do {
                (out, ap) \<leftarrow> directive_chars udigits d ap;
                vprintf os fd (drop k fmt) ap (putcs os fd out w)
              })"
  by pat_completeness auto
termination
  by (relation "measure (\<lambda>(os, fd, fmt, ap, w). length fmt)") auto

definition fprintf :: "'w os \<Rightarrow> int \<Rightarrow> bytes \<Rightarrow> arg list \<Rightarrow> 'w \<Rightarrow> 'w option" where
  "fprintf os fd fmt ap w = vprintf os fd fmt ap w"

definition uprintf :: "'w os \<Rightarrow> bytes \<Rightarrow> arg list \<Rightarrow> 'w \<Rightarrow> 'w option" where
  "uprintf os fmt ap w = vprintf os 1 fmt ap w"

text \<open>A message that ends with a newline.\<close>

definition msg :: "string \<Rightarrow> bytes" where
  "msg s = str s @ [10]"

section \<open>cat\<close>

partial_function (option) cat :: "'w os \<Rightarrow> int \<Rightarrow> 'w \<Rightarrow> (int option \<times> 'w) option" where
  "cat os fd w =
     (let (n, buf, w) = os_read os fd 512 w
      in if n > 0 then
           let (r, w) = os_write os 1 buf w
           in if r \<noteq> n then do { w \<leftarrow> fprintf os 2 (msg ''cat: write error'') [] w; Some (Some 1, w) }
              else cat os fd w
         else if n < 0 then do { w \<leftarrow> fprintf os 2 (msg ''cat: read error'') [] w; Some (Some 1, w) }
         else Some (None, w))"

primrec cat_files :: "'w os \<Rightarrow> bytes list \<Rightarrow> 'w \<Rightarrow> (int \<times> 'w) option" where
  "cat_files os [] w = Some (0, w)"
| "cat_files os (f # fs) w =
     (let (fd, w) = os_open os f 0 w
      in if fd < 0 then do { w \<leftarrow> fprintf os 2 (msg ''cat: cannot open %s'') [Str (Some f)] w; Some (1, w) }
         else do {
           (e, w) \<leftarrow> cat os fd w;
           case e of Some x \<Rightarrow> Some (x, w) | None \<Rightarrow> cat_files os fs (snd (os_close os fd w))
         })"

definition cat_main :: "'w os \<Rightarrow> bytes list \<Rightarrow> 'w \<Rightarrow> (int \<times> 'w) option" where
  "cat_main os argv w =
     (if length argv \<le> 1 then do { (e, w) \<leftarrow> cat os 0 w; Some (case e of Some x \<Rightarrow> x | None \<Rightarrow> 0, w) }
      else cat_files os (tl argv) w)"

section \<open>echo\<close>

fun echo_loop :: "'w os \<Rightarrow> bytes list \<Rightarrow> 'w \<Rightarrow> 'w" where
  "echo_loop os [] w = w"
| "echo_loop os [a] w = (let (_, w) = os_write os 1 a w; (_, w) = os_write os 1 [10] w in w)"
| "echo_loop os (a # b # as) w =
     (let (_, w) = os_write os 1 a w; (_, w) = os_write os 1 (str '' '') w in echo_loop os (b # as) w)"

definition echo_main :: "'w os \<Rightarrow> bytes list \<Rightarrow> 'w \<Rightarrow> (int \<times> 'w) option" where
  "echo_main os argv w = Some (0, echo_loop os (tl argv) w)"

section \<open>wc\<close>

text \<open>A search of a string literal with \<open>strchr\<close> for a character: the terminating NUL is never found.\<close>

definition in_literal :: "bytes \<Rightarrow> u8 \<Rightarrow> bool" where
  "in_literal s c \<longleftrightarrow> c \<noteq> 0 \<and> c \<in> set s"

record wc_state =
  wc_l :: u32
  wc_w :: u32
  wc_c :: u32
  inword :: bool

definition wc_char :: "u8 \<Rightarrow> wc_state \<Rightarrow> wc_state" where
  "wc_char b s =
     (let s = s\<lparr>wc_c := wc_c s + 1\<rparr>;
          s = (if b = 10 then s\<lparr>wc_l := wc_l s + 1\<rparr> else s)
      in if in_literal [32, 13, 9, 10, 11] b then s\<lparr>inword := False\<rparr>
         else if \<not> inword s then s\<lparr>wc_w := wc_w s + 1, inword := True\<rparr>
         else s)"

partial_function (option) wc_loop :: "'w os \<Rightarrow> int \<Rightarrow> wc_state \<Rightarrow> 'w \<Rightarrow> (int \<times> wc_state \<times> 'w) option" where
  "wc_loop os fd s w =
     (let (n, buf, w) = os_read os fd 512 w
      in if n > 0 then wc_loop os fd (fold wc_char buf s) w else Some (n, s, w))"

definition wc :: "'w os \<Rightarrow> int \<Rightarrow> bytes \<Rightarrow> 'w \<Rightarrow> (int option \<times> 'w) option" where
  "wc os fd name w = do {
     (n, s, w) \<leftarrow> wc_loop os fd \<lparr>wc_l = 0, wc_w = 0, wc_c = 0, inword = False\<rparr> w;
     if n < 0 then do { w \<leftarrow> uprintf os (msg ''wc: read error'') [] w; Some (Some 1, w) }
     else do {
       w \<leftarrow> uprintf os (msg ''%d %d %d %s'') [Word (ucast (wc_l s)), Word (ucast (wc_w s)), Word (ucast (wc_c s)), Str (Some name)] w;
       Some (None, w)
     }
   }"

primrec wc_files :: "'w os \<Rightarrow> bytes list \<Rightarrow> 'w \<Rightarrow> (int \<times> 'w) option" where
  "wc_files os [] w = Some (0, w)"
| "wc_files os (f # fs) w =
     (let (fd, w) = os_open os f 0 w
      in if fd < 0 then do { w \<leftarrow> uprintf os (msg ''wc: cannot open %s'') [Str (Some f)] w; Some (1, w) }
         else do {
           (e, w) \<leftarrow> wc os fd f w;
           case e of Some x \<Rightarrow> Some (x, w) | None \<Rightarrow> wc_files os fs (snd (os_close os fd w))
         })"

definition wc_main :: "'w os \<Rightarrow> bytes list \<Rightarrow> 'w \<Rightarrow> (int \<times> 'w) option" where
  "wc_main os argv w =
     (if length argv \<le> 1 then do { (e, w) \<leftarrow> wc os 0 [] w; Some (case e of Some x \<Rightarrow> x | None \<Rightarrow> 0, w) }
      else wc_files os (tl argv) w)"

section \<open>mkdir, rm, ln and kill\<close>

primrec mkdir_loop :: "'w os \<Rightarrow> bytes list \<Rightarrow> 'w \<Rightarrow> 'w option" where
  "mkdir_loop os [] w = Some w"
| "mkdir_loop os (a # as) w =
     (let (r, w) = os_mkdir os a w
      in if r < 0 then fprintf os 2 (msg ''mkdir: %s failed to create'') [Str (Some a)] w else mkdir_loop os as w)"

definition mkdir_main :: "'w os \<Rightarrow> bytes list \<Rightarrow> 'w \<Rightarrow> (int \<times> 'w) option" where
  "mkdir_main os argv w =
     (if length argv < 2 then do { w \<leftarrow> fprintf os 2 (msg ''Usage: mkdir files...'') [] w; Some (1, w) }
      else do { w \<leftarrow> mkdir_loop os (tl argv) w; Some (0, w) })"

primrec rm_loop :: "'w os \<Rightarrow> bytes list \<Rightarrow> 'w \<Rightarrow> 'w option" where
  "rm_loop os [] w = Some w"
| "rm_loop os (a # as) w =
     (let (r, w) = os_unlink os a w
      in if r < 0 then fprintf os 2 (msg ''rm: %s failed to delete'') [Str (Some a)] w else rm_loop os as w)"

definition rm_main :: "'w os \<Rightarrow> bytes list \<Rightarrow> 'w \<Rightarrow> (int \<times> 'w) option" where
  "rm_main os argv w =
     (if length argv < 2 then do { w \<leftarrow> fprintf os 2 (msg ''Usage: rm files...'') [] w; Some (1, w) }
      else do { w \<leftarrow> rm_loop os (tl argv) w; Some (0, w) })"

definition ln_main :: "'w os \<Rightarrow> bytes list \<Rightarrow> 'w \<Rightarrow> (int \<times> 'w) option" where
  "ln_main os argv w =
     (if length argv \<noteq> 3 then do { w \<leftarrow> fprintf os 2 (msg ''Usage: ln old new'') [] w; Some (1, w) }
      else let (r, w) = os_link os (argv ! 1) (argv ! 2) w
           in do {
                w \<leftarrow> (if r < 0 then fprintf os 2 (msg ''link %s %s: failed'') [Str (Some (argv ! 1)), Str (Some (argv ! 2))] w else Some w);
                Some (0, w)
              })"

text \<open>\<open>kill\<close> converts the strings with \<open>atoi\<close>, here in a memory that holds the argument.\<close>

primrec kill_loop :: "'w os \<Rightarrow> bytes list \<Rightarrow> 'w \<Rightarrow> 'w option" where
  "kill_loop os [] w = Some w"
| "kill_loop os (a # as) w = do { p \<leftarrow> atoi (store_bytes (\<lambda>_. 0) 0 a) 0; kill_loop os as (snd (os_kill os p w)) }"

definition kill_main :: "'w os \<Rightarrow> bytes list \<Rightarrow> 'w \<Rightarrow> (int \<times> 'w) option" where
  "kill_main os argv w =
     (if length argv < 2 then do { w \<leftarrow> fprintf os 2 (msg ''usage: kill pid...'') [] w; Some (1, w) }
      else do { w \<leftarrow> kill_loop os (tl argv) w; Some (0, w) })"

section \<open>What is printed\<close>

lemma putc_accepts:
  assumes "accepts os fd inp out"
  shows "inp (putc os fd c w) = inp w \<and> out (putc os fd c w) = out w @ [c]"
  by (rule accepts_write [OF assms, of "[c]" w]) (simp add: putc_def)

lemma putcs_accepts:
  "accepts os fd inp out \<Longrightarrow> inp (putcs os fd cs w) = inp w \<and> out (putcs os fd cs w) = out w @ cs"
  by (induction cs arbitrary: w) (simp_all add: putc_accepts)

lemma vprintf_formatted:
  assumes acc: "accepts os fd inp out" and "formatted udigits fmt ap = Some bs"
  shows "\<exists>w'. vprintf os fd fmt ap w = Some w' \<and> inp w' = inp w \<and> out w' = out w @ bs"
  using assms(2)
proof (induction "length fmt" arbitrary: fmt ap w bs rule: less_induct)
  case less
  show ?case
  proof (cases fmt)
    case Nil
    then show ?thesis using less.prems by simp
  next
    case (Cons c cs)
    show ?thesis
    proof (cases "c = asc (CHR ''%'')")
      case False
      then obtain bs' where bs': "formatted udigits cs ap = Some bs'" "bs = c # bs'"
        using less.prems Cons by (auto simp: bind_eq_Some_conv)
      from less.hyps [OF _ bs'(1), of "putc os fd c w"] False Cons bs'(2) putc_accepts [OF acc, of c w] show ?thesis by simp
    next
      case True
      obtain d k where dk: "read_directive cs = (d, k)" by (cases "read_directive cs") auto
      show ?thesis
      proof (cases "d = End")
        case True
        then show ?thesis using less.prems Cons \<open>c = _\<close> dk by simp
      next
        case False
        then obtain o1 ap' o2 where o: "directive_chars udigits d ap = Some (o1, ap')" "formatted udigits (drop k cs) ap' = Some o2" "bs = o1 @ o2"
          using less.prems Cons True dk by (auto simp: bind_eq_Some_conv)
        from less.hyps [OF _ o(2), of "putcs os fd o1 w"] False Cons True dk o putcs_accepts [OF acc, of o1 w] show ?thesis by simp
      qed
    qed
  qed
qed


lemma uprintf_formatted:
  "accepts os 1 inp out \<Longrightarrow> formatted udigits fmt ap = Some bs \<Longrightarrow> \<exists>w'. uprintf os fmt ap w = Some w' \<and> inp w' = inp w \<and> out w' = out w @ bs"
  unfolding uprintf_def by (rule vprintf_formatted)


section \<open>cat and wc\<close>

lemma read_all_induct [consumes 1, case_names eof more]:
  assumes d: "delivers os fd inp out"
    and eof: "\<And>w w'. inp w = [] \<Longrightarrow> os_read os fd 512 w = (0, [], w') \<Longrightarrow> inp w' = [] \<Longrightarrow> out w' = out w \<Longrightarrow> P w"
    and more: "\<And>w k w'. 0 < k \<Longrightarrow> k \<le> length (inp w) \<Longrightarrow> os_read os fd 512 w = (int k, take k (inp w), w') \<Longrightarrow>
      inp w' = drop k (inp w) \<Longrightarrow> out w' = out w \<Longrightarrow> (\<And>v. inp v = inp w' \<Longrightarrow> P v) \<Longrightarrow> P w"
  shows "P w"
proof (induction "length (inp w)" arbitrary: w rule: less_induct)
  case less
  obtain k w' where r: "os_read os fd 512 w = (int k, take k (inp w), w')" "k \<le> length (inp w)"
    "inp w \<noteq> [] \<Longrightarrow> 0 < k" "inp w' = drop k (inp w)" "out w' = out w"
    by (rule delivers_read [OF d, of 512 w]) auto
  show ?case
  proof (cases "inp w = []")
    case True
    then show ?thesis using r by (intro eof [of w w']) simp_all
  next
    case False
    with r have "length (inp w') < length (inp w)" by simp
    then show ?thesis using less r False by (intro more [of k w w']) auto
  qed
qed

text \<open>C27. \<open>cat\<close> copies its input: it ends, and has written to the standard output exactly the bytes that were to come
  from the descriptor, in whatever pieces they were delivered.\<close>

theorem cat_copies:
  assumes d: "delivers os fd inp out" and a: "accepts os 1 inp out"
  shows "\<exists>w'. cat os fd w = Some (None, w') \<and> inp w' = [] \<and> out w' = out w @ inp w"
  using d
proof (induction w rule: read_all_induct)
  case (eof w w')
  then show ?case by (subst cat.simps) simp
next
  case (more w k w')
  obtain v where v: "os_write os 1 (take k (inp w)) w' = (int k, v)" "inp v = inp w'" "out v = out w @ take k (inp w)"
    using accepts_write [OF a, of "take k (inp w)" w'] more(2,5) by (metis length_take min.absorb2)
  from more(6) [OF v(2)] obtain u where "cat os fd v = Some (None, u)" "inp u = []" "out u = out v @ inp v" by blast
  then show ?case using more v by (subst cat.simps) simp
qed

theorem cat_copies_witness: "\<exists>w'. cat (tape 2) 3 ([1, 2, 3], [9]) = Some (None, w') \<and> fst w' = [] \<and> snd w' = [9, 1, 2, 3]"
proof -
  have "delivers (tape 2) 3 fst snd" by (simp add: tape_delivers)
  from cat_copies [OF this tape_accepts, of "([1, 2, 3], [9])"] show ?thesis by simp
qed

text \<open>The words of a text are its maximal runs of other characters than white space.\<close>

definition space :: "u8 \<Rightarrow> bool" where
  "space c \<longleftrightarrow> c \<in> {32, 13, 9, 10, 11}"

function words_of :: "bytes \<Rightarrow> bytes list" where
  "words_of bs =
     (let r = dropWhile space bs
      in if r = [] then [] else takeWhile (\<lambda>c. \<not> space c) r # words_of (dropWhile (\<lambda>c. \<not> space c) r))"
  by pat_completeness auto
termination
proof (relation "measure length", simp)
  fix bs r assume r: "r = dropWhile space bs" "r \<noteq> []"
  then have "\<not> space (hd r)" using hd_dropWhile [of space bs] by simp
  then have "dropWhile (\<lambda>c. \<not> space c) r = dropWhile (\<lambda>c. \<not> space c) (tl r)" using r(2) by (cases r) simp_all
  then have "length (dropWhile (\<lambda>c. \<not> space c) r) < length r"
    using length_dropWhile_le [of "\<lambda>c. \<not> space c" "tl r"] r(2) by (cases r) simp_all
  also have "\<dots> \<le> length bs" using length_dropWhile_le [of space bs] r(1) by simp
  finally show "(dropWhile (\<lambda>c. \<not> space c) r, bs) \<in> measure length" by simp
qed

declare words_of.simps [simp del]

lemma words_of_Nil [simp]: "words_of [] = []"
  by (simp add: words_of.simps)

lemma words_of_space: "space c \<Longrightarrow> words_of (c # bs) = words_of bs"
  by (subst (1 2) words_of.simps) simp

lemma words_of_word: "\<not> space c \<Longrightarrow> words_of (c # bs) = (c # takeWhile (\<lambda>c. \<not> space c) bs) # words_of (dropWhile (\<lambda>c. \<not> space c) bs)"
  by (subst words_of.simps) simp

lemma in_literal_space: "in_literal [32, 13, 9, 10, 11] c = space c"
  by (auto simp: in_literal_def space_def)

lemma wc_char_inword: "inword (wc_char c s) = (\<not> space c)"
  by (simp add: wc_char_def in_literal_space Let_def)

lemma fold_wc_char:
  "wc_l (fold wc_char bs s) = wc_l s + of_nat (count_list bs 10)"
  "wc_c (fold wc_char bs s) = wc_c s + of_nat (length bs)"
  by (induction bs arbitrary: s) (simp_all add: wc_char_def Let_def)

lemma fold_wc_words:
  "wc_w (fold wc_char bs s) = wc_w s + of_nat (length (words_of (if inword s then dropWhile (\<lambda>c. \<not> space c) bs else bs)))"
proof (induction bs arbitrary: s)
  case (Cons c cs)
  show ?case
  proof (cases "space c")
    case True
    then have "wc_w (wc_char c s) = wc_w s" by (simp add: wc_char_def in_literal_space Let_def)
    with Cons [of "wc_char c s"] True show ?thesis by (simp add: wc_char_inword words_of_space)
  next
    case False
    then have "wc_w (wc_char c s) = (if inword s then wc_w s else wc_w s + 1)" by (simp add: wc_char_def in_literal_space Let_def)
    with Cons [of "wc_char c s"] False show ?thesis by (simp add: wc_char_inword words_of_word)
  qed
qed simp

lemma wc_loop_folds:
  assumes d: "delivers os fd inp out"
  shows "\<exists>w'. wc_loop os fd s w = Some (0, fold wc_char (inp w) s, w') \<and> inp w' = [] \<and> out w' = out w"
  using d
proof (induction w arbitrary: s rule: read_all_induct)
  case (eof w w')
  then show ?case by (subst wc_loop.simps) simp
next
  case (more w k w')
  from more(6) [OF refl] obtain u where u: "wc_loop os fd (fold wc_char (take k (inp w)) s) w' = Some (0, fold wc_char (inp w') (fold wc_char (take k (inp w)) s), u)"
    "inp u = []" "out u = out w'" by blast
  have "fold wc_char (inp w') (fold wc_char (take k (inp w)) s) = fold wc_char (inp w) s"
    unfolding more(4) by (metis append_take_drop_id fold_append o_apply)
  with u more show ?case by (subst wc_loop.simps) simp
qed

text \<open>C26. \<open>wc\<close> counts its whole input, in whatever pieces it is delivered: it ends, and prints the number of newlines,
  of words and of bytes, each modulo the 32 bits of an \<open>int\<close>, and the name.\<close>

theorem wc_counts:
  assumes "delivers os fd inp out" and "accepts os 1 inp out"
    and "formatted udigits (msg ''%d %d %d %s'') [Word (ucast (of_nat (count_list (inp w) 10) :: u32)),
      Word (ucast (of_nat (length (words_of (inp w))) :: u32)), Word (ucast (of_nat (length (inp w)) :: u32)), Str (Some name)] = Some bs"
  shows "\<exists>w'. wc os fd name w = Some (None, w') \<and> inp w' = [] \<and> out w' = out w @ bs"
proof -
  let ?s = "\<lparr>wc_l = 0, wc_w = 0, wc_c = 0, inword = False\<rparr>"
  obtain v where v: "wc_loop os fd ?s w = Some (0, fold wc_char (inp w) ?s, v)" "inp v = []" "out v = out w"
    using wc_loop_folds [OF assms(1)] by blast
  have s: "wc_l (fold wc_char (inp w) ?s) = of_nat (count_list (inp w) 10)" "wc_c (fold wc_char (inp w) ?s) = of_nat (length (inp w))"
    "wc_w (fold wc_char (inp w) ?s) = of_nat (length (words_of (inp w)))"
    by (simp_all add: fold_wc_char fold_wc_words)
  obtain u where "uprintf os (msg ''%d %d %d %s'') [Word (ucast (of_nat (count_list (inp w) 10) :: u32)),
      Word (ucast (of_nat (length (words_of (inp w))) :: u32)), Word (ucast (of_nat (length (inp w)) :: u32)), Str (Some name)] v = Some u" "inp u = inp v" "out u = out v @ bs"
    using uprintf_formatted [OF assms(2,3)] by blast
  with v show ?thesis by (simp add: wc_def s)
qed

theorem wc_counts_witness:
  "\<exists>w'. wc (tape 3) 0 [120] ([97, 32, 98, 10], []) = Some (None, w') \<and> snd w' = [49, 32, 50, 32, 52, 32, 120, 10]"
proof -
  let ?i = "[97, 32, 98, 10] :: bytes"
  have w: "words_of ?i = [[97], [98]]" by (simp add: words_of_word words_of_space space_def)
  have dig: "digits_rev udigits 10 k = [udigits ! k]" if "k < 10" for k using that by (simp add: digits_rev.simps [of udigits 10 k])
  have u: "udigits ! 1 = 49" "udigits ! 2 = 50" "udigits ! 4 = 52" by (simp_all add: udigits_def str_def asc_def)
  have d: "digits_rev udigits 10 (Suc 0) = [49]" "digits_rev udigits 10 2 = [50]" "digits_rev udigits 10 4 = [52]"
    using dig [of 1] dig [of 2] dig [of 4] u by simp_all
  have n: "count_list (fst (?i, [] :: bytes)) 10 = 1" "length (words_of (fst (?i, [] :: bytes))) = 2" "length (fst (?i, [] :: bytes)) = 4"
    by (simp_all add: w)
  have "formatted udigits (msg ''%d %d %d %s'') [Word (ucast (of_nat 1 :: u32)), Word (ucast (of_nat 2 :: u32)), Word (ucast (of_nat 4 :: u32)), Str (Some [120])] =
      Some [49, 32, 50, 32, 52, 32, 120, 10]"
    by (simp add: msg_def str_def asc_def read_directive_def at_def int_buf_def arg_number_def d)
  moreover have "delivers (tape 3) 0 fst snd" by (simp add: tape_delivers)
  ultimately show ?thesis
    using wc_counts [OF _ tape_accepts, of 3 0 "(?i, [])" "[120]"] unfolding n by auto
qed

end
