(* ===== verification/Grep.thy ===== *)
theory Grep
  imports Tools
begin

text \<open>
  \<^verbatim>\<open>user/grep.c\<close>: the pattern matcher, equivalent to a declarative meaning of patterns, and the line buffer
  around it. Strings are byte lists; \<open>at\<close> reads the terminating NUL after their end.
\<close>

section \<open>Definitions\<close>

function matchhere :: "bytes \<Rightarrow> bytes \<Rightarrow> bool"
  and matchstar :: "u8 \<Rightarrow> bytes \<Rightarrow> bytes \<Rightarrow> bool" where
  "matchhere re tx =
     (if at re 0 = 0 then True
      else if at re 1 = asc (CHR ''*'') then matchstar (at re 0) (drop 2 re) tx
      else if at re 0 = asc (CHR ''$'') \<and> at re 1 = 0 then at tx 0 = 0
      else if at tx 0 \<noteq> 0 \<and> (at re 0 = asc (CHR ''.'') \<or> at re 0 = at tx 0) then matchhere (drop 1 re) (drop 1 tx)
      else False)"
| "matchstar c re tx =
     (if matchhere re tx then True
      else if at tx 0 \<noteq> 0 \<and> (at tx 0 = c \<or> c = asc (CHR ''.'')) then matchstar c re (drop 1 tx)
      else False)"
  by pat_completeness auto
termination
proof (relation "inv_image (less_than <*lex*> less_than)
    (\<lambda>x. case x of Inl (re, tx) \<Rightarrow> (2 * length re, length tx) | Inr (c, re, tx) \<Rightarrow> (2 * length re + 1, length tx))")
qed (auto simp: at_def asc_def split: if_splits)

function match_rest :: "bytes \<Rightarrow> bytes \<Rightarrow> bool" where
  "match_rest re tx = (if matchhere re tx then True else if at tx 0 \<noteq> 0 then match_rest re (drop 1 tx) else False)"
  by pat_completeness auto
termination
  by (relation "measure (\<lambda>(re, tx). length tx)") (auto simp: at_def split: if_splits)

definition matches :: "bytes \<Rightarrow> bytes \<Rightarrow> bool" where
  "matches re tx = (if at re 0 = asc (CHR ''^'') then matchhere (drop 1 re) tx else match_rest re tx)"

declare matchhere.simps [simp del] matchstar.simps [simp del] match_rest.simps [simp del]

text \<open>\<open>strchr\<close> on the NUL-terminated buffer: the index of the first newline that no NUL precedes.\<close>

fun find_newline :: "bytes \<Rightarrow> nat option" where
  "find_newline [] = None"
| "find_newline (c # cs) = (if c = 0 then None else if c = 10 then Some 0 else map_option Suc (find_newline cs))"

lemma find_newline_length: "find_newline p = Some q \<Longrightarrow> q < length p"
  by (induction p arbitrary: q) (auto split: if_splits)

function grep_lines :: "'w os \<Rightarrow> bytes \<Rightarrow> bytes \<Rightarrow> 'w \<Rightarrow> bytes \<times> 'w" where
  "grep_lines os pattern p w =
     (case find_newline p of
        None \<Rightarrow> (p, w)
      | Some q \<Rightarrow>
          let w = (if matches pattern (take q p) then snd (os_write os 1 (take (q + 1) p) w) else w)
          in grep_lines os pattern (drop (q + 1) p) w)"
  by pat_completeness auto
termination
  by (relation "measure (\<lambda>(os, pattern, p, w). length p)") (auto dest: find_newline_length)

declare grep_lines.simps [simp del]

text \<open>\<open>buf\<close> is what the first \<open>m\<close> of the 1024 bytes of the buffer hold.\<close>

partial_function (option) grep_loop :: "'w os \<Rightarrow> bytes \<Rightarrow> int \<Rightarrow> bytes \<Rightarrow> 'w \<Rightarrow> 'w option" where
  "grep_loop os pattern fd buf w =
     (let (n, bs, w) = os_read os fd (1024 - length buf - 1) w
      in if n > 0 then let (buf, w) = grep_lines os pattern (buf @ bs) w in grep_loop os pattern fd buf w
         else Some w)"

definition grep :: "'w os \<Rightarrow> bytes \<Rightarrow> int \<Rightarrow> 'w \<Rightarrow> 'w option" where
  "grep os pattern fd w = grep_loop os pattern fd [] w"

primrec grep_files :: "'w os \<Rightarrow> bytes \<Rightarrow> bytes list \<Rightarrow> 'w \<Rightarrow> (int \<times> 'w) option" where
  "grep_files os pattern [] w = Some (0, w)"
| "grep_files os pattern (f # fs) w =
     (let (fd, w) = os_open os f 0 w
      in if fd < 0 then do { w \<leftarrow> uprintf os (msg ''grep: cannot open %s'') [Str (Some f)] w; Some (1, w) }
         else do { w \<leftarrow> grep os pattern fd w; grep_files os pattern fs (snd (os_close os fd w)) })"

definition grep_main :: "'w os \<Rightarrow> bytes list \<Rightarrow> 'w \<Rightarrow> (int \<times> 'w) option" where
  "grep_main os argv w =
     (if length argv \<le> 1 then do { w \<leftarrow> fprintf os 2 (msg ''usage: grep pattern [file ...]'') [] w; Some (1, w) }
      else if length argv \<le> 2 then do { w \<leftarrow> grep os (argv ! 1) 0 w; Some (0, w) }
      else grep_files os (argv ! 1) (drop 2 argv) w)"

section \<open>The meaning of patterns\<close>

text \<open>A pattern is a sequence of characters and dots, each followed by a star or not; a final dollar stands for the
  end of the text.\<close>

datatype atom = Dot | Lit u8

datatype item = One atom | Many atom | Eol

definition fits :: "atom \<Rightarrow> u8 \<Rightarrow> bool" where
  "fits a c = (case a of Dot \<Rightarrow> True | Lit d \<Rightarrow> c = d)"

definition atom_of :: "u8 \<Rightarrow> atom" where
  "atom_of c = (if c = asc (CHR ''.'') then Dot else Lit c)"

fun items :: "bytes \<Rightarrow> item list" where
  "items [] = []"
| "items [c] = [if c = asc (CHR ''$'') then Eol else One (atom_of c)]"
| "items (c # d # re) = (if d = asc (CHR ''*'') then Many (atom_of c) # items re else One (atom_of c) # items (d # re))"

text \<open>\<open>denotes is u v\<close>: the text \<open>u\<close>, followed by \<open>v\<close>, is an instance of the items.\<close>

primrec denotes :: "item list \<Rightarrow> bytes \<Rightarrow> bytes \<Rightarrow> bool" where
  "denotes [] u v \<longleftrightarrow> u = []"
| "denotes (i # is) u v \<longleftrightarrow>
     (case i of
        One a \<Rightarrow> \<exists>c w. u = c # w \<and> fits a c \<and> denotes is w v
      | Many a \<Rightarrow> \<exists>x w. u = x @ w \<and> list_all (fits a) x \<and> denotes is w v
      | Eol \<Rightarrow> u = [] \<and> v = [])"

definition occurs :: "bytes \<Rightarrow> bytes \<Rightarrow> bool" where
  "occurs re tx \<longleftrightarrow>
     (case re of
        c # re' \<Rightarrow> if c = asc (CHR ''^'') then \<exists>u v. tx = u @ v \<and> denotes (items re') u v
                  else \<exists>p u v. tx = p @ u @ v \<and> denotes (items re) u v
      | [] \<Rightarrow> True)"

definition starts :: "item list \<Rightarrow> bytes \<Rightarrow> bool" where
  "starts is tx \<longleftrightarrow> (\<exists>u v. tx = u @ v \<and> denotes is u v)"

lemma starts_Nil [simp]: "starts [] tx"
  by (auto simp: starts_def)

lemma starts_One: "starts (One a # is) tx \<longleftrightarrow> (case tx of [] \<Rightarrow> False | c # cs \<Rightarrow> fits a c \<and> starts is cs)"
  (is "?l = ?r")
proof
  assume ?r
  then obtain c u v where "tx = c # u @ v" "fits a c" "denotes is u v" by (auto simp: starts_def split: list.splits)
  then show ?l unfolding starts_def by (intro exI [of _ "c # u"] exI [of _ v]) simp
next
  assume ?l
  then obtain c w v where "tx = c # w @ v" "fits a c" "denotes is w v" by (auto simp: starts_def)
  then show ?r by (auto simp: starts_def)
qed

lemma starts_Eol: "starts (Eol # is) tx \<longleftrightarrow> tx = []"
  by (auto simp: starts_def)

lemma starts_Many:
  "starts (Many a # is) tx \<longleftrightarrow> starts is tx \<or> (case tx of [] \<Rightarrow> False | c # cs \<Rightarrow> fits a c \<and> starts (Many a # is) cs)"
  (is "?l = ?r")
proof
  assume ?l
  then obtain x w v where t: "tx = x @ w @ v" "list_all (fits a) x" "denotes is w v" by (auto simp: starts_def)
  show ?r
  proof (cases x)
    case Nil
    then show ?thesis using t by (auto simp: starts_def)
  next
    case (Cons c x')
    then have "starts (Many a # is) (x' @ w @ v)" using t unfolding starts_def by (intro exI [of _ "x' @ w"] exI [of _ v]) auto
    with t Cons show ?thesis by simp
  qed
next
  assume ?r
  then show ?l
  proof
    assume "starts is tx"
    then obtain u v where "tx = u @ v" "denotes is u v" by (auto simp: starts_def)
    then have "tx = u @ v \<and> u = [] @ u \<and> list_all (fits a) [] \<and> denotes is u v" by simp
    then show ?l unfolding starts_def denotes.simps item.case by blast
  next
    assume "case tx of [] \<Rightarrow> False | c # cs \<Rightarrow> fits a c \<and> starts (Many a # is) cs"
    then obtain c x w v where t: "tx = c # x @ w @ v" "fits a c" "list_all (fits a) x" "denotes is w v"
      by (auto simp: starts_def split: list.splits)
    then have "tx = (c # x @ w) @ v \<and> c # x @ w = (c # x) @ w \<and> list_all (fits a) (c # x) \<and> denotes is w v" by simp
    then show ?l unfolding starts_def denotes.simps item.case by blast
  qed
qed

section \<open>The matcher implements the meaning\<close>

lemma at_simps [simp]: "at [] i = 0" "at (c # cs) 0 = c" "at (c # cs) (Suc i) = at cs i"
  by (simp_all add: at_def)

lemma pattern_chars: "asc (CHR ''*'') = 42" "asc (CHR ''$'') = 36" "asc (CHR ''.'') = 46" "asc (CHR ''^'') = 94"
  by (simp_all add: asc_def)

lemma fits_atom_of: "fits (atom_of c) x \<longleftrightarrow> c = 46 \<or> x = c"
  by (simp add: fits_def atom_of_def pattern_chars)

lemma matchhere_One:
  assumes "0 \<notin> set tx" and "c \<noteq> 0" and "at re 0 \<noteq> 42" and "re \<noteq> [] \<or> c \<noteq> 36" and "0 \<notin> set re"
  shows "matchhere (c # re) tx = (case tx of [] \<Rightarrow> False | x # xs \<Rightarrow> fits (atom_of c) x \<and> matchhere re xs)"
  unfolding matchhere.simps [of "c # re" tx] using assms by (cases re; cases tx) (auto simp: pattern_chars fits_atom_of)

lemma matcher_starts:
  "0 \<notin> set re \<Longrightarrow> 0 \<notin> set tx \<Longrightarrow> matchhere re tx = starts (items re) tx"
  "0 \<notin> set re \<Longrightarrow> 0 \<notin> set tx \<Longrightarrow> matchstar c re tx = starts (Many (atom_of c) # items re) tx"
proof (induction re tx and c re tx rule: matchhere_matchstar.induct)
  case (1 re tx)
  note IHs = 1(1,2) and nz = 1(3,4)
  consider (empty) "re = []" | (single) c where "re = [c]" | (more) c d r where "re = c # d # r" by (cases re rule: items.cases) auto
  then show ?case
  proof cases
    case empty
    then show ?thesis by (simp add: matchhere.simps)
  next
    case (single c)
    show ?thesis
    proof (cases "c = 36")
      case True
      then show ?thesis using single nz by (cases tx) (simp_all add: matchhere.simps pattern_chars starts_Eol)
    next
      case False
      moreover have "matchhere [] xs" for xs by (simp add: matchhere.simps)
      ultimately show ?thesis
        using single nz by (cases tx) (simp_all add: matchhere_One pattern_chars starts_One)
    qed
  next
    case (more c d r)
    show ?thesis
    proof (cases "d = 42")
      case True
      have "matchstar (at re 0) (drop 2 re) tx = starts (Many (atom_of (at re 0)) # items (drop 2 re)) tx"
        by (rule IHs(1)) (use nz more True in \<open>auto simp: pattern_chars\<close>)
      then show ?thesis using True more nz by (subst matchhere.simps) (simp add: pattern_chars)
    next
      case False
      have IH: "matchhere (d # r) xs = starts (items (d # r)) xs" if "tx = x # xs" "fits (atom_of c) x" for x xs
        using IHs(2) nz more False that by (auto simp: pattern_chars fits_atom_of)
      show ?thesis using more False nz IH by (cases tx) (auto simp: matchhere_One pattern_chars starts_One)
    qed
  qed
next
  case (2 c re tx)
  then show ?case
    unfolding matchstar.simps [of c re tx] starts_Many [of _ _ tx] by (cases tx) (auto simp: pattern_chars fits_atom_of)
qed

lemma match_rest_starts:
  "0 \<notin> set re \<Longrightarrow> 0 \<notin> set tx \<Longrightarrow> match_rest re tx = (\<exists>p q. tx = p @ q \<and> starts (items re) q)"
proof (induction tx)
  case Nil
  then show ?case by (subst match_rest.simps) (simp add: matcher_starts)
next
  case (Cons c cs)
  have "(\<exists>p q. c # cs = p @ q \<and> starts (items re) q) \<longleftrightarrow> starts (items re) (c # cs) \<or> (\<exists>p q. cs = p @ q \<and> starts (items re) q)"
    by (auto simp: Cons_eq_append_conv)
  with Cons show ?case by (subst match_rest.simps) (simp add: matcher_starts)
qed

text \<open>C23. The matcher of \<open>grep\<close> implements the meaning of its patterns: a line matches iff some part of it, at its
  beginning if the pattern starts with a circumflex, and at its end if it ends with a dollar, is an instance of the
  sequence of characters, dots and starred characters. The recursion always ends.\<close>

theorem matcher_correct:
  assumes "0 \<notin> set re" and "0 \<notin> set tx"
  shows "matches re tx \<longleftrightarrow> occurs re tx"
proof (cases re)
  case Nil
  then show ?thesis using match_rest_starts [OF assms] by (simp add: matches_def occurs_def pattern_chars exI [of _ "[]"])
next
  case (Cons c r)
  then have r: "0 \<notin> set r" using assms(1) by simp
  show ?thesis
  proof (cases "c = 94")
    case True
    then show ?thesis using Cons matcher_starts(1) [OF r assms(2)] by (simp add: matches_def occurs_def pattern_chars starts_def)
  next
    case False
    then have "matches re tx = match_rest re tx" "occurs re tx = (\<exists>p u v. tx = p @ u @ v \<and> denotes (items re) u v)"
      using Cons by (simp_all add: matches_def occurs_def pattern_chars)
    moreover have "(\<exists>p q. tx = p @ q \<and> starts (items re) q) = (\<exists>p u v. tx = p @ u @ v \<and> denotes (items re) u v)"
      unfolding starts_def by blast
    ultimately show ?thesis using match_rest_starts [OF assms] by simp
  qed
qed

theorem matcher_correct_witness:
  "matches (str ''^ab*c$'') (str ''abbc'') = occurs (str ''^ab*c$'') (str ''abbc'') \<and> matches (str ''^ab*c$'') (str ''abbc'')"
proof
  have z: "0 \<notin> set (str ''^ab*c$'')" "0 \<notin> set (str ''abbc'')" by (simp_all add: str_def asc_def)
  show "matches (str ''^ab*c$'') (str ''abbc'') = occurs (str ''^ab*c$'') (str ''abbc'')" by (rule matcher_correct [OF z])
  show "matches (str ''^ab*c$'') (str ''abbc'')" by code_simp
qed

section \<open>The line buffer\<close>

text \<open>The complete lines of a text, without their newlines, and the beginning of a line that is left.\<close>

fun cut :: "bytes \<Rightarrow> bytes list \<times> bytes" where
  "cut [] = ([], [])"
| "cut (c # cs) =
     (let (ls, r) = cut cs
      in if c = 10 then ([] # ls, r) else case ls of [] \<Rightarrow> ([], c # r) | l # ls \<Rightarrow> ((c # l) # ls, r))"

definition selected :: "bytes \<Rightarrow> bytes list \<Rightarrow> bytes" where
  "selected pattern ls = concat (map (\<lambda>l. l @ [10]) (filter (matches pattern) ls))"

lemma selected_append: "selected p (xs @ ys) = selected p xs @ selected p ys"
  by (simp add: selected_def)

lemma cut_line: "10 \<notin> set l \<Longrightarrow> cut (l @ 10 # cs) = (l # fst (cut cs), snd (cut cs))"
  by (induction l) (auto simp: case_prod_beta Let_def)

lemma cut_rest: "10 \<notin> set r \<Longrightarrow> cut r = ([], r)"
  by (induction r) auto

lemma cut_append: "cut (xs @ ys) = (fst (cut xs) @ fst (cut (snd (cut xs) @ ys)), snd (cut (snd (cut xs) @ ys)))"
proof (induction "length xs" arbitrary: xs rule: less_induct)
  case less
  show ?case
  proof (cases "10 \<in> set xs")
    case False
    then show ?thesis by (simp add: cut_rest)
  next
    case True
    then obtain l cs where xs: "xs = l @ 10 # cs" "10 \<notin> set l" by (meson split_list_first)
    with less [of cs] show ?thesis by (simp add: cut_line)
  qed
qed

lemma cut_snd_newline: "10 \<notin> set (snd (cut xs))"
  by (induction xs) (auto simp: Let_def split: prod.splits list.splits)

lemma cut_snd_subset: "set (snd (cut xs)) \<subseteq> set xs"
  by (induction xs) (auto simp: Let_def split: prod.splits list.splits)

lemma find_newline_first:
  "0 \<notin> set p \<Longrightarrow> find_newline p = (if 10 \<in> set p then Some (length (takeWhile (\<lambda>c. c \<noteq> 10) p)) else None)"
  by (induction p) auto

lemma grep_lines_cut:
  assumes a: "accepts os 1 inp out" and "0 \<notin> set p"
  shows "\<exists>w'. grep_lines os pattern p w = (snd (cut p), w') \<and> inp w' = inp w \<and> out w' = out w @ selected pattern (fst (cut p))"
  using assms(2)
proof (induction "length p" arbitrary: p w rule: less_induct)
  case less
  show ?case
  proof (cases "10 \<in> set p")
    case False
    then show ?thesis using less.prems by (simp add: grep_lines.simps find_newline_first cut_rest selected_def)
  next
    case True
    then obtain l cs where p: "p = l @ 10 # cs" "10 \<notin> set l" by (meson split_list_first)
    then have "takeWhile (\<lambda>c. c \<noteq> 10) p = l" by (auto simp: takeWhile_append takeWhile_eq_all_conv)
    then have q: "find_newline p = Some (length l)" using less.prems True by (simp add: find_newline_first)
    let ?w = "if matches pattern l then snd (os_write os 1 (l @ [10]) w) else w"
    have w: "inp ?w = inp w" "out ?w = out w @ (if matches pattern l then l @ [10] else [])"
      by (auto intro: accepts_write [OF a, of "l @ [10]" w])
    obtain v where "grep_lines os pattern cs ?w = (snd (cut cs), v)" "inp v = inp ?w" "out v = out ?w @ selected pattern (fst (cut cs))"
      using less.hyps [of cs ?w] less.prems p by auto
    moreover have "grep_lines os pattern p w = grep_lines os pattern cs ?w" using q unfolding p(1) grep_lines.simps [of os pattern "l @ 10 # cs" w] by simp
    ultimately show ?thesis using w p by (simp add: cut_line selected_def)
  qed
qed

text \<open>The buffer has room while the line it holds is shorter than 1023 bytes.\<close>

definition short_lines :: "bytes \<Rightarrow> bool" where
  "short_lines bs \<longleftrightarrow> (\<forall>l\<in>set (fst (cut bs)). length l < 1023) \<and> length (snd (cut bs)) < 1023"

lemma cut_prefix: "length (snd (cut xs)) < 1023" if "short_lines (xs @ ys)"
proof -
  have c: "cut (xs @ ys) = (fst (cut xs) @ fst (cut (snd (cut xs) @ ys)), snd (cut (snd (cut xs) @ ys)))" by (rule cut_append)
  let ?r = "snd (cut xs)"
  show ?thesis
  proof (cases "10 \<in> set ys")
    case False
    then have "cut (?r @ ys) = ([], ?r @ ys)" using cut_snd_newline [of xs] by (intro cut_rest) auto
    then show ?thesis using that unfolding short_lines_def c by simp
  next
    case True
    then obtain l zs where "ys = l @ 10 # zs" "10 \<notin> set l" by (meson split_list_first)
    then have "cut (?r @ ys) = ((?r @ l) # fst (cut zs), snd (cut zs))" using cut_snd_newline [of xs] cut_line [of "?r @ l" zs] by simp
    then show ?thesis using that unfolding short_lines_def c by simp
  qed
qed

lemma short_lines_rest: "short_lines (xs @ ys) \<Longrightarrow> short_lines (snd (cut xs) @ ys)"
  using cut_append [of xs ys] by (simp add: short_lines_def)

lemma grep_loop_selects:
  assumes d: "delivers os fd inp out" and a: "accepts os 1 inp out"
  shows "0 \<notin> set (buf @ inp w) \<Longrightarrow> 10 \<notin> set buf \<Longrightarrow> short_lines (buf @ inp w) \<Longrightarrow>
    \<exists>w'. grep_loop os pattern fd buf w = Some w' \<and> inp w' = [] \<and> out w' = out w @ selected pattern (fst (cut (buf @ inp w)))"
proof (induction "length (inp w)" arbitrary: buf w rule: less_induct)
  case less
  have "length (snd (cut buf)) < 1023" by (rule cut_prefix [OF less.prems(3)])
  then have room: "0 < 1024 - length buf - 1" using less.prems(2) by (simp add: cut_rest)
  obtain k w' where r: "os_read os fd (1024 - length buf - 1) w = (int k, take k (inp w), w')" "k \<le> length (inp w)"
    "inp w \<noteq> [] \<Longrightarrow> 0 < k" "inp w' = drop k (inp w)" "out w' = out w"
    by (rule delivers_read [OF d, of "1024 - length buf - 1" w]) (use room in auto)
  show ?case
  proof (cases "inp w = []")
    case True
    then show ?thesis using r less.prems(2) by (subst grep_loop.simps) (simp add: cut_rest selected_def)
  next
    case False
    let ?p = "buf @ take k (inp w)"
    have all: "?p @ inp w' = buf @ inp w" using r(4) by simp
    have z: "0 \<notin> set ?p" using less.prems(1) set_take_subset [of k "inp w"] by auto
    obtain v where v: "grep_lines os pattern ?p w' = (snd (cut ?p), v)" "inp v = inp w'" "out v = out w @ selected pattern (fst (cut ?p))"
      using grep_lines_cut [OF a z, of pattern w'] r(5) by auto
    have "0 \<notin> set (snd (cut ?p) @ inp v)"
      using cut_snd_subset [of ?p] z less.prems(1) v(2) r(4) set_drop_subset [of k "inp w"] by auto
    moreover have "short_lines (snd (cut ?p) @ inp v)" using short_lines_rest [of ?p "inp w'"] less.prems(3) v(2) unfolding all by simp
    moreover have "length (inp v) < length (inp w)" using v(2) r(2-4) False by simp
    ultimately obtain u where u: "grep_loop os pattern fd (snd (cut ?p)) v = Some u" "inp u = []"
      "out u = out v @ selected pattern (fst (cut (snd (cut ?p) @ inp v)))"
      using less.hyps [of v "snd (cut ?p)"] cut_snd_newline by blast
    have "fst (cut (buf @ inp w)) = fst (cut ?p) @ fst (cut (snd (cut ?p) @ inp v))" using cut_append [of ?p "inp w'"] v(2) unfolding all by simp
    then have "out u = out w @ selected pattern (fst (cut (buf @ inp w)))" using u(3) v(3) by (simp add: selected_append)
    moreover have "0 < int k" using r(3) False by simp
    ultimately show ?thesis using r(1) v(1) u(1,2) by (subst grep_loop.simps) simp
  qed
qed

text \<open>C24. \<open>grep\<close> selects lines: on a text without NUL bytes whose lines are shorter than 1023 bytes it ends, has read
  everything and has written exactly the newline-terminated lines that match, in order, in whatever pieces the
  input was delivered.\<close>

theorem grep_selects:
  assumes "delivers os fd inp out" and "accepts os 1 inp out" and "0 \<notin> set (inp w)" and "short_lines (inp w)"
  shows "\<exists>w'. grep os pattern fd w = Some w' \<and> inp w' = [] \<and> out w' = out w @ selected pattern (fst (cut (inp w)))"
  using grep_loop_selects [OF assms(1,2), of "[]" w pattern] assms(3,4) by (simp add: grep_def)

theorem grep_selects_witness:
  "\<exists>w'. grep (tape 2) (str ''a'') 0 (str ''ba'' @ 10 # str ''c'' @ [10], []) = Some w' \<and> fst w' = [] \<and> snd w' = str ''ba'' @ [10]"
proof -
  let ?i = "str ''ba'' @ 10 # str ''c'' @ [10]"
  have c: "cut ?i = ([str ''ba'', str ''c''], [])" by (simp add: str_def asc_def)
  have "matches (str ''a'') (str ''ba'')" "\<not> matches (str ''a'') (str ''c'')" by code_simp+
  then have s: "selected (str ''a'') [str ''ba'', str ''c''] = str ''ba'' @ [10]" by (simp add: selected_def)
  have "delivers (tape 2) 0 fst snd" by (simp add: tape_delivers)
  moreover have "0 \<notin> set (fst (?i, [] :: bytes))" by (simp add: str_def asc_def)
  moreover have "short_lines (fst (?i, [] :: bytes))" by (simp add: short_lines_def c) (simp add: str_def)
  ultimately show ?thesis using grep_selects [OF _ tape_accepts, of 2 0 "(?i, [])" "str ''a''"] by (simp add: c s)
qed

text \<open>The buffer fills up with a line that has no end in it, and the read of 0 bytes looks like the end of the file.\<close>

lemma grep_loop_fills:
  assumes d: "delivers os fd inp out"
  shows "0 \<notin> set buf \<Longrightarrow> 10 \<notin> set buf \<Longrightarrow> length buf + k = 1023 \<Longrightarrow> k \<le> length (inp w) \<Longrightarrow>
    0 \<notin> set (take k (inp w)) \<Longrightarrow> 10 \<notin> set (take k (inp w)) \<Longrightarrow>
    \<exists>w'. grep_loop os pattern fd buf w = Some w' \<and> inp w' = drop k (inp w) \<and> out w' = out w"
proof (induction k arbitrary: buf w rule: less_induct)
  case (less k)
  have n: "1024 - length buf - 1 = k" using less.prems(3) by simp
  obtain j w' where r: "os_read os fd k w = (int j, take j (inp w), w')" "j \<le> k" "j \<le> length (inp w)"
    "0 < k \<Longrightarrow> inp w \<noteq> [] \<Longrightarrow> 0 < j" "inp w' = drop j (inp w)" "out w' = out w"
    using delivers_read [OF d, of k w] by metis
  show ?case
  proof (cases "k = 0")
    case True
    then show ?thesis using r n by (subst grep_loop.simps) simp
  next
    case False
    then have "inp w \<noteq> []" using less.prems(4) by (intro notI) simp
    then have j: "0 < j" using r(4) False by simp
    have sub: "set (take j (inp w)) \<subseteq> set (take k (inp w))" using r(2) by (rule set_take_subset_set_take)
    have z: "0 \<notin> set (buf @ take j (inp w))" "10 \<notin> set (buf @ take j (inp w))" using less.prems(1,2,5,6) sub by auto
    have "find_newline (buf @ take j (inp w)) = None" unfolding find_newline_first [OF z(1)] by (rule if_not_P [OF z(2)])
    then have g: "grep_lines os pattern (buf @ take j (inp w)) w' = (buf @ take j (inp w), w')"
      by (intro trans [OF grep_lines.simps]) (simp only: option.case)
    have t: "take (k - j) (inp w') = drop j (take k (inp w))" using r(2,5) by (simp add: drop_take)
    have "0 \<notin> set (take (k - j) (inp w'))" "10 \<notin> set (take (k - j) (inp w'))"
      unfolding t using less.prems(5,6) set_drop_subset [of j "take k (inp w)"] by auto
    then have "\<exists>v. grep_loop os pattern fd (buf @ take j (inp w)) w' = Some v \<and> inp v = drop (k - j) (inp w') \<and> out v = out w'"
      using less.prems r j z by (intro less.IH) auto
    then show ?thesis using r j n g by (subst grep_loop.simps) auto
  qed
qed

text \<open>C25. A line that is longer than the buffer ends the search: when the input starts with 1023 bytes without a
  newline, \<open>grep\<close> stops after them as if at the end of the file, without a message, and the rest of the file is never
  read.\<close>

theorem grep_gives_up:
  assumes "delivers os fd inp out" and "1023 \<le> length (inp w)" and "0 \<notin> set (take 1023 (inp w))" and "10 \<notin> set (take 1023 (inp w))"
  shows "\<exists>w'. grep os pattern fd w = Some w' \<and> inp w' = drop 1023 (inp w) \<and> out w' = out w"
  using grep_loop_fills [OF assms(1), of "[]" 1023 w pattern] assms(2-4) by (simp add: grep_def)

theorem grep_gives_up_witness:
  "\<exists>w'. grep (tape 512) (str ''a'') 0 (replicate 1023 97 @ [10, 97, 10], []) = Some w' \<and> fst w' = [10, 97, 10] \<and> snd w' = []"
proof -
  let ?w = "(replicate 1023 97 @ [10, 97, 10], []) :: bytes \<times> bytes"
  have "delivers (tape 512) 0 fst snd" by (simp add: tape_delivers)
  moreover have "take 1023 (fst ?w) = replicate 1023 97" "drop 1023 (fst ?w) = [10, 97, 10]" "1023 \<le> length (fst ?w)"
    by (simp_all only: fst_conv take_append drop_append length_append length_replicate take_replicate drop_replicate) simp_all
  moreover have "0 \<notin> set (replicate 1023 (97 :: u8))" "10 \<notin> set (replicate 1023 (97 :: u8))" by simp_all
  ultimately show ?thesis using grep_gives_up [of "tape 512" 0 fst snd ?w "str ''a''"] by (simp only: snd_conv not_False_eq_True simp_thms)
qed

end
