(* ===== verification/Sh.thy ===== *)
theory Sh
  imports Tools
begin

text \<open>
  The shell's parser, \<^verbatim>\<open>user/sh.c\<close>. The command line is a byte list \<open>buf\<close>; a \<open>char *\<close> into it is an index, and the
  byte at its end is the terminating NUL. A parse function returns the command and the position it has reached, or
  the message of the \<open>panic\<close> it ends in. The parse functions call each other; the fuel counts the depth of these
  calls, and the fuel \<open>parsecmd\<close> starts with is shown to be enough for every line. Memory for the commands is taken
  to be available.
\<close>

section \<open>Commands\<close>

datatype cmd =
    EXEC "(nat \<times> nat) list"
  | REDIR cmd nat nat u32 int
  | PIPE cmd cmd
  | LIST cmd cmd
  | BACK cmd

datatype parse_error = Syntax | Missing_File | Missing_Paren | Parseblock | Too_Many_Args | Leftovers nat

datatype 'a parsed = Parsed 'a | Panic parse_error | Out_Of_Fuel

primrec andthen :: "'a parsed \<Rightarrow> ('a \<Rightarrow> 'b parsed) \<Rightarrow> 'b parsed" where
  "andthen (Parsed a) f = f a"
| "andthen (Panic e) f = Panic e"
| "andthen Out_Of_Fuel f = Out_Of_Fuel"

definition MAXARGS :: nat where "MAXARGS = 10"

definition whitespace :: bytes where "whitespace = [32, 9, 13, 10, 11]"

definition symbols :: bytes where "symbols = str ''<|>&;()''"

section \<open>Tokens\<close>

function skip_space :: "bytes \<Rightarrow> nat \<Rightarrow> nat" where
  "skip_space buf s = (if s < length buf \<and> in_literal whitespace (at buf s) then skip_space buf (s + 1) else s)"
  by pat_completeness auto
termination
  by (relation "measure (\<lambda>(buf, s). length buf - s)") auto

function skip_word :: "bytes \<Rightarrow> nat \<Rightarrow> nat" where
  "skip_word buf s =
     (if s < length buf \<and> \<not> in_literal whitespace (at buf s) \<and> \<not> in_literal symbols (at buf s)
      then skip_word buf (s + 1) else s)"
  by pat_completeness auto
termination
  by (relation "measure (\<lambda>(buf, s). length buf - s)") auto

declare skip_space.simps [simp del] skip_word.simps [simp del]

text \<open>The token, where it starts and ends, and where the next one starts.\<close>

definition gettoken :: "bytes \<Rightarrow> nat \<Rightarrow> u8 \<times> nat \<times> nat \<times> nat" where
  "gettoken buf s =
     (let s = skip_space buf s; q = s; c = at buf s;
          (ret, s) =
            (if c = 0 then (c, s)
             else if c \<in> set (str ''|();&<'') then (c, s + 1)
             else if c = asc (CHR ''>'') then
               if at buf (s + 1) = asc (CHR ''>'') then (asc (CHR ''+''), s + 2) else (c, s + 1)
             else (asc (CHR ''a''), skip_word buf s));
          eq = s
      in (ret, q, eq, skip_space buf s))"

definition peek :: "bytes \<Rightarrow> nat \<Rightarrow> bytes \<Rightarrow> bool \<times> nat" where
  "peek buf s toks = (let s = skip_space buf s in (at buf s \<noteq> 0 \<and> in_literal toks (at buf s), s))"

lemma skip_space_mono: "s \<le> skip_space buf s"
proof (induction buf s rule: skip_space.induct)
  case (1 buf s)
  then show ?case by (subst skip_space.simps) (auto intro: Suc_leD)
qed

lemma skip_space_bound: "s \<le> length buf \<Longrightarrow> skip_space buf s \<le> length buf"
proof (induction buf s rule: skip_space.induct)
  case (1 buf s)
  then show ?case by (subst skip_space.simps) auto
qed

lemma skip_space_stops: "skip_space buf (skip_space buf s) = skip_space buf s"
proof (induction buf s rule: skip_space.induct)
  case (1 buf s)
  show ?case
  proof (cases "s < length buf \<and> in_literal whitespace (at buf s)")
    case True
    then have "skip_space buf s = skip_space buf (s + 1)" by (simp add: skip_space.simps [of buf s])
    then show ?thesis using 1 True by simp
  next
    case False
    then have "skip_space buf s = s" by (subst skip_space.simps) auto
    then show ?thesis by simp
  qed
qed

lemma skip_word_mono: "s \<le> skip_word buf s"
proof (induction buf s rule: skip_word.induct)
  case (1 buf s)
  then show ?case by (subst skip_word.simps) (auto intro: Suc_leD)
qed

lemma skip_word_bound: "s \<le> length buf \<Longrightarrow> skip_word buf s \<le> length buf"
proof (induction buf s rule: skip_word.induct)
  case (1 buf s)
  then show ?case by (subst skip_word.simps) auto
qed

lemma at_bound: "at buf s \<noteq> 0 \<Longrightarrow> s < length buf"
  by (simp add: at_def split: if_splits)

text \<open>A token that is a symbol moves the position; no token moves it past the end.\<close>

lemma gettoken_bounds:
  assumes "gettoken buf s = (ret, q, e, t)" and "s \<le> length buf"
  shows "s \<le> q" "q \<le> e" "e \<le> t" "t \<le> length buf"
proof -
  have b: "s \<le> skip_space buf s" "skip_space buf s \<le> length buf"
    using skip_space_mono skip_space_bound assms(2) by blast+
  have "s \<le> q \<and> q \<le> e \<and> e \<le> length buf \<and> t = skip_space buf e"
    using assms(1) b skip_word_mono [of "skip_space buf s" buf] skip_word_bound [OF b(2)]
      at_bound [of buf "skip_space buf s"] at_bound [of buf "skip_space buf s + 1"]
    by (auto simp: gettoken_def Let_def asc_def split: if_splits)
  then show "s \<le> q" "q \<le> e" "e \<le> t" "t \<le> length buf" using skip_space_mono skip_space_bound by auto
qed

lemma peek_bounds:
  assumes "peek buf s toks = (b, t)" and "s \<le> length buf"
  shows "s \<le> t" "t \<le> length buf" "skip_space buf t = t" "b \<Longrightarrow> at buf t \<noteq> 0"
  using assms skip_space_mono [of s buf] skip_space_bound [of s buf] skip_space_stops [of buf s] by (auto simp: peek_def Let_def)

lemma gettoken_moves:
  assumes "gettoken buf s = (ret, q, e, t)" and "at buf s \<noteq> 0" and "in_literal symbols (at buf s)" and "skip_space buf s = s"
  shows "s < t"
proof -
  have "s < e \<and> t = skip_space buf e"
    using assms by (auto simp: gettoken_def Let_def symbols_def in_literal_def str_def asc_def split: if_splits)
  then show ?thesis using skip_space_mono [of e buf] by simp
qed

lemma peek_gettoken_moves:
  assumes "peek buf s toks = (True, s1)" and "gettoken buf s1 = (tok, q, e, t)" and "s \<le> length buf" and "set toks \<subseteq> set symbols"
  shows "s < t \<and> t \<le> length buf"
proof -
  have s1: "s \<le> s1" "s1 \<le> length buf" "skip_space buf s1 = s1" "at buf s1 \<noteq> 0" using peek_bounds [OF assms(1,3)] by simp_all
  have "in_literal symbols (at buf s1)" using assms(1,4) by (auto simp: peek_def Let_def in_literal_def)
  then have "s1 < t" using gettoken_moves [OF assms(2) s1(4)] s1(3) by simp
  then show ?thesis using s1(1) gettoken_bounds(4) [OF assms(2) s1(2)] by simp
qed

section \<open>Parsing\<close>

text \<open>
  \<open>parseredirs\<close> wraps a command into redirections. In \<open>parseexec\<close> the command it wraps is still being filled, through
  the pointer \<open>cmd\<close>; so the redirections are collected, innermost first, and put around the command by \<open>redirected\<close>
  when it is complete. The loops ask that the position is in the buffer, as it always is.
\<close>

type_synonym redirection = "nat \<times> nat \<times> u32 \<times> int"

definition redirected :: "redirection list \<Rightarrow> cmd \<Rightarrow> cmd" where
  "redirected rs c = fold (\<lambda>(q, eq, mode, fd) c. REDIR c q eq mode fd) rs c"

definition redirect_mode :: "u8 \<Rightarrow> u32 \<times> int" where
  "redirect_mode tok =
     (if tok = asc (CHR ''<'') then (0, 0)
      else if tok = asc (CHR ''>'') then (0x001 OR 0x200 OR 0x400, 1)
      else (0x001 OR 0x200, 1))"

function parseredirs :: "bytes \<Rightarrow> nat \<Rightarrow> redirection list \<Rightarrow> (redirection list \<times> nat) parsed" where
  "parseredirs buf s rs =
     (let (b, s1) = peek buf s (str ''<>'')
      in if b \<and> s \<le> length buf then
           let (tok, _, _, s2) = gettoken buf s1; (tok', q, eq, s3) = gettoken buf s2; (mode, fd) = redirect_mode tok
           in if tok' \<noteq> asc (CHR ''a'') then Panic Missing_File else parseredirs buf s3 (rs @ [(q, eq, mode, fd)])
         else Parsed (rs, s1))"
  by pat_completeness auto
termination
proof (relation "measure (\<lambda>(buf, s, rs). length buf - s)", goal_cases)
  case (2 buf s rs pk b s1 g1 tok r1 q1 r2 e1 s2 g2 tok' r3 q r4 eq s3 md mode fd)
  then have "s < s2" "s2 \<le> length buf" using peek_gettoken_moves [of buf s "str ''<>''" s1 tok q1 e1 s2] by (auto simp: symbols_def str_def)
  moreover have "s2 \<le> s3" "s3 \<le> length buf" using gettoken_bounds [of buf s2 tok' q eq s3] 2 calculation by auto
  ultimately show ?case by simp
qed simp

declare parseredirs.simps [simp del]

function exec_args :: "bytes \<Rightarrow> nat \<Rightarrow> (nat \<times> nat) list \<Rightarrow> redirection list \<Rightarrow> (cmd \<times> nat) parsed" where
  "exec_args buf s argv rs =
     (let (b, s) = peek buf s (str ''|)&;'')
      in if b then Parsed (redirected rs (EXEC argv), s)
         else let (tok, q, eq, s) = gettoken buf s
              in if tok = 0 then Parsed (redirected rs (EXEC argv), s)
                 else if tok \<noteq> asc (CHR ''a'') then Panic Syntax
                 else let argv = argv @ [(q, eq)]
                      in if length argv \<ge> MAXARGS then Panic Too_Many_Args
                         else andthen (parseredirs buf s rs) (\<lambda>(rs, s). exec_args buf s argv rs))"
  by pat_completeness auto
termination
  by (relation "measure (\<lambda>(buf, s, argv, rs). MAXARGS - length argv)") auto

function back_loop :: "bytes \<Rightarrow> cmd \<Rightarrow> nat \<Rightarrow> cmd \<times> nat" where
  "back_loop buf cmd s =
     (let (b, s1) = peek buf s (str ''&'')
      in if b \<and> s \<le> length buf then let (_, _, _, s2) = gettoken buf s1 in back_loop buf (BACK cmd) s2 else (cmd, s1))"
  by pat_completeness auto
termination
proof (relation "measure (\<lambda>(buf, cmd, s). length buf - s)", goal_cases)
  case (2 buf cmd s pk b s1 g tok r1 q r2 e s2)
  then have "s < s2" "s2 \<le> length buf" using peek_gettoken_moves [of buf s "str ''&''" s1 tok q e s2] by (auto simp: symbols_def str_def)
  then show ?case by simp
qed simp

declare exec_args.simps [simp del] back_loop.simps [simp del]

fun parseline :: "nat \<Rightarrow> bytes \<Rightarrow> nat \<Rightarrow> (cmd \<times> nat) parsed"
  and parsepipe :: "nat \<Rightarrow> bytes \<Rightarrow> nat \<Rightarrow> (cmd \<times> nat) parsed"
  and parseexec :: "nat \<Rightarrow> bytes \<Rightarrow> nat \<Rightarrow> (cmd \<times> nat) parsed"
  and parseblock :: "nat \<Rightarrow> bytes \<Rightarrow> nat \<Rightarrow> (cmd \<times> nat) parsed" where
  "parseline 0 buf s = Out_Of_Fuel"
| "parseline (Suc n) buf s =
     andthen (parsepipe n buf s) (\<lambda>(cmd, s).
       let (cmd, s) = back_loop buf cmd s; (b, s) = peek buf s (str '';'')
       in if b then let (_, _, _, s) = gettoken buf s in andthen (parseline n buf s) (\<lambda>(r, s). Parsed (LIST cmd r, s))
          else Parsed (cmd, s))"
| "parsepipe 0 buf s = Out_Of_Fuel"
| "parsepipe (Suc n) buf s =
     andthen (parseexec n buf s) (\<lambda>(cmd, s).
       let (b, s) = peek buf s (str ''|'')
       in if b then let (_, _, _, s) = gettoken buf s in andthen (parsepipe n buf s) (\<lambda>(r, s). Parsed (PIPE cmd r, s))
          else Parsed (cmd, s))"
| "parseexec 0 buf s = Out_Of_Fuel"
| "parseexec (Suc n) buf s =
     (let (b, s) = peek buf s (str ''('')
      in if b then parseblock n buf s
         else andthen (parseredirs buf s []) (\<lambda>(rs, s). exec_args buf s [] rs))"
| "parseblock 0 buf s = Out_Of_Fuel"
| "parseblock (Suc n) buf s =
     (let (b, s) = peek buf s (str ''('')
      in if \<not> b then Panic Parseblock
         else let (_, _, _, s) = gettoken buf s
              in andthen (parseline n buf s) (\<lambda>(cmd, s).
                   let (b, s) = peek buf s (str '')'')
                   in if \<not> b then Panic Missing_Paren
                      else let (_, _, _, s) = gettoken buf s
                           in andthen (parseredirs buf s []) (\<lambda>(rs, s). Parsed (redirected rs cmd, s))))"

text \<open>\<open>nulterminate\<close> writes a NUL behind every word.\<close>

primrec nulterminate :: "cmd \<Rightarrow> bytes \<Rightarrow> bytes" where
  "nulterminate (EXEC argv) b = fold (\<lambda>(q, eq) b. b[eq := 0]) argv b"
| "nulterminate (REDIR c file efile mode fd) b = (nulterminate c b)[efile := 0]"
| "nulterminate (PIPE l r) b = nulterminate r (nulterminate l b)"
| "nulterminate (LIST l r) b = nulterminate r (nulterminate l b)"
| "nulterminate (BACK c) b = nulterminate c b"

definition parse_fuel :: "bytes \<Rightarrow> nat" where
  "parse_fuel buf = 4 * length buf + 4"

definition parsecmd :: "bytes \<Rightarrow> (cmd \<times> bytes) parsed" where
  "parsecmd buf =
     andthen (parseline (parse_fuel buf) buf 0) (\<lambda>(cmd, s).
       let (_, s) = peek buf s []
       in if s \<noteq> length buf then Panic (Leftovers s) else Parsed (cmd, nulterminate cmd (buf @ [0])))"

section \<open>Termination\<close>

text \<open>A parse that does not run out of fuel and moves forward inside the line.\<close>

definition advances :: "bytes \<Rightarrow> nat \<Rightarrow> ('a \<times> nat) parsed \<Rightarrow> bool" where
  "advances buf s p \<longleftrightarrow> (case p of Parsed (a, t) \<Rightarrow> s \<le> t \<and> t \<le> length buf | Panic e \<Rightarrow> True | Out_Of_Fuel \<Rightarrow> False)"

lemma advances_simps [simp]:
  "advances buf s (Parsed (a, t)) \<longleftrightarrow> s \<le> t \<and> t \<le> length buf" "advances buf s (Panic e)" "\<not> advances buf s Out_Of_Fuel"
  by (simp_all add: advances_def)

lemma advances_andthen:
  "advances buf s p \<Longrightarrow> (\<And>a t. p = Parsed (a, t) \<Longrightarrow> s \<le> t \<Longrightarrow> t \<le> length buf \<Longrightarrow> advances buf s (f (a, t))) \<Longrightarrow> advances buf s (andthen p f)"
  by (cases p) (auto simp: advances_def)

lemma advances_mono: "advances buf s p \<Longrightarrow> s' \<le> s \<Longrightarrow> advances buf s' p"
  by (auto simp: advances_def split: parsed.splits)

lemma parseredirs_advances: "s \<le> length buf \<Longrightarrow> advances buf s (parseredirs buf s rs)"
proof (induction buf s rs rule: parseredirs.induct)
  case (1 buf s rs)
  obtain b s1 where p: "peek buf s (str ''<>'') = (b, s1)" by fastforce
  obtain tok x y s2 where g: "gettoken buf s1 = (tok, x, y, s2)" by (metis prod_cases4)
  obtain tok' q eq s3 where g': "gettoken buf s2 = (tok', q, eq, s3)" by (metis prod_cases4)
  obtain mode fd where m: "redirect_mode tok = (mode, fd)" by fastforce
  note s1 = peek_bounds [OF p 1(2)]
  show ?case
  proof (cases b)
    case False
    then show ?thesis using p s1 by (subst parseredirs.simps) simp
  next
    case True
    have s2: "s < s2" "s2 \<le> length buf" using peek_gettoken_moves [OF _ g 1(2)] p True by (auto simp: symbols_def str_def)
    have s3: "s2 \<le> s3" "s3 \<le> length buf" using gettoken_bounds [OF g' s2(2)] by simp_all
    have "advances buf s3 (parseredirs buf s3 (rs @ [(q, eq, mode, fd)]))" if "tok' = asc (CHR ''a'')"
      by (rule 1(1) [OF p [symmetric] refl _ g [symmetric] refl refl refl g' [symmetric] refl refl refl m [symmetric]])
        (use True 1(2) that s3 in simp_all)
    then have "advances buf s (parseredirs buf s3 (rs @ [(q, eq, mode, fd)]))" if "tok' = asc (CHR ''a'')"
      using that s2 s3 advances_mono [of buf s3 _ s] by simp
    then show ?thesis using True p g g' m 1(2) by (subst parseredirs.simps) simp
  qed
qed

lemma exec_args_advances: "s \<le> length buf \<Longrightarrow> advances buf s (exec_args buf s argv rs)"
proof (induction "MAXARGS - length argv" arbitrary: s argv rs rule: less_induct)
  case less
  obtain b s1 where p: "peek buf s (str ''|)&;'') = (b, s1)" by fastforce
  obtain tok q eq s2 where g: "gettoken buf s1 = (tok, q, eq, s2)" by (metis prod_cases4)
  note s1 = peek_bounds [OF p less.prems]
  have s2: "s \<le> s2" "s2 \<le> length buf" using gettoken_bounds [OF g s1(2)] s1(1) by simp_all
  have "advances buf s (andthen (parseredirs buf s2 rs) (\<lambda>(rs, s). exec_args buf s (argv @ [(q, eq)]) rs))" if l: "length argv + 1 < MAXARGS"
  proof (rule advances_andthen)
    show "advances buf s (parseredirs buf s2 rs)" using parseredirs_advances [OF s2(2)] s2(1) by (rule advances_mono)
    fix rs' s3 assume "s \<le> s3" "s3 \<le> length buf"
    then show "advances buf s (case (rs', s3) of (rs, s) \<Rightarrow> exec_args buf s (argv @ [(q, eq)]) rs)"
      using less.hyps [of "argv @ [(q, eq)]" s3 rs'] l advances_mono [of buf s3 _ s] by (simp add: diff_less_mono2)
  qed
  then show ?case using p g s1(1,2) s2 by (subst exec_args.simps) (simp add: not_le)
qed

lemma back_loop_advances: "s \<le> length buf \<Longrightarrow> back_loop buf c s = (c', t) \<Longrightarrow> s \<le> t \<and> t \<le> length buf"
proof (induction buf c s arbitrary: c' t rule: back_loop.induct)
  case (1 buf c s)
  obtain b s1 where p: "peek buf s (str ''&'') = (b, s1)" by fastforce
  obtain tok q eq s2 where g: "gettoken buf s1 = (tok, q, eq, s2)" by (metis prod_cases4)
  note s1 = peek_bounds [OF p 1(2)]
  show ?case
  proof (cases b)
    case False
    then show ?thesis using p s1 1(3) by (subst (asm) back_loop.simps) simp
  next
    case True
    have s2: "s < s2" "s2 \<le> length buf" using peek_gettoken_moves [OF _ g 1(2)] p True by (auto simp: symbols_def str_def)
    have "back_loop buf (BACK c) s2 = (c', t)" using 1(2,3) True p g by (subst (asm) back_loop.simps) simp
    then have "s2 \<le> t \<and> t \<le> length buf"
      using 1(1) [OF p [symmetric] refl _ g [symmetric] refl refl refl] True 1(2) s2(2) by simp
    then show ?thesis using s2(1) by simp
  qed
qed

text \<open>The rest of the line pays for the calls: four for each byte, and the calls of one round.\<close>

definition enough :: "bytes \<Rightarrow> nat \<Rightarrow> nat \<Rightarrow> nat \<Rightarrow> bool" where
  "enough buf s k n \<longleftrightarrow> 4 * (length buf - s) + k \<le> n"

lemma symbol_subsets: "set (str ''&'') \<subseteq> set symbols" "set (str '';'') \<subseteq> set symbols" "set (str ''|'') \<subseteq> set symbols"
  "set (str ''('') \<subseteq> set symbols" "set (str '')'') \<subseteq> set symbols" "set (str ''<>'') \<subseteq> set symbols"
  by (simp_all add: symbols_def str_def)

lemma symbol_advances:
  assumes u: "s \<le> u" "u \<le> length buf" and toks: "set toks \<subseteq> set symbols"
    and P: "\<And>x. u < x \<Longrightarrow> x \<le> length buf \<Longrightarrow> advances buf x (P x)" and E: "\<And>w. u \<le> w \<Longrightarrow> w \<le> length buf \<Longrightarrow> advances buf s (E w)"
  shows "advances buf s (let (b, w) = peek buf u toks
    in if b then let (_, _, _, x) = gettoken buf w in andthen (P x) (\<lambda>(r, y). Parsed (F r, y)) else E w)"
proof -
  obtain b w where w: "peek buf u toks = (b, w)" by fastforce
  obtain tok q e x where x: "gettoken buf w = (tok, q, e, x)" by (metis prod_cases4)
  note wb = peek_bounds [OF w u(2)]
  show ?thesis
  proof (cases b)
    case True
    then have xb: "u < x" "x \<le> length buf" using peek_gettoken_moves [OF _ x u(2) toks] w by auto
    then have "advances buf s (P x)" using P [OF xb] u(1) advances_mono [of buf x _ s] by simp
    then have "advances buf s (andthen (P x) (\<lambda>(r, y). Parsed (F r, y)))" by (rule advances_andthen) simp
    then show ?thesis using True w x by simp
  qed (use w wb E in simp)
qed

lemma parseline_step:
  assumes "s \<le> length buf" and "advances buf s (parsepipe n buf s)" and "\<And>x. s < x \<Longrightarrow> x \<le> length buf \<Longrightarrow> advances buf x (parseline n buf x)"
  shows "advances buf s (parseline (Suc n) buf s)"
  unfolding parseline.simps
proof (rule advances_andthen [OF assms(2)], clarify)
  fix c u assume u: "s \<le> u" "u \<le> length buf"
  obtain c' v where v: "back_loop buf c u = (c', v)" by fastforce
  have vb: "s \<le> v" "v \<le> length buf" using back_loop_advances [OF u(2) v] u(1) by simp_all
  have "advances buf s (let (b, w) = peek buf v (str '';'')
      in if b then let (_, _, _, x) = gettoken buf w in andthen (parseline n buf x) (\<lambda>(r, y). Parsed (LIST c' r, y)) else Parsed (c', w))"
    by (rule symbol_advances [OF vb symbol_subsets(2)]) (use vb assms(3) in auto)
  then show "advances buf s (let (cmd, s) = back_loop buf c u; (b, s) = peek buf s (str '';'')
      in if b then let (_, _, _, s) = gettoken buf s in andthen (parseline n buf s) (\<lambda>(r, s). Parsed (LIST cmd r, s)) else Parsed (cmd, s))"
    using v by simp
qed

lemma parsepipe_step:
  assumes "s \<le> length buf" and "advances buf s (parseexec n buf s)" and "\<And>x. s < x \<Longrightarrow> x \<le> length buf \<Longrightarrow> advances buf x (parsepipe n buf x)"
  shows "advances buf s (parsepipe (Suc n) buf s)"
  unfolding parsepipe.simps
proof (rule advances_andthen [OF assms(2)], clarify)
  fix c u assume u: "s \<le> u" "u \<le> length buf"
  show "advances buf s (let (b, s) = peek buf u (str ''|'')
      in if b then let (_, _, _, s) = gettoken buf s in andthen (parsepipe n buf s) (\<lambda>(r, s). Parsed (PIPE c r, s)) else Parsed (c, s))"
    by (rule symbol_advances [OF u symbol_subsets(3)]) (use u assms(3) in auto)
qed

lemma parseexec_step:
  assumes "s \<le> length buf" and "\<And>x. s \<le> x \<Longrightarrow> x \<le> length buf \<Longrightarrow> advances buf x (parseblock n buf x)"
  shows "advances buf s (parseexec (Suc n) buf s)"
proof -
  obtain b u where u: "peek buf s (str ''('') = (b, u)" by fastforce
  note ub = peek_bounds [OF u assms(1)]
  have "advances buf s (andthen (parseredirs buf u []) (\<lambda>(rs, s). exec_args buf s [] rs))"
  proof (rule advances_andthen)
    show "advances buf s (parseredirs buf u [])" using parseredirs_advances [OF ub(2)] ub(1) by (rule advances_mono)
    fix rs t assume "s \<le> t" "t \<le> length buf"
    then show "advances buf s (case (rs, t) of (rs, s) \<Rightarrow> exec_args buf s [] rs)"
      using exec_args_advances [of t buf "[]" rs] advances_mono [of buf t _ s] by simp
  qed
  then show ?thesis using u assms(2) [OF ub(1,2)] ub(1) advances_mono [of buf u _ s] by auto
qed

lemma parseblock_step:
  assumes "s \<le> length buf" and "\<And>x. s < x \<Longrightarrow> x \<le> length buf \<Longrightarrow> advances buf x (parseline n buf x)"
  shows "advances buf s (parseblock (Suc n) buf s)"
proof -
  obtain b u where u: "peek buf s (str ''('') = (b, u)" by fastforce
  obtain tok q e v where v: "gettoken buf u = (tok, q, e, v)" by (metis prod_cases4)
  show ?thesis
  proof (cases b)
    case False
    then show ?thesis using u by simp
  next
    case True
    then have vb: "s < v" "v \<le> length buf" using peek_gettoken_moves [OF _ v assms(1) symbol_subsets(4)] u by auto
    have "advances buf s (andthen (parseline n buf v) (\<lambda>(cmd, s). let (b, s) = peek buf s (str '')'')
       in if b then let (_, _, _, s) = gettoken buf s in andthen (parseredirs buf s []) (\<lambda>(rs, s). Parsed (redirected rs cmd, s))
          else Panic Missing_Paren))"
    proof (rule advances_andthen, goal_cases)
      case 1
      then show ?case using assms(2) [OF vb] vb(1) advances_mono [of buf v _ s] by simp
    next
      case (2 c w)
      then show ?case unfolding prod.case
        by (intro symbol_advances symbol_subsets) (auto intro: parseredirs_advances)
    qed
    moreover have "(if \<not> b then x else y) = (if b then y else x)" for b and x y :: "(cmd \<times> nat) parsed" by simp
    ultimately show ?thesis using True u v by simp
  qed
qed

lemma parse_advances:
  "s \<le> length buf \<Longrightarrow> enough buf s 4 n \<Longrightarrow> advances buf s (parseline n buf s)"
  "s \<le> length buf \<Longrightarrow> enough buf s 3 n \<Longrightarrow> advances buf s (parsepipe n buf s)"
  "s \<le> length buf \<Longrightarrow> enough buf s 2 n \<Longrightarrow> advances buf s (parseexec n buf s)"
  "s \<le> length buf \<Longrightarrow> enough buf s 1 n \<Longrightarrow> advances buf s (parseblock n buf s)"
proof (induction n arbitrary: s)
  case (Suc n)
  { case 1 then show ?case by (intro parseline_step Suc.IH(1,2)) (simp_all add: enough_def) next
    case 2 then show ?case by (intro parsepipe_step Suc.IH(2,3)) (simp_all add: enough_def) next
    case 3 then show ?case by (intro parseexec_step Suc.IH(4)) (simp_all add: enough_def) next
    case 4 then show ?case by (intro parseblock_step Suc.IH(1)) (simp_all add: enough_def) }
qed (simp_all add: enough_def)

text \<open>C33. The shell's parser ends on every line: the fuel it is given never runs out, so \<open>parsecmd\<close> returns a command
  or panics with a message.\<close>

theorem parsecmd_terminates: "parsecmd buf \<noteq> Out_Of_Fuel"
proof -
  have "advances buf 0 (parseline (parse_fuel buf) buf 0)" by (rule parse_advances(1)) (simp_all add: enough_def parse_fuel_def)
  then show ?thesis by (auto simp: parsecmd_def advances_def Let_def split: parsed.splits prod.splits)
qed

end
