(* ===== verification/Shparse.thy ===== *)
theory Shparse
  imports Sh
begin

text \<open>
  The shell's parser reads back what a command prints as. An abstract command is printed as a sequence of tokens,
  with parentheses where the grammar of \<^verbatim>\<open>user/sh.c\<close> needs them; the parser, run on the text of the tokens, returns a
  command whose words, read from the line after \<open>nulterminate\<close>, are those of the abstract one.
\<close>

section \<open>Abstract commands and their text\<close>

datatype rkind = In | Out | Append

datatype acmd = AExec "bytes list" | ARedir acmd rkind bytes | APipe acmd acmd | AList acmd acmd | ABack acmd

datatype tok = Sym u8 | Dbl | Wd bytes

primrec tok_text :: "tok \<Rightarrow> bytes" where
  "tok_text (Sym c) = [c]"
| "tok_text Dbl = [62, 62]"
| "tok_text (Wd w) = w"

primrec tok_code :: "tok \<Rightarrow> u8" where
  "tok_code (Sym c) = c"
| "tok_code Dbl = 43"
| "tok_code (Wd w) = 97"

definition render :: "tok list \<Rightarrow> bytes" where
  "render ts = concat (map (\<lambda>t. 32 # tok_text t) ts)"

primrec rtok :: "rkind \<Rightarrow> tok" where
  "rtok In = Sym 60"
| "rtok Out = Sym 62"
| "rtok Append = Dbl"

text \<open>The rule of the grammar a command belongs to, from lines to simple commands, and its tokens; a command of a
  rule above the one that is asked for is put into parentheses.\<close>

primrec level :: "acmd \<Rightarrow> nat" where
  "level (AList l r) = 0"
| "level (ABack c) = 1"
| "level (APipe l r) = 2"
| "level (AExec ws) = 3"
| "level (ARedir c k f) = 3"

definition wrap :: "nat \<Rightarrow> acmd \<Rightarrow> tok list \<Rightarrow> tok list" where
  "wrap l c ts = (if l \<le> level c then ts else Sym 40 # ts @ [Sym 41])"

primrec bare :: "acmd \<Rightarrow> tok list" where
  "bare (AExec ws) = map Wd ws"
| "bare (ARedir c k f) = wrap 3 c (bare c) @ [rtok k, Wd f]"
| "bare (APipe l r) = wrap 3 l (bare l) @ Sym 124 # wrap 2 r (bare r)"
| "bare (AList l r) = wrap 1 l (bare l) @ Sym 59 # bare r"
| "bare (ABack c) = wrap 1 c (bare c) @ [Sym 38]"

definition word_char :: "u8 \<Rightarrow> bool" where
  "word_char c \<longleftrightarrow> c \<noteq> 0 \<and> \<not> space c \<and> c \<notin> set symbols"

definition good_word :: "bytes \<Rightarrow> bool" where
  "good_word w \<longleftrightarrow> w \<noteq> [] \<and> list_all word_char w"

primrec good_cmd :: "acmd \<Rightarrow> bool" where
  "good_cmd (AExec ws) \<longleftrightarrow> list_all good_word ws \<and> length ws < MAXARGS"
| "good_cmd (ARedir c k f) \<longleftrightarrow> good_cmd c \<and> good_word f"
| "good_cmd (APipe l r) \<longleftrightarrow> good_cmd l \<and> good_cmd r"
| "good_cmd (AList l r) \<longleftrightarrow> good_cmd l \<and> good_cmd r"
| "good_cmd (ABack c) \<longleftrightarrow> good_cmd c"

primrec good_tok :: "tok \<Rightarrow> bool" where
  "good_tok (Sym c) \<longleftrightarrow> c \<in> set symbols"
| "good_tok Dbl \<longleftrightarrow> True"
| "good_tok (Wd w) \<longleftrightarrow> good_word w"

text \<open>What a command says, for a function that reads the word between two positions.\<close>

fun spells :: "(nat \<Rightarrow> nat \<Rightarrow> bytes) \<Rightarrow> cmd \<Rightarrow> acmd \<Rightarrow> bool" where
  "spells f (EXEC argv) (AExec ws) \<longleftrightarrow> map (\<lambda>(q, e). f q e) argv = ws"
| "spells f (REDIR c q e mode fd) (ARedir a k w) \<longleftrightarrow> spells f c a \<and> f q e = w \<and> (mode, fd) = redirect_mode (tok_code (rtok k))"
| "spells f (PIPE l r) (APipe a b) \<longleftrightarrow> spells f l a \<and> spells f r b"
| "spells f (LIST l r) (AList a b) \<longleftrightarrow> spells f l a \<and> spells f r b"
| "spells f (BACK c) (ABack a) \<longleftrightarrow> spells f c a"
| "spells f _ _ \<longleftrightarrow> False"

text \<open>The C string at a position of a NUL-terminated buffer.\<close>

definition string_at :: "bytes \<Rightarrow> nat \<Rightarrow> bytes" where
  "string_at b q = upto_nul (drop q b)"

section \<open>Words after nulterminate\<close>

primrec words :: "cmd \<Rightarrow> (nat \<times> nat) list" where
  "words (EXEC argv) = argv"
| "words (REDIR c q e mode fd) = words c @ [(q, e)]"
| "words (PIPE l r) = words l @ words r"
| "words (LIST l r) = words l @ words r"
| "words (BACK c) = words c"

text \<open>Words in the order of the line, with at least one byte between them, from \<open>lo\<close> to below \<open>hi\<close>.\<close>

fun chain :: "nat \<Rightarrow> (nat \<times> nat) list \<Rightarrow> nat \<Rightarrow> bool" where
  "chain lo [] hi \<longleftrightarrow> lo \<le> hi"
| "chain lo ((q, e) # xs) hi \<longleftrightarrow> lo \<le> q \<and> q < e \<and> chain (Suc e) xs hi"

lemma chain_mono: "chain lo xs hi \<Longrightarrow> lo' \<le> lo \<Longrightarrow> hi \<le> hi' \<Longrightarrow> chain lo' xs hi'"
  by (induction lo xs hi arbitrary: lo' rule: chain.induct) auto

lemma chain_append: "chain lo xs mid \<Longrightarrow> chain mid ys hi \<Longrightarrow> chain lo (xs @ ys) hi"
proof (induction lo xs mid rule: chain.induct)
  case (1 lo mid)
  then show ?case using chain_mono by auto
qed simp

lemma chain_le: "chain lo xs hi \<Longrightarrow> lo \<le> hi"
  by (induction lo xs hi rule: chain.induct) auto

lemma chain_member: "chain lo xs hi \<Longrightarrow> (q, e) \<in> set xs \<Longrightarrow> lo \<le> q \<and> q < e \<and> e < hi"
  by (induction lo xs hi rule: chain.induct) (auto dest: chain_le)

lemma chain_apart: "chain lo xs hi \<Longrightarrow> (q, e) \<in> set xs \<Longrightarrow> (q', e') \<in> set xs \<Longrightarrow> \<not> (q \<le> e' \<and> e' < e)"
proof (induction lo xs hi rule: chain.induct)
  case (2 lo p d xs hi)
  have *: "Suc d \<le> a \<and> a < b" if "(a, b) \<in> set xs" for a b using chain_member that 2(2) by fastforce
  show ?case using 2 * by fastforce
qed simp

primrec zeros :: "nat list \<Rightarrow> bytes \<Rightarrow> bytes" where
  "zeros [] b = b"
| "zeros (e # es) b = zeros es (b[e := 0])"

lemma zeros_append: "zeros (xs @ ys) b = zeros ys (zeros xs b)"
  by (induction xs arbitrary: b) simp_all

lemma zeros_fold: "fold (\<lambda>(q, e) b. b[e := 0]) argv b = zeros (map snd argv) b"
  by (induction argv arbitrary: b) (auto simp: split_beta)

lemma nulterminate_zeros: "nulterminate c b = zeros (map snd (words c)) b"
  by (induction c arbitrary: b) (simp_all add: zeros_append zeros_fold)

lemma length_zeros [simp]: "length (zeros es b) = length b"
  by (induction es arbitrary: b) simp_all

lemma zeros_nth: "i < length b \<Longrightarrow> zeros es b ! i = (if i \<in> set es then 0 else b ! i)"
proof (induction es arbitrary: b)
  case (Cons e es)
  then show ?case by (cases "i = e") simp_all
qed simp

lemma upto_nul_take:
  assumes "n < length bs" and "bs ! n = 0" and "\<forall>i<n. bs ! i \<noteq> 0"
  shows "upto_nul bs = take n bs"
  using assms
proof (induction bs arbitrary: n)
  case (Cons b bs)
  show ?case
  proof (cases n)
    case (Suc k)
    have "bs ! i \<noteq> 0" if "i < k" for i using Cons.prems(3) Suc that by auto
    then show ?thesis using Cons Suc by auto
  qed (use Cons in simp)
qed simp

lemma string_at_word:
  assumes ch: "chain 0 (words c) (Suc (length buf))" and w: "(q, e) \<in> set (words c)" and nz: "0 \<notin> set (take (e - q) (drop q buf))"
  shows "string_at (nulterminate c (buf @ [0])) q = take (e - q) (drop q buf)"
proof -
  let ?b = "nulterminate c (buf @ [0])"
  have qe: "q < e" "e \<le> length buf" using chain_member [OF ch w] by simp_all
  have n: "?b ! i = (if i \<in> set (map snd (words c)) then 0 else (buf @ [0]) ! i)" if "i \<le> length buf" for i
    using that by (simp only: nulterminate_zeros) (intro zeros_nth, simp)
  have l: "length ?b = Suc (length buf)" by (simp add: nulterminate_zeros)
  have inner: "?b ! (q + i) = buf ! (q + i)" if i: "i < e - q" for i
  proof -
    have "q + i < e" "q + i < length buf" using i qe(2) by simp_all
    from this(1) have "q + i \<notin> set (map snd (words c))" using chain_apart [OF ch w, of _ "q + i"] by auto
    then show ?thesis using n [of "q + i"] \<open>q + i < length buf\<close> by (simp add: nth_append del: set_map)
  qed
  have same: "take (e - q) (drop q ?b) = take (e - q) (drop q buf)" using inner qe l by (intro nth_equalityI) simp_all
  have "upto_nul (drop q ?b) = take (e - q) (drop q ?b)"
  proof (rule upto_nul_take)
    show "e - q < length (drop q ?b)" using qe l by simp
    have "?b ! e = 0" using n [of e] qe w by (force simp: image_iff)
    then show "drop q ?b ! (e - q) = 0" using qe l by simp
    show "\<forall>i<e - q. drop q ?b ! i \<noteq> 0"
    proof (intro allI impI)
      fix i assume i: "i < e - q"
      then have "drop q ?b ! i = take (e - q) (drop q buf) ! i" using inner qe l by simp
      moreover have "take (e - q) (drop q buf) ! i \<in> set (take (e - q) (drop q buf))" using i qe by (intro nth_mem) simp
      ultimately show "drop q ?b ! i \<noteq> 0" using nz by metis
    qed
  qed
  then show ?thesis using same by (simp add: string_at_def)
qed

lemma spells_cong: "(\<And>q e. (q, e) \<in> set (words c) \<Longrightarrow> f q e = g q e) \<Longrightarrow> spells f c a \<Longrightarrow> spells g c a"
  by (induction f c a rule: spells.induct) (auto intro!: map_cong)

section \<open>Tokens of the text\<close>

lemma space_whitespace: "in_literal whitespace c \<longleftrightarrow> space c"
  by (auto simp: in_literal_def whitespace_def space_def)

lemma symbols_set: "set symbols = {60, 124, 62, 38, 59, 40, 41}"
  by (simp add: symbols_def str_def asc_def)

lemma symbol_not_space: "c \<in> set symbols \<Longrightarrow> c \<noteq> 0 \<and> \<not> space c"
  by (auto simp: symbols_set space_def)

lemma at_drop: "drop s buf = c # r \<Longrightarrow> at buf s = c \<and> s < length buf \<and> drop (Suc s) buf = r"
  by (metis at_def drop_Suc drop_eq_Nil2 hd_drop_conv_nth linorder_not_less list.distinct(1) list.sel(1) list.sel(3) tl_drop)

lemma skip_space_drop:
  "drop s buf = ws @ r \<Longrightarrow> list_all space ws \<Longrightarrow> r = [] \<or> \<not> space (hd r) \<Longrightarrow> skip_space buf s = s + length ws"
proof (induction ws arbitrary: s)
  case Nil
  have "\<not> (s < length buf \<and> space (at buf s))"
  proof (cases r)
    case Nil
    then show ?thesis using \<open>drop s buf = [] @ r\<close> by simp
  next
    case (Cons c r')
    then show ?thesis using at_drop [of s buf c r'] Nil.prems by simp
  qed
  then show ?case by (subst skip_space.simps) (auto simp: space_whitespace)
next
  case (Cons w ws)
  have "at buf s = w" "s < length buf" "drop (Suc s) buf = ws @ r" using at_drop [of s buf w "ws @ r"] Cons.prems(1) by simp_all
  with Cons show ?case by (subst skip_space.simps) (simp add: space_whitespace)
qed

lemma skip_word_drop:
  "drop s buf = w @ r \<Longrightarrow> list_all word_char w \<Longrightarrow> r = [] \<or> space (hd r) \<Longrightarrow> skip_word buf s = s + length w"
proof (induction w arbitrary: s)
  case Nil
  have "\<not> (s < length buf \<and> \<not> space (at buf s))"
  proof (cases r)
    case Nil
    then show ?thesis using \<open>drop s buf = [] @ r\<close> by simp
  next
    case (Cons c r')
    then show ?thesis using at_drop [of s buf c r'] Nil.prems by simp
  qed
  then show ?case by (subst skip_word.simps) (auto simp: space_whitespace)
next
  case (Cons c w)
  have "at buf s = c" "s < length buf" "drop (Suc s) buf = w @ r" using at_drop [of s buf c "w @ r"] Cons.prems(1) by simp_all
  with Cons show ?case by (subst skip_word.simps) (simp add: space_whitespace word_char_def in_literal_def [of symbols])
qed

text \<open>At a position the tokens \<open>ts\<close> are still to come.\<close>

primrec body :: "tok list \<Rightarrow> bytes" where
  "body [] = []"
| "body (t # ts) = tok_text t @ render ts"

definition on :: "bytes \<Rightarrow> nat \<Rightarrow> tok list \<Rightarrow> bool" where
  "on buf s ts \<longleftrightarrow> s \<le> length buf \<and> list_all good_tok ts \<and> (\<exists>ws. list_all space ws \<and> drop s buf = ws @ body ts)"

lemma tok_text_first: "good_tok t \<Longrightarrow> \<exists>c r. tok_text t = c # r \<and> c \<noteq> 0 \<and> \<not> space c"
proof (cases t)
  case (Wd w)
  moreover assume "good_tok t"
  ultimately show ?thesis by (cases w) (auto simp: good_word_def word_char_def)
qed (use symbol_not_space in \<open>auto simp: space_def\<close>)

lemma render_body: "render ts = [] \<or> (\<exists>r. render ts = 32 # r)"
  by (cases ts) (simp_all add: render_def)

lemma render_on: "list_all good_tok ts \<Longrightarrow> drop s buf = render ts \<Longrightarrow> s \<le> length buf \<Longrightarrow> on buf s ts"
  unfolding on_def by (cases ts) (auto simp: render_def space_def intro: exI [of _ "[32]"])

lemma on_skip:
  assumes "on buf s ts"
  shows "drop (skip_space buf s) buf = body ts" "on buf (skip_space buf s) ts" "s \<le> skip_space buf s" "skip_space buf s \<le> length buf"
proof -
  obtain ws where ws: "list_all space ws" "drop s buf = ws @ body ts" "list_all good_tok ts" "s \<le> length buf" using assms by (auto simp: on_def)
  have "body ts = [] \<or> \<not> space (hd (body ts))" using tok_text_first ws(3) by (cases ts) fastforce+
  then have sk: "skip_space buf s = s + length ws" using skip_space_drop [OF ws(2,1)] by simp
  have "drop (s + length ws) buf = drop (length ws) (drop s buf)" by (simp add: add.commute)
  then show d: "drop (skip_space buf s) buf = body ts" using ws(2) sk by simp
  show b: "s \<le> skip_space buf s" "skip_space buf s \<le> length buf" using sk skip_space_bound [OF ws(4)] by simp_all
  show "on buf (skip_space buf s) ts" using d b ws(3) unfolding on_def by (intro conjI exI [of _ "[]"]) simp_all
qed

lemma on_at: "drop s buf = body ts \<Longrightarrow> list_all good_tok ts \<Longrightarrow> at buf s = (if ts = [] then 0 else hd (tok_text (hd ts)))"
proof (cases ts)
  case (Cons t r)
  assume d: "drop s buf = body ts" "list_all good_tok ts"
  then obtain c u where "tok_text t = c # u" using tok_text_first [of t] Cons by auto
  then show ?thesis using at_drop [of s buf c "u @ render r"] d(1) Cons by simp
qed (simp add: at_def)

definition begins :: "tok list \<Rightarrow> bytes \<Rightarrow> bool" where
  "begins ts toks \<longleftrightarrow> (\<exists>t r. ts = t # r \<and> hd (tok_text t) \<in> set toks)"

lemma begins_simps [simp]:
  "\<not> begins [] toks" "begins (Sym c # ts) toks \<longleftrightarrow> c \<in> set toks" "begins (Dbl # ts) toks \<longleftrightarrow> 62 \<in> set toks"
  by (simp_all add: begins_def)

lemma begins_rtok [simp]: "begins (rtok k # ts) toks \<longleftrightarrow> (if k = In then 60 else 62) \<in> set toks"
  by (cases k) (simp_all add: begins_def)

lemma begins_Wd [simp]: "good_word w \<Longrightarrow> set toks \<subseteq> set symbols \<Longrightarrow> \<not> begins (Wd w # ts) toks"
  by (cases w) (auto simp: begins_def good_word_def word_char_def)

lemma peek_on:
  assumes "on buf s ts" and "set toks \<subseteq> set symbols"
  shows "\<exists>u. peek buf s toks = (begins ts toks, u) \<and> on buf u ts \<and> s \<le> u"
proof -
  let ?u = "skip_space buf s"
  note k = on_skip [OF assms(1)]
  have g: "list_all good_tok ts" using assms(1) by (simp add: on_def)
  have "at buf ?u = (if ts = [] then 0 else hd (tok_text (hd ts)))" by (rule on_at [OF k(1) g])
  moreover have "ts \<noteq> [] \<Longrightarrow> hd (tok_text (hd ts)) \<noteq> 0" using tok_text_first g by (cases ts) fastforce+
  ultimately have "peek buf s toks = (begins ts toks, ?u)"
    by (cases ts) (auto simp: peek_def Let_def in_literal_def begins_def)
  then show ?thesis using k by blast
qed

lemma gettoken_on_Nil: "on buf s [] \<Longrightarrow> \<exists>q e u. gettoken buf s = (0, q, e, u) \<and> on buf u [] \<and> s \<le> u"
proof -
  assume o: "on buf s []"
  note k = on_skip [OF o]
  have "at buf (skip_space buf s) = 0" using on_at [OF k(1)] by simp
  then have "gettoken buf s = (0, skip_space buf s, skip_space buf s, skip_space buf s)"
    by (simp add: gettoken_def Let_def skip_space_stops)
  then show ?thesis using k by blast
qed

lemma gettoken_code:
  assumes d: "drop (skip_space buf s) buf = tok_text t @ render ts" and g: "good_tok t"
  shows "gettoken buf s = (tok_code t, skip_space buf s, skip_space buf s + length (tok_text t),
    skip_space buf (skip_space buf s + length (tok_text t)))"
proof -
  let ?q = "skip_space buf s"
  have chars: "set (str ''|();&<'') = {124, 40, 41, 59, 38, 60}" "asc (CHR ''>'') = 62" "asc (CHR ''+'') = 43" "asc (CHR ''a'') = 97"
    by (auto simp: str_def asc_def)
  show ?thesis
  proof (cases t)
    case (Sym c)
    have c: "at buf ?q = c" "drop (Suc ?q) buf = render ts" using at_drop [of ?q buf c "render ts"] d Sym by simp_all
    have "at buf (Suc ?q) \<noteq> 62"
    proof (cases "render ts")
      case Nil
      then show ?thesis using c(2) by (simp add: at_def)
    next
      case (Cons x r)
      then show ?thesis using render_body [of ts] at_drop [of "Suc ?q" buf x r] c(2) by auto
    qed
    then show ?thesis using g c(1) Sym by (auto simp: gettoken_def Let_def chars symbols_set)
  next
    case Dbl
    have "at buf ?q = 62" "drop (Suc ?q) buf = 62 # render ts" using at_drop [of ?q buf 62 "62 # render ts"] d Dbl by simp_all
    moreover from this(2) have "at buf (Suc ?q) = 62" using at_drop [of "Suc ?q" buf 62 "render ts"] by simp
    ultimately show ?thesis using Dbl by (simp add: gettoken_def Let_def chars)
  next
    case (Wd w)
    then have w: "w \<noteq> []" "list_all word_char w" using g by (simp_all add: good_word_def)
    then obtain c w' where cw: "w = c # w'" by (cases w) auto
    have "at buf ?q = c" using at_drop [of ?q buf c "w' @ render ts"] d Wd cw by simp
    moreover have "c \<noteq> 0" "c \<notin> set symbols" using w(2) cw by (simp_all add: word_char_def)
    moreover have "skip_word buf ?q = ?q + length w"
      using skip_word_drop [of ?q buf w "render ts"] d Wd w(2) render_body [of ts] by (auto simp: space_def)
    ultimately show ?thesis using Wd by (simp add: gettoken_def Let_def chars symbols_set)
  qed
qed

lemma gettoken_on:
  assumes "on buf s (t # ts)"
  shows "\<exists>q u. gettoken buf s = (tok_code t, q, q + length (tok_text t), u) \<and> take (length (tok_text t)) (drop q buf) = tok_text t \<and>
    on buf u ts \<and> s \<le> q \<and> q + length (tok_text t) \<le> u \<and> (ts \<noteq> [] \<longrightarrow> q + length (tok_text t) < u)"
proof -
  let ?q = "skip_space buf s" and ?n = "length (tok_text t)"
  note k = on_skip [OF assms]
  have g: "good_tok t" "list_all good_tok ts" using assms by (simp_all add: on_def)
  have d: "drop ?q buf = tok_text t @ render ts" using k(1) by simp
  have e: "?q + ?n \<le> length buf" using arg_cong [OF d, of length] k(4) by simp
  have de: "drop (?q + ?n) buf = render ts" using d by (metis add.commute append_eq_conv_conj drop_drop)
  have o: "on buf (?q + ?n) ts" by (rule render_on [OF g(2) de e])
  note k' = on_skip [OF o]
  have "?q + ?n < skip_space buf (?q + ?n)" if "ts \<noteq> []"
  proof -
    have "length (body ts) < length (render ts)" using that by (cases ts) (simp_all add: render_def)
    then show ?thesis using arg_cong [OF de, of length] arg_cong [OF k'(1), of length] k'(3,4) by simp
  qed
  then show ?thesis using gettoken_code [OF d g(1)] d k' k(3) by (intro exI [of _ ?q] exI [of _ "skip_space buf (?q + ?n)"]) simp
qed

section \<open>Words and redirections\<close>

definition slice :: "bytes \<Rightarrow> nat \<Rightarrow> nat \<Rightarrow> bytes" where
  "slice buf q e = take (e - q) (drop q buf)"

text \<open>Up to where words may reach when the tokens \<open>rest\<close> follow at \<open>u\<close>.\<close>

definition limit :: "bytes \<Rightarrow> nat \<Rightarrow> tok list \<Rightarrow> nat" where
  "limit buf u rest = (if rest = [] then Suc (length buf) else u)"

lemma limit_le: "on buf u rest \<Longrightarrow> u \<le> limit buf u rest"
  by (simp add: limit_def on_def)

text \<open>The parser has taken a symbol, or a word.\<close>

lemma take_symbol:
  assumes "on buf s (Sym c # ts)"
  obtains q e u where "gettoken buf s = (c, q, e, u)" "on buf u ts" "s < u"
  using gettoken_on [OF assms] by fastforce

lemma take_word:
  assumes "on buf s (Wd w # ts)"
  obtains q e u where "gettoken buf s = (97, q, e, u)" "on buf u ts" "s \<le> q" "q < e" "slice buf q e = w" "s < u" "Suc e \<le> limit buf u ts"
proof -
  obtain q u where g: "gettoken buf s = (97, q, q + length w, u)" "take (length w) (drop q buf) = w" "on buf u ts" "s \<le> q"
    "q + length w \<le> u" "ts \<noteq> [] \<longrightarrow> q + length w < u" using gettoken_on [OF assms] by auto
  have "w \<noteq> []" using assms by (simp add: on_def good_word_def)
  then have "q < q + length w" by simp
  moreover have "Suc (q + length w) \<le> limit buf u ts" using g(3,5,6) by (auto simp: limit_def on_def)
  moreover have "s < u" using g(4,5) \<open>w \<noteq> []\<close> by (cases w) simp_all
  ultimately show thesis using g by (intro that [of q "q + length w" u]) (auto simp: slice_def)
qed

definition redir_toks :: "(rkind \<times> bytes) list \<Rightarrow> tok list" where
  "redir_toks rs = concat (map (\<lambda>(k, f). [rtok k, Wd f]) rs)"

lemma redir_toks_Nil: "redir_toks rs = [] \<longleftrightarrow> rs = []"
  by (cases rs) (auto simp: redir_toks_def)

definition redir_span :: "redirection \<Rightarrow> nat \<times> nat" where
  "redir_span r = (case r of (q, e, mode, fd) \<Rightarrow> (q, e))"

definition redir_ok :: "bytes \<Rightarrow> redirection \<Rightarrow> rkind \<times> bytes \<Rightarrow> bool" where
  "redir_ok buf r x = (case r of (q, e, mode, fd) \<Rightarrow> slice buf q e = snd x \<and> (mode, fd) = redirect_mode (tok_code (rtok (fst x))))"

lemma parseredirs_on:
  "on buf s (redir_toks rs @ rest) \<Longrightarrow> \<not> begins rest (str ''<>'') \<Longrightarrow>
   \<exists>ps u. parseredirs buf s acc = Parsed (acc @ ps, u) \<and> on buf u rest \<and> s \<le> u \<and> list_all2 (redir_ok buf) ps rs \<and>
     chain s (map redir_span ps) (limit buf u rest)"
proof (induction rs arbitrary: s acc)
  case Nil
  obtain u where u: "peek buf s (str ''<>'') = (False, u)" "on buf u rest" "s \<le> u"
    using peek_on [OF Nil(1) symbol_subsets(6)] Nil(2) by (auto simp: redir_toks_def)
  then have "parseredirs buf s acc = Parsed (acc @ [], u)" by (subst parseredirs.simps) simp
  then show ?case using u limit_le [OF u(2)] by (intro exI [of _ "[]"] exI [of _ u]) simp
next
  case (Cons x rs)
  obtain k f where x: "x = (k, f)" by (cases x)
  let ?ts = "redir_toks rs @ rest"
  have o: "on buf s (rtok k # Wd f # ?ts)" using Cons.prems(1) by (simp add: redir_toks_def x)
  have "begins (rtok k # Wd f # ?ts) (str ''<>'')" by (cases k) (simp_all add: str_def asc_def)
  then obtain u where u: "peek buf s (str ''<>'') = (True, u)" "on buf u (rtok k # Wd f # ?ts)" "s \<le> u"
    using peek_on [OF o symbol_subsets(6)] by auto
  obtain a b v where v: "gettoken buf u = (tok_code (rtok k), a, b, v)" "on buf v (Wd f # ?ts)" "u \<le> v"
    using gettoken_on [OF u(2)] by fastforce
  obtain q e w where w: "gettoken buf v = (97, q, e, w)" "on buf w ?ts" "v \<le> q" "q < e" "slice buf q e = f" "v < w" "Suc e \<le> limit buf w ?ts"
    using take_word [OF v(2)] .
  obtain mode fd where m: "redirect_mode (tok_code (rtok k)) = (mode, fd)" by fastforce
  obtain ps t where t: "parseredirs buf w (acc @ [(q, e, mode, fd)]) = Parsed ((acc @ [(q, e, mode, fd)]) @ ps, t)" "on buf t rest" "w \<le> t"
    "list_all2 (redir_ok buf) ps rs" "chain w (map redir_span ps) (limit buf t rest)"
    using Cons.IH [OF w(2) Cons.prems(2)] by blast
  have "asc (CHR ''a'') = 97" by (simp add: asc_def)
  then have "parseredirs buf s acc = Parsed (acc @ (q, e, mode, fd) # ps, t)"
    using u(1) v(1) w(1) m t(1) o by (subst parseredirs.simps) (simp add: on_def)
  moreover have "chain s (map redir_span ((q, e, mode, fd) # ps)) (limit buf t rest)"
  proof (cases "?ts = []")
    case True
    then have "ps = []" "rest = []" using t(4) by (auto simp: redir_toks_Nil)
    then show ?thesis using w u(3) v(3) True by (simp add: redir_span_def limit_def)
  next
    case False
    then have "chain (Suc e) (map redir_span ps) (limit buf t rest)" using t(5) w(7) by (elim chain_mono) (auto simp: limit_def)
    then show ?thesis using w(3,4) u(3) v(3) by (simp add: redir_span_def)
  qed
  moreover have "list_all2 (redir_ok buf) ((q, e, mode, fd) # ps) (x # rs)" using t(4) w(5) m x by (simp add: redir_ok_def)
  ultimately show ?case using t(2,3) w(6) v(3) u(3) by (intro exI [of _ "(q, e, mode, fd) # ps"] exI [of _ t]) simp
qed

lemma words_redirected: "words (redirected ps c) = words c @ map redir_span ps"
  by (induction ps arbitrary: c) (auto simp: redirected_def redir_span_def)

fun aredirected :: "(rkind \<times> bytes) list \<Rightarrow> acmd \<Rightarrow> acmd" where
  "aredirected [] c = c"
| "aredirected ((k, f) # rs) c = aredirected rs (ARedir c k f)"

lemma spells_redirected:
  "spells (slice buf) c a \<Longrightarrow> list_all2 (redir_ok buf) ps rs \<Longrightarrow> spells (slice buf) (redirected ps c) (aredirected rs a)"
proof (induction rs arbitrary: ps c a)
  case (Cons x rs)
  obtain k f where x: "x = (k, f)" by (cases x)
  obtain p ps' where ps: "ps = p # ps'" "redir_ok buf p x" "list_all2 (redir_ok buf) ps' rs" using Cons.prems(2) by (auto simp: list_all2_Cons2)
  obtain q e mode fd where p: "p = (q, e, mode, fd)" by (metis prod_cases4)
  have "spells (slice buf) (REDIR c q e mode fd) (ARedir a k f)" using Cons.prems(1) ps(2) x p by (simp add: redir_ok_def)
  from Cons.IH [OF this ps(3)] show ?case by (simp add: redirected_def ps(1) p x)
qed (simp add: redirected_def)

text \<open>What a parse function has to return for the command \<open>a\<close> when the tokens \<open>rest\<close> follow it.\<close>

definition got :: "bytes \<Rightarrow> nat \<Rightarrow> tok list \<Rightarrow> acmd \<Rightarrow> (cmd \<times> nat) parsed \<Rightarrow> bool" where
  "got buf s rest a p \<longleftrightarrow> (\<exists>c u. p = Parsed (c, u) \<and> on buf u rest \<and> s \<le> u \<and> spells (slice buf) c a \<and> chain s (words c) (limit buf u rest))"

definition follow :: "tok list \<Rightarrow> bytes \<Rightarrow> bool" where
  "follow rest toks \<longleftrightarrow> rest = [] \<or> (\<exists>c r. rest = Sym c # r \<and> c \<in> set toks)"

lemma follow_begins: "follow rest toks \<Longrightarrow> set toks \<inter> set xs = {} \<Longrightarrow> \<not> begins rest xs"
  by (auto simp: follow_def)

lemma follow_mono: "follow rest toks \<Longrightarrow> set toks \<subseteq> set xs \<Longrightarrow> follow rest xs"
  by (auto simp: follow_def)

lemma exec_args_end:
  assumes "on buf s rest" and "follow rest (str ''|)&;'')"
  shows "\<exists>u. exec_args buf s argv rs = Parsed (redirected rs (EXEC argv), u) \<and> on buf u rest \<and> s \<le> u"
proof -
  have "set (str ''|)&;'') \<subseteq> set symbols" by (simp add: str_def symbols_def)
  from peek_on [OF assms(1) this] obtain u where u: "peek buf s (str ''|)&;'') = (begins rest (str ''|)&;''), u)" "on buf u rest" "s \<le> u" by blast
  show ?thesis
  proof (cases rest)
    case Nil
    obtain q e v where "gettoken buf u = (0, q, e, v)" "on buf v []" "u \<le> v" using gettoken_on_Nil u(2) Nil by blast
    then show ?thesis using u Nil by (subst exec_args.simps) auto
  next
    case (Cons t r)
    then have "begins rest (str ''|)&;'')" using assms(2) by (auto simp: follow_def)
    then show ?thesis using u by (subst exec_args.simps) simp
  qed
qed

lemma exec_args_on:
  assumes rest: "follow rest (str ''|)&;'')"
  shows "ws \<noteq> [] \<Longrightarrow> on buf s (map Wd ws @ redir_toks rs @ rest) \<Longrightarrow> length argv + length ws < MAXARGS \<Longrightarrow>
    \<exists>as ps u. exec_args buf s argv [] = Parsed (redirected ps (EXEC (argv @ as)), u) \<and> on buf u rest \<and> s \<le> u \<and>
      map (\<lambda>(q, e). slice buf q e) as = ws \<and> list_all2 (redir_ok buf) ps rs \<and> chain s (as @ map redir_span ps) (limit buf u rest)"
proof (induction ws arbitrary: s argv)
  case (Cons w ws)
  let ?ts = "map Wd ws @ redir_toks rs @ rest"
  have sub: "set (str ''|)&;'') \<subseteq> set symbols" by (simp add: str_def symbols_def)
  have o: "on buf s (Wd w # ?ts)" using Cons.prems(2) by simp
  then have gw: "good_word w" by (simp add: on_def)
  obtain u where u: "peek buf s (str ''|)&;'') = (False, u)" "on buf u (Wd w # ?ts)" "s \<le> u"
    using peek_on [OF o sub] gw sub by auto
  obtain q e v where v: "gettoken buf u = (97, q, e, v)" "on buf v ?ts" "u \<le> q" "q < e" "slice buf q e = w" "u < v" "Suc e \<le> limit buf v ?ts"
    using take_word [OF u(2)] .
  have nb: "\<not> begins rest (str ''<>'')" using rest by (rule follow_begins) (simp add: str_def asc_def)
  have step: "exec_args buf s argv [] = andthen (parseredirs buf v []) (\<lambda>(rs, s). exec_args buf s (argv @ [(q, e)]) rs)"
    using u(1) v(1) Cons.prems(3) by (subst exec_args.simps) (simp add: asc_def)
  show ?case
  proof (cases "ws = []")
    case True
    obtain ps t where t: "parseredirs buf v [] = Parsed (ps, t)" "on buf t rest" "v \<le> t" "list_all2 (redir_ok buf) ps rs" "chain v (map redir_span ps) (limit buf t rest)"
      using parseredirs_on [of buf v rs rest "[]"] v(2) nb True by auto
    obtain x where x: "exec_args buf t (argv @ [(q, e)]) ps = Parsed (redirected ps (EXEC (argv @ [(q, e)])), x)" "on buf x rest" "t \<le> x"
      using exec_args_end [OF t(2) rest] by blast
    have "chain (Suc e) (map redir_span ps) (limit buf x rest)"
    proof (cases "redir_toks rs @ rest = []")
      case True
      then have "ps = []" "rest = []" using t(4) by (auto simp: redir_toks_Nil)
      then show ?thesis using v(7) \<open>ws = []\<close> True by (simp add: limit_def)
    next
      case False
      then have "Suc e \<le> v" using v(7) \<open>ws = []\<close> by (auto simp: limit_def)
      then show ?thesis using t(5) x(3) by (elim chain_mono) (simp_all add: limit_def)
    qed
    then have "chain s ((q, e) # map redir_span ps) (limit buf x rest)" using v(3,4) u(3) by simp
    then show ?thesis using step t x v(5,6) u(3) True by (intro exI [of _ "[(q, e)]"] exI [of _ ps] exI [of _ x]) simp
  next
    case False
    then have "\<not> begins ?ts (str ''<>'')" using v(2) by (cases ws) (auto simp: on_def symbol_subsets)
    then obtain t where t: "parseredirs buf v [] = Parsed ([], t)" "on buf t ?ts" "v \<le> t"
      using parseredirs_on [of buf v "[]" ?ts "[]"] v(2) by (auto simp: redir_toks_def)
    obtain as ps x where x: "exec_args buf t (argv @ [(q, e)]) [] = Parsed (redirected ps (EXEC ((argv @ [(q, e)]) @ as)), x)" "on buf x rest" "t \<le> x"
      "map (\<lambda>(q, e). slice buf q e) as = ws" "list_all2 (redir_ok buf) ps rs" "chain t (as @ map redir_span ps) (limit buf x rest)"
      using Cons.IH [OF False t(2), of "argv @ [(q, e)]"] Cons.prems(3) by auto
    have "Suc e \<le> v" using v(7) False by (simp add: limit_def)
    then have "chain s ((q, e) # as @ map redir_span ps) (limit buf x rest)" using x(6) t(3) v(3,4) u(3) by (auto elim: chain_mono)
    then show ?thesis using step t x v(5,6) u(3) by (intro exI [of _ "(q, e) # as"] exI [of _ ps] exI [of _ x]) simp
  qed
qed simp

section \<open>The rules of the grammar\<close>

lemma symbol_follows:
  assumes "on buf s (Sym c # ts)" and "c \<in> set toks" and "set toks \<subseteq> set symbols"
  obtains u q e v where "peek buf s toks = (True, u)" "gettoken buf u = (c, q, e, v)" "on buf v ts" "s < v"
proof -
  obtain u where u: "peek buf s toks = (True, u)" "on buf u (Sym c # ts)" "s \<le> u" using peek_on [OF assms(1,3)] assms(2) by auto
  obtain q e v where "gettoken buf u = (c, q, e, v)" "on buf v ts" "u < v" using take_symbol [OF u(2)] .
  then show thesis using u that by (metis order_le_less_trans)
qed

lemma symbol_absent:
  assumes "on buf s rest" and "follow rest xs" and "set xs \<inter> set toks = {}" and "set toks \<subseteq> set symbols"
  obtains u where "peek buf s toks = (False, u)" "on buf u rest" "s \<le> u" "limit buf s rest \<le> limit buf u rest"
proof -
  obtain u where "peek buf s toks = (begins rest toks, u)" "on buf u rest" "s \<le> u" using peek_on [OF assms(1,4)] by auto
  then show thesis using follow_begins [OF assms(2,3)] that by (simp add: limit_def)
qed

lemma gotE:
  assumes "got buf s rest a p"
  obtains c u where "p = Parsed (c, u)" "on buf u rest" "s \<le> u" "spells (slice buf) c a" "chain s (words c) (limit buf u rest)"
  using assms unfolding got_def by blast

text \<open>What each parse function does with a command at its place in the grammar. \<open>on_back\<close> is what \<open>parsepipe\<close> and the
  loop over \<^verbatim>\<open>&\<close> in \<open>parseline\<close> have done when the command is complete.\<close>

definition on_exec :: "acmd \<Rightarrow> bool" where
  "on_exec a \<longleftrightarrow> (\<forall>buf s rest n. on buf s (wrap 3 a (bare a) @ rest) \<longrightarrow> follow rest (str ''|)&;'') \<longrightarrow> enough buf s 2 n \<longrightarrow>
     got buf s rest a (parseexec n buf s))"

definition on_pipe :: "acmd \<Rightarrow> bool" where
  "on_pipe a \<longleftrightarrow> (\<forall>buf s rest n. on buf s (wrap 2 a (bare a) @ rest) \<longrightarrow> follow rest (str '')&;'') \<longrightarrow> enough buf s 3 n \<longrightarrow>
     got buf s rest a (parsepipe n buf s))"

definition on_back :: "acmd \<Rightarrow> bool" where
  "on_back a \<longleftrightarrow> (\<forall>buf s rest n. on buf s (wrap 1 a (bare a) @ rest) \<longrightarrow> follow rest (str '')&;'') \<longrightarrow> enough buf s 3 n \<longrightarrow>
     (\<exists>c u d v. parsepipe n buf s = Parsed (c, u) \<and> back_loop buf c u = back_loop buf d v \<and> got buf s rest a (Parsed (d, v))))"

definition on_line :: "acmd \<Rightarrow> bool" where
  "on_line a \<longleftrightarrow> (\<forall>buf s rest n. on buf s (bare a @ rest) \<longrightarrow> follow rest (str '')'') \<longrightarrow> enough buf s 4 n \<longrightarrow>
     got buf s rest a (parseline n buf s))"

lemma enough_pred: "enough buf s (Suc k) n \<Longrightarrow> \<exists>m. n = Suc m \<and> enough buf s k m"
  by (cases n) (auto simp: enough_def)

lemma enough_later: "enough buf s k n \<Longrightarrow> s < t \<Longrightarrow> t \<le> length buf \<Longrightarrow> j \<le> 4 + k \<Longrightarrow> enough buf t j n"
  by (auto simp: enough_def)

lemma on_length: "on buf s ts \<Longrightarrow> s \<le> length buf"
  by (simp add: on_def)

lemma exec_on:
  assumes o: "on buf s (map Wd ws @ redir_toks rs @ rest)" and rest: "follow rest (str ''|)&;'')"
    and len: "length ws < MAXARGS" and n: "enough buf s 2 n"
  shows "got buf s rest (aredirected rs (AExec ws)) (parseexec n buf s)"
proof -
  let ?ts = "map Wd ws @ redir_toks rs @ rest"
  obtain m where m: "n = Suc m" using enough_pred [of buf s 1 n] n by (auto simp: numeral_2_eq_2)
  have nb: "\<not> begins rest (str ''<>'')" "\<not> begins rest (str ''('')" by (rule follow_begins [OF rest], simp add: str_def asc_def)+
  have "\<not> begins ?ts (str ''('')"
  proof (cases ws)
    case Nil
    then show ?thesis using nb(2) by (cases rs) (auto simp: redir_toks_def str_def asc_def split: if_splits)
  next
    case (Cons w ws')
    then show ?thesis using o symbol_subsets(4) by (simp add: on_def)
  qed
  then obtain u where u: "peek buf s (str ''('') = (False, u)" "on buf u ?ts" "s \<le> u" using peek_on [OF o symbol_subsets(4)] by auto
  have step: "parseexec n buf s = andthen (parseredirs buf u []) (\<lambda>(rs, s). exec_args buf s [] rs)" using u(1) m by simp
  show ?thesis
  proof (cases "ws = []")
    case True
    obtain ps t where t: "parseredirs buf u [] = Parsed (ps, t)" "on buf t rest" "u \<le> t" "list_all2 (redir_ok buf) ps rs" "chain u (map redir_span ps) (limit buf t rest)"
      using parseredirs_on [of buf u rs rest "[]"] u(2) nb True by auto
    obtain x where x: "exec_args buf t [] ps = Parsed (redirected ps (EXEC []), x)" "on buf x rest" "t \<le> x"
      using exec_args_end [OF t(2) rest] by blast
    have "chain s (map redir_span ps) (limit buf x rest)" using t(5) u(3) x(3) by (elim chain_mono) (simp_all add: limit_def)
    moreover have "spells (slice buf) (redirected ps (EXEC [])) (aredirected rs (AExec []))" by (rule spells_redirected [OF _ t(4)]) simp
    ultimately show ?thesis using True step t x u(3) by (simp add: got_def words_redirected)
  next
    case False
    have "\<not> begins ?ts (str ''<>'')" using False o symbol_subsets(6) by (cases ws) (simp_all add: on_def)
    then obtain t where t: "parseredirs buf u [] = Parsed ([], t)" "on buf t ?ts" "u \<le> t"
      using parseredirs_on [of buf u "[]" ?ts "[]"] u(2) by (auto simp: redir_toks_def)
    obtain as ps x where x: "exec_args buf t [] [] = Parsed (redirected ps (EXEC as), x)" "on buf x rest" "t \<le> x"
      "map (\<lambda>(q, e). slice buf q e) as = ws" "list_all2 (redir_ok buf) ps rs" "chain t (as @ map redir_span ps) (limit buf x rest)"
      using exec_args_on [OF rest False t(2), of "[]"] len by auto
    have "chain s (as @ map redir_span ps) (limit buf x rest)" using x(6) t(3) u(3) by (elim chain_mono) simp_all
    moreover have "spells (slice buf) (redirected ps (EXEC as)) (aredirected rs (AExec ws))" by (rule spells_redirected [OF _ x(5)]) (simp add: x(4))
    ultimately show ?thesis using step t(1,3) x(1-3) u(3) by (simp add: got_def words_redirected)
  qed
qed

lemma paren_on:
  assumes a: "on_line a" and o: "on buf s (Sym 40 # bare a @ Sym 41 # redir_toks rs @ rest)" and rest: "follow rest (str ''|)&;'')"
    and n: "enough buf s 2 n"
  shows "got buf s rest (aredirected rs a) (parseexec n buf s)"
proof -
  have par: "40 \<in> set (str ''('')" "41 \<in> set (str '')'')" by (simp_all add: str_def asc_def)
  have nb: "\<not> begins rest (str ''<>'')" using rest by (rule follow_begins) (simp add: str_def asc_def)
  obtain m where m: "n = Suc (Suc m)" "enough buf s 0 m" using enough_pred [of buf s 1 n] enough_pred [of buf s 0] n by (auto simp: numeral_2_eq_2)
  obtain u where u: "peek buf s (str ''('') = (True, u)" "on buf u (Sym 40 # bare a @ Sym 41 # redir_toks rs @ rest)" "s \<le> u"
    using peek_on [OF o symbol_subsets(4)] par(1) by auto
  obtain u' q e v where v: "peek buf u (str ''('') = (True, u')" "gettoken buf u' = (40, q, e, v)" "on buf v (bare a @ Sym 41 # redir_toks rs @ rest)" "u < v"
    using symbol_follows [OF u(2) par(1) symbol_subsets(4)] .
  have "enough buf v 4 m" using enough_later [OF m(2), of v 4] u(3) v(4) on_length [OF v(3)] by simp
  then have "got buf v (Sym 41 # redir_toks rs @ rest) a (parseline m buf v)"
    using a v(3) par(2) unfolding on_line_def by (auto simp: follow_def)
  then obtain c w where w: "parseline m buf v = Parsed (c, w)" "on buf w (Sym 41 # redir_toks rs @ rest)" "v \<le> w" "spells (slice buf) c a" "chain v (words c) w"
    by (rule gotE) (simp add: limit_def)
  obtain w' q' e' x where x: "peek buf w (str '')'') = (True, w')" "gettoken buf w' = (41, q', e', x)" "on buf x (redir_toks rs @ rest)" "w < x"
    using symbol_follows [OF w(2) par(2) symbol_subsets(5)] .
  obtain ps y where y: "parseredirs buf x [] = Parsed (ps, y)" "on buf y rest" "x \<le> y" "list_all2 (redir_ok buf) ps rs" "chain x (map redir_span ps) (limit buf y rest)"
    using parseredirs_on [OF x(3) nb, of "[]"] by auto
  have "parseexec n buf s = Parsed (redirected ps c, y)" using m(1) u(1) v(1,2) w(1) x(1,2) y(1) by simp
  moreover have "chain w (map redir_span ps) (limit buf y rest)" using y(5) x(4) by (elim chain_mono) simp_all
  then have "chain v (words c @ map redir_span ps) (limit buf y rest)" using w(5) chain_append by blast
  then have "chain s (words (redirected ps c)) (limit buf y rest)" using v(4) u(3) by (auto simp: words_redirected elim: chain_mono)
  ultimately show ?thesis using y(2,3) x(4) w(3) v(4) u(3) spells_redirected [OF w(4) y(4)] by (simp add: got_def)
qed

text \<open>A simple command or a command in parentheses, and the redirections behind it.\<close>

fun core :: "acmd \<Rightarrow> acmd" where
  "core (ARedir c k f) = core c"
| "core c = c"

fun redirs :: "acmd \<Rightarrow> (rkind \<times> bytes) list" where
  "redirs (ARedir c k f) = redirs c @ [(k, f)]"
| "redirs c = []"

lemma aredirected_append: "aredirected (rs @ [(k, f)]) c = ARedir (aredirected rs c) k f"
  by (induction rs c rule: aredirected.induct) simp_all

lemma redirs_core: "aredirected (redirs a) (core a) = a"
  by (induction a) (simp_all add: aredirected_append)

lemma wrap_core: "wrap 3 a (bare a) = wrap 3 (core a) (bare (core a)) @ redir_toks (redirs a)"
proof (induction a)
  case (ARedir c k f)
  then show ?case by (simp add: wrap_def [of 3 "ARedir c k f"] redir_toks_def)
qed (simp_all add: redir_toks_def)

definition core_ok :: "acmd \<Rightarrow> bool" where
  "core_ok a \<longleftrightarrow> (\<exists>ws. core a = AExec ws \<and> length ws < MAXARGS) \<or> level (core a) < 3 \<and> on_line (core a)"

lemma exec_of_core:
  assumes "core_ok a"
  shows "on_exec a"
  unfolding on_exec_def
proof (intro allI impI)
  fix buf s rest n
  assume o: "on buf s (wrap 3 a (bare a) @ rest)" and rest: "follow rest (str ''|)&;'')" and n: "enough buf s 2 n"
  from assms consider ws where "core a = AExec ws" "length ws < MAXARGS" | "level (core a) < 3" "on_line (core a)" by (auto simp: core_ok_def)
  then have "got buf s rest (aredirected (redirs a) (core a)) (parseexec n buf s)"
  proof cases
    case 1
    then show ?thesis using exec_on [OF _ rest 1(2) n, of "redirs a"] o [unfolded wrap_core [of a]] by (simp add: wrap_def)
  next
    case 2
    then show ?thesis using paren_on [OF 2(2) _ rest n, of "redirs a"] o [unfolded wrap_core [of a]] by (simp add: wrap_def)
  qed
  then show "got buf s rest a (parseexec n buf s)" by (simp add: redirs_core)
qed

lemma pipe_of_exec:
  assumes a: "on_exec a" and l: "level a \<noteq> 2"
  shows "on_pipe a"
  unfolding on_pipe_def
proof (intro allI impI)
  fix buf s rest n
  assume o: "on buf s (wrap 2 a (bare a) @ rest)" and rest: "follow rest (str '')&;'')" and n: "enough buf s 3 n"
  obtain m where m: "n = Suc m" "enough buf s 2 m" using enough_pred [of buf s 2 n] n by auto
  have "wrap 2 a (bare a) = wrap 3 a (bare a)" using l by (simp add: wrap_def)
  then have "got buf s rest a (parseexec m buf s)"
    using a o m(2) follow_mono [OF rest, of "str ''|)&;''"] unfolding on_exec_def by (simp add: str_def asc_def)
  then obtain c u where u: "parseexec m buf s = Parsed (c, u)" "on buf u rest" "s \<le> u" "spells (slice buf) c a" "chain s (words c) (limit buf u rest)"
    by (rule gotE)
  obtain v where v: "peek buf u (str ''|'') = (False, v)" "on buf v rest" "u \<le> v" "limit buf u rest \<le> limit buf v rest"
    by (rule symbol_absent [OF u(2) rest _ symbol_subsets(3)]) (simp_all add: str_def asc_def)
  have "chain s (words c) (limit buf v rest)" by (rule chain_mono [OF u(5) order_refl v(4)])
  then show "got buf s rest a (parsepipe n buf s)" using m(1) u(1,3,4) v(1-3) by (simp add: got_def)
qed

lemma pipe_of_pipe:
  assumes l: "on_exec l" and r: "on_pipe r"
  shows "on_pipe (APipe l r)"
  unfolding on_pipe_def
proof (intro allI impI)
  fix buf s rest n
  assume o: "on buf s (wrap 2 (APipe l r) (bare (APipe l r)) @ rest)" and rest: "follow rest (str '')&;'')" and n: "enough buf s 3 n"
  let ?ts = "Sym 124 # wrap 2 r (bare r) @ rest"
  have bar: "124 \<in> set (str ''|'')" "124 \<in> set (str ''|)&;'')" by (simp_all add: str_def asc_def)
  obtain m where m: "n = Suc m" "enough buf s 2 m" using enough_pred [of buf s 2 n] n by auto
  have "got buf s ?ts l (parseexec m buf s)" using l o m(2) bar(2) unfolding on_exec_def by (auto simp: wrap_def [of 2 "APipe l r"] follow_def)
  then obtain c u where u: "parseexec m buf s = Parsed (c, u)" "on buf u ?ts" "s \<le> u" "spells (slice buf) c l" "chain s (words c) u"
    by (rule gotE) (simp add: limit_def)
  obtain v q e w where w: "peek buf u (str ''|'') = (True, v)" "gettoken buf v = (124, q, e, w)" "on buf w (wrap 2 r (bare r) @ rest)" "u < w"
    using symbol_follows [OF u(2) bar(1) symbol_subsets(3)] .
  have "enough buf w 3 m" using enough_later [OF m(2), of w 3] u(3) w(4) on_length [OF w(3)] by simp
  then have "got buf w rest r (parsepipe m buf w)" using r w(3) rest unfolding on_pipe_def by blast
  then obtain d x where x: "parsepipe m buf w = Parsed (d, x)" "on buf x rest" "w \<le> x" "spells (slice buf) d r" "chain w (words d) (limit buf x rest)"
    by (rule gotE)
  have "chain s (words (PIPE c d)) (limit buf x rest)" using chain_append [OF u(5) chain_mono [OF x(5)]] w(4) by simp
  then show "got buf s rest (APipe l r) (parsepipe n buf s)" using m(1) u(1,3,4) w x(1-4) by (simp add: got_def)
qed

lemma back_of_pipe:
  assumes a: "on_pipe a" and l: "level a \<noteq> 1"
  shows "on_back a"
  unfolding on_back_def
proof (intro allI impI)
  fix buf s rest n
  assume o: "on buf s (wrap 1 a (bare a) @ rest)" and rest: "follow rest (str '')&;'')" and n: "enough buf s 3 n"
  have "wrap 1 a (bare a) = wrap 2 a (bare a)" using l by (simp add: wrap_def)
  then have g: "got buf s rest a (parsepipe n buf s)" using a o rest n unfolding on_pipe_def by simp
  then obtain c u where "parsepipe n buf s = Parsed (c, u)" by (rule gotE)
  then show "\<exists>c u d v. parsepipe n buf s = Parsed (c, u) \<and> back_loop buf c u = back_loop buf d v \<and> got buf s rest a (Parsed (d, v))"
    using g by auto
qed

lemma back_of_back:
  assumes a: "on_back a"
  shows "on_back (ABack a)"
  unfolding on_back_def
proof (intro allI impI)
  fix buf s rest n
  assume o: "on buf s (wrap 1 (ABack a) (bare (ABack a)) @ rest)" and rest: "follow rest (str '')&;'')" and n: "enough buf s 3 n"
  have amp: "38 \<in> set (str ''&'')" "38 \<in> set (str '')&;'')" by (simp_all add: str_def asc_def)
  have "on buf s (wrap 1 a (bare a) @ Sym 38 # rest)" using o by (simp add: wrap_def [of "Suc 0" "ABack a"])
  moreover have "follow (Sym 38 # rest) (str '')&;'')" using amp(2) by (simp add: follow_def)
  ultimately obtain c u d v where u: "parsepipe n buf s = Parsed (c, u)" "back_loop buf c u = back_loop buf d v" "got buf s (Sym 38 # rest) a (Parsed (d, v))"
    using a n unfolding on_back_def by blast
  from u(3) have v: "on buf v (Sym 38 # rest)" "s \<le> v" "spells (slice buf) d a" "chain s (words d) v" by (auto simp: got_def limit_def)
  obtain w q e x where x: "peek buf v (str ''&'') = (True, w)" "gettoken buf w = (38, q, e, x)" "on buf x rest" "v < x"
    using symbol_follows [OF v(1) amp(1) symbol_subsets(1)] .
  have "back_loop buf d v = back_loop buf (BACK d) x" using x(1,2) on_length [OF v(1)] by (subst back_loop.simps) simp
  moreover have "chain s (words (BACK d)) (limit buf x rest)" using chain_mono [OF v(4) order_refl] limit_le [OF x(3)] x(4) by simp
  then have "got buf s rest (ABack a) (Parsed (BACK d, x))" using v(2,3) x(3,4) by (simp add: got_def)
  ultimately show "\<exists>c u d v. parsepipe n buf s = Parsed (c, u) \<and> back_loop buf c u = back_loop buf d v \<and> got buf s rest (ABack a) (Parsed (d, v))"
    using u(1,2) by auto
qed

text \<open>The part of \<open>parseline\<close> up to the place behind the last \<^verbatim>\<open>&\<close>.\<close>

lemma line_start:
  assumes a: "on_back a" and o: "on buf s (wrap 1 a (bare a) @ rest)" and rest: "follow rest (str '');'')" and n: "enough buf s 3 n"
  obtains c u d v where "parsepipe n buf s = Parsed (c, u)" "back_loop buf c u = (d, v)" "on buf v rest" "s \<le> v" "spells (slice buf) d a" "chain s (words d) (limit buf v rest)"
proof -
  have "follow rest (str '')&;'')" using rest by (rule follow_mono) (simp add: str_def asc_def)
  then obtain c u d v where u: "parsepipe n buf s = Parsed (c, u)" "back_loop buf c u = back_loop buf d v" "got buf s rest a (Parsed (d, v))"
    using a o n unfolding on_back_def by blast
  from u(3) have v: "on buf v rest" "s \<le> v" "spells (slice buf) d a" "chain s (words d) (limit buf v rest)" by (simp_all add: got_def)
  obtain w where w: "peek buf v (str ''&'') = (False, w)" "on buf w rest" "v \<le> w" "limit buf v rest \<le> limit buf w rest"
    by (rule symbol_absent [OF v(1) rest _ symbol_subsets(1)]) (simp_all add: str_def asc_def)
  have "back_loop buf d v = (d, w)" using w(1) by (subst back_loop.simps) simp
  moreover have "chain s (words d) (limit buf w rest)" by (rule chain_mono [OF v(4) order_refl w(4)])
  ultimately show thesis using u(1,2) v(2,3) w(2,3) that by simp
qed

lemma line_of_back:
  assumes a: "on_back a" and l: "level a \<noteq> 0"
  shows "on_line a"
  unfolding on_line_def
proof (intro allI impI)
  fix buf s rest n
  assume o: "on buf s (bare a @ rest)" and rest: "follow rest (str '')'')" and n: "enough buf s 4 n"
  obtain m where m: "n = Suc m" "enough buf s 3 m" using enough_pred [of buf s 3 n] n by auto
  have b: "on buf s (wrap 1 a (bare a) @ rest)" "follow rest (str '');'')" using o l rest by (auto simp: wrap_def str_def asc_def follow_def)
  obtain c u d v where v: "parsepipe m buf s = Parsed (c, u)" "back_loop buf c u = (d, v)" "on buf v rest" "s \<le> v" "spells (slice buf) d a" "chain s (words d) (limit buf v rest)"
    using line_start [OF a b m(2)] .
  obtain w where w: "peek buf v (str '';'') = (False, w)" "on buf w rest" "v \<le> w" "limit buf v rest \<le> limit buf w rest"
    by (rule symbol_absent [OF v(3) rest _ symbol_subsets(2)]) (simp_all add: str_def asc_def)
  have "chain s (words d) (limit buf w rest)" by (rule chain_mono [OF v(6) order_refl w(4)])
  then show "got buf s rest a (parseline n buf s)" using m(1) v(1,2,4,5) w(1-3) by (simp add: got_def)
qed

lemma line_of_list:
  assumes l: "on_back l" and r: "on_line r"
  shows "on_line (AList l r)"
  unfolding on_line_def
proof (intro allI impI)
  fix buf s rest n
  assume o: "on buf s (bare (AList l r) @ rest)" and rest: "follow rest (str '')'')" and n: "enough buf s 4 n"
  let ?ts = "Sym 59 # bare r @ rest"
  have semi: "59 \<in> set (str '';'')" "59 \<in> set (str '');'')" by (simp_all add: str_def asc_def)
  obtain m where m: "n = Suc m" "enough buf s 3 m" using enough_pred [of buf s 3 n] n by auto
  have b: "on buf s (wrap 1 l (bare l) @ ?ts)" "follow ?ts (str '');'')" using o semi(2) by (simp_all add: follow_def)
  obtain c u d v where v: "parsepipe m buf s = Parsed (c, u)" "back_loop buf c u = (d, v)" "on buf v ?ts" "s \<le> v" "spells (slice buf) d l" "chain s (words d) v"
    by (rule line_start [OF l b m(2)]) (simp add: limit_def)
  obtain w q e x where x: "peek buf v (str '';'') = (True, w)" "gettoken buf w = (59, q, e, x)" "on buf x (bare r @ rest)" "v < x"
    using symbol_follows [OF v(3) semi(1) symbol_subsets(2)] .
  have "enough buf x 4 m" using enough_later [OF m(2), of x 4] v(4) x(4) on_length [OF x(3)] by simp
  then have "got buf x rest r (parseline m buf x)" using r x(3) rest unfolding on_line_def by blast
  then obtain f y where y: "parseline m buf x = Parsed (f, y)" "on buf y rest" "x \<le> y" "spells (slice buf) f r" "chain x (words f) (limit buf y rest)"
    by (rule gotE)
  have "chain s (words (LIST d f)) (limit buf y rest)" using chain_append [OF v(6) chain_mono [OF y(5)]] x(4) by simp
  then show "got buf s rest (AList l r) (parseline n buf s)" using m(1) v(1,2,4,5) x y(1-4) by (simp add: got_def)
qed

lemma parse_on: "good_cmd a \<Longrightarrow> core_ok a \<and> on_pipe a \<and> on_back a \<and> on_line a"
proof (induction a)
  case (AExec ws)
  then have c: "core_ok (AExec ws)" by (simp add: core_ok_def)
  then show ?case using exec_of_core pipe_of_exec back_of_pipe line_of_back by simp
next
  case (ARedir c k f)
  then have c: "core_ok (ARedir c k f)" by (simp add: core_ok_def)
  then show ?case using exec_of_core pipe_of_exec back_of_pipe line_of_back by simp
next
  case (APipe l r)
  then have p: "on_pipe (APipe l r)" using pipe_of_pipe exec_of_core by simp
  then have b: "on_back (APipe l r)" using back_of_pipe by simp
  then have l: "on_line (APipe l r)" using line_of_back by simp
  then show ?case using p b by (simp add: core_ok_def)
next
  case (AList l r)
  then have l: "on_line (AList l r)" using line_of_list by simp
  then have c: "core_ok (AList l r)" by (simp add: core_ok_def)
  then show ?case using l exec_of_core pipe_of_exec back_of_pipe by simp
next
  case (ABack c)
  then have b: "on_back (ABack c)" using back_of_back by simp
  then have l: "on_line (ABack c)" using line_of_back by simp
  then have c: "core_ok (ABack c)" by (simp add: core_ok_def)
  then show ?case using l b exec_of_core pipe_of_exec by simp
qed

section \<open>The round trip\<close>

lemma good_toks: "good_cmd a \<Longrightarrow> list_all good_tok (bare a)"
proof -
  have sym: "40 \<in> set symbols" "41 \<in> set symbols" "124 \<in> set symbols" "59 \<in> set symbols" "38 \<in> set symbols" by (simp_all add: symbols_set)
  have red: "good_tok (rtok k)" for k by (cases k) (simp_all add: symbols_set)
  show "good_cmd a \<Longrightarrow> list_all good_tok (bare a)" by (induction a) (simp_all add: wrap_def sym red list.pred_map comp_def)
qed

lemma peek_end: "on buf u [] \<Longrightarrow> peek buf u [] = (False, length buf)"
  using on_skip [of buf u "[]"] by (simp add: peek_def Let_def in_literal_def)

text \<open>The words of a good command hold no NUL.\<close>

lemma good_words:
  assumes "spells f c a" and "good_cmd a" and "(q, e) \<in> set (words c)"
  shows "0 \<notin> set (f q e)"
  using assms
proof (induction f c a rule: spells.induct)
  case (1 f argv ws)
  then have "f q e \<in> set ws" by (force simp: image_iff)
  then show ?case using 1(2) by (auto simp: list_all_iff good_word_def word_char_def)
next
  case (2 f c q' e' mode fd a k w)
  then show ?case by (auto simp: list_all_iff good_word_def word_char_def)
qed auto

text \<open>C32. The shell reads back every command it can be given: for a command whose words are not empty, hold no blank, no
  symbol and no NUL, and with fewer than \<open>MAXARGS\<close> arguments, printed with its operators and with parentheses where a
  part binds weaker than its place asks for, \<open>parsecmd\<close> returns a command of the same structure, with the open mode
  and the descriptor of each redirection, and the pointers of its words point at NUL-terminated strings equal to the
  words that were printed.\<close>

theorem parsecmd_reads_printed:
  assumes "good_cmd a"
  shows "\<exists>c b. parsecmd (render (bare a)) = Parsed (c, b) \<and> spells (\<lambda>q e. string_at b q) c a"
proof -
  let ?buf = "render (bare a)"
  have "on ?buf 0 (bare a @ [])" using good_toks [OF assms] by (simp add: render_on)
  moreover have "enough ?buf 0 4 (parse_fuel ?buf)" by (simp add: enough_def parse_fuel_def)
  moreover have "follow [] (str '')'')" "on_line a" using parse_on [OF assms] by (simp_all add: follow_def)
  ultimately have "got ?buf 0 [] a (parseline (parse_fuel ?buf) ?buf 0)" unfolding on_line_def by blast
  then obtain c u where u: "parseline (parse_fuel ?buf) ?buf 0 = Parsed (c, u)" "on ?buf u []" "spells (slice ?buf) c a" "chain 0 (words c) (Suc (length ?buf))"
    by (rule gotE) (simp add: limit_def)
  let ?b = "nulterminate c (?buf @ [0])"
  have "parsecmd ?buf = Parsed (c, ?b)" using u(1) peek_end [OF u(2)] by (simp add: parsecmd_def)
  moreover have "slice ?buf q e = string_at ?b q" if w: "(q, e) \<in> set (words c)" for q e
    using string_at_word [OF u(4) w] good_words [OF u(3) assms w] by (simp add: slice_def)
  then have "spells (\<lambda>q e. string_at ?b q) c a" by (rule spells_cong [OF _ u(3)])
  ultimately show ?thesis by blast
qed

text \<open>The line \<^verbatim>\<open>( a | b < f ; c & ) >> g\<close>.\<close>

definition sample :: acmd where
  "sample = ARedir (AList (APipe (AExec [str ''a'']) (ARedir (AExec [str ''b'']) In (str ''f''))) (ABack (AExec [str ''c'']))) Append (str ''g'')"

lemma sample_good: "good_cmd sample"
  by (simp add: sample_def good_word_def word_char_def space_def symbols_set str_def asc_def MAXARGS_def)

lemma sample_text: "render (bare sample) = str '' ( a | b < f ; c & ) >> g''"
  by code_simp

theorem parsecmd_reads_printed_witness:
  "\<exists>c b. parsecmd (str '' ( a | b < f ; c & ) >> g'') = Parsed (c, b) \<and> spells (\<lambda>q e. string_at b q) c sample"
  using parsecmd_reads_printed [OF sample_good] by (simp only: sample_text)

end
