(* ===== verification/Spec2Isabelle.thy ===== *)
theory Spec2Isabelle
  imports Sched_System Trap Start Crash Newproc Editing Channel Grep Shparse
begin

text \<open>
  Header.
\<close>

end
